(* ===== verification/Prelude.thy ===== *)
theory Prelude
  imports Main "HOL-Library.Word" "HOL-Library.AList" "HOL-Library.Monad_Syntax"
begin

text \<open>
  What the component theories share.

  \<^item> Machine integers: \<open>u8\<close>, \<open>u16\<close>, \<open>u32\<close>, \<open>u64\<close> are words; \<open>usize\<close> values that are
    lengths of vectors are \<open>nat\<close>.
  \<^item> Rust strings: a \<open>rstring\<close> is the list of its Unicode scalar values (as \<open>nat\<close>), because the
    filter lexer iterates over \<open>char\<close>s and counts UTF-8 bytes; \<open>lit\<close> turns an ASCII literal
    into one, \<open>utf8_len\<close> is \<open>str::len\<close>.
  \<^item> Panics: an operation that may panic returns an \<open>option\<close> whose \<open>None\<close> is the panic
    (\<open>'a run\<close>); \<open>idx\<close>, \<open>slice\<close>, \<open>slice_from\<close> are the checked accesses of slices.
  \<^item> Bounded histories: \<open>lastn\<close> and the locale \<open>bounded_history\<close>, the contract shared by the
    rate-sample ring of the metrics and the tail reader of the session files.
\<close>

subsection \<open>Machine integers\<close>

type_synonym u8 = "8 word"
type_synonym u16 = "16 word"
type_synonym u32 = "32 word"
type_synonym u64 = "64 word"

named_theorems run_simps \<open>rewriting of checked slice accesses\<close>
named_theorems str_simps \<open>evaluation of string literals\<close>

subsection \<open>Computations that may panic\<close>

type_synonym 'a run = "'a option"

definition idx :: "'a list \<Rightarrow> nat \<Rightarrow> 'a run" where
  "idx xs i = (if i < length xs then Some (xs ! i) else None)"

definition slice_from :: "'a list \<Rightarrow> nat \<Rightarrow> 'a list run" where
  "slice_from xs i = (if i \<le> length xs then Some (drop i xs) else None)"

definition slice :: "'a list \<Rightarrow> nat \<Rightarrow> nat \<Rightarrow> 'a list run" where
  "slice xs i j = (if i \<le> j \<and> j \<le> length xs then Some (take (j - i) (drop i xs)) else None)"

lemma idx_Some [run_simps]: "i < length xs \<Longrightarrow> idx xs i = Some (xs ! i)"
  by (simp add: idx_def)

lemma slice_from_Some [run_simps]: "i \<le> length xs \<Longrightarrow> slice_from xs i = Some (drop i xs)"
  by (simp add: slice_from_def)

lemma slice_Some [run_simps]:
  "i \<le> j \<Longrightarrow> j \<le> length xs \<Longrightarrow> slice xs i j = Some (take (j - i) (drop i xs))"
  by (simp add: slice_def)

text \<open>An array literal \<open>[xs[i], xs[j], ...]\<close>.\<close>

definition idxs :: "'a list \<Rightarrow> nat list \<Rightarrow> 'a list run" where
  "idxs xs is = those (map (idx xs) is)"

lemma idxs_Some [run_simps]:
  "\<forall>i \<in> set is. i < length xs \<Longrightarrow> idxs xs is = Some (map ((!) xs) is)"
  unfolding idxs_def by (induction "is") (auto simp: idx_def)

subsection \<open>The last elements of a list, and histories bounded by a capacity\<close>

definition lastn :: "nat \<Rightarrow> 'a list \<Rightarrow> 'a list" where
  "lastn n xs = drop (length xs - n) xs"

lemma length_lastn [simp]: "length (lastn n xs) = min n (length xs)"
  by (simp add: lastn_def)

lemma lastn_short: "length xs \<le> n \<Longrightarrow> lastn n xs = xs"
  by (simp add: lastn_def)

lemma lastn_0 [simp]: "lastn 0 xs = []"
  by (simp add: lastn_def)

lemma set_lastn_subset: "set (lastn n xs) \<subseteq> set xs"
  by (simp add: lastn_def set_drop_subset)

lemma lastn_suffix: "\<exists>ys. xs = ys @ lastn n xs"
  unfolding lastn_def by (metis append_take_drop_id)

lemma lastn_append: "lastn n (xs @ ys) = lastn (n - length ys) xs @ lastn n ys"
  by (cases "length ys \<le> n") (simp_all add: lastn_def)

lemma lastn_lastn_append: "lastn n (lastn n xs @ ys) = lastn n (xs @ ys)"
proof -
  have "lastn (n - length ys) (lastn n xs) = lastn (n - length ys) xs"
    by (cases "length xs \<le> n") (simp_all add: lastn_def)
  then show ?thesis by (simp add: lastn_append)
qed

locale bounded_history =
  fixes push :: "'a \<Rightarrow> 'q \<Rightarrow> 'q"
    and contents :: "'q \<Rightarrow> 'a list"
    and cap :: nat
  assumes contents_push: "length (contents q) \<le> cap \<Longrightarrow>
            contents (push x q) = lastn cap (contents q @ [x])"
begin

definition pushes :: "'a list \<Rightarrow> 'q \<Rightarrow> 'q" where
  "pushes xs q = fold push xs q"

lemma contents_pushes:
  "length (contents q) \<le> cap \<Longrightarrow> contents (pushes xs q) = lastn cap (contents q @ xs)"
proof (induction xs arbitrary: q)
  case Nil
  then show ?case by (simp add: pushes_def lastn_short)
next
  case (Cons x xs)
  have "length (contents (push x q)) \<le> cap"
    using Cons.prems by (simp add: contents_push)
  then have "contents (pushes xs (push x q)) = lastn cap (contents (push x q) @ xs)"
    by (rule Cons.IH)
  also have "\<dots> = lastn cap (contents q @ x # xs)"
    using Cons.prems lastn_lastn_append [of cap "contents q @ [x]" xs]
    by (simp add: contents_push)
  finally show ?case by (simp add: pushes_def)
qed

lemma pushes_bounded:
  "length (contents q) \<le> cap \<Longrightarrow> length (contents (pushes xs q)) \<le> cap"
  by (simp add: contents_pushes)

end

text \<open>
  A log that only grows: pushing an acceptable entry onto a state that has logged some entries gives one that has logged one
  more. The consumers of records rely on it, the thread that prints and the interactive view.
\<close>

locale append_log =
  fixes push :: "'a \<Rightarrow> 's \<Rightarrow> 's"
    and logged :: "'a list \<Rightarrow> 's \<Rightarrow> bool"
    and fit :: "'a \<Rightarrow> bool"
  assumes push_logged: "logged xs s \<Longrightarrow> fit x \<Longrightarrow> logged (xs @ [x]) (push x s)"
begin

lemma pushes_logged: "logged xs s \<Longrightarrow> \<forall>y \<in> set ys. fit y \<Longrightarrow> logged (xs @ ys) (fold push ys s)"
proof (induction ys arbitrary: xs s)
  case (Cons y ys)
  then show ?case using push_logged [of xs s y] Cons.IH [of "xs @ [y]" "push y s"] by simp
qed simp

end

subsection \<open>Strings\<close>

type_synonym rchar = nat
type_synonym rstring = "rchar list"

definition lit :: "string \<Rightarrow> rstring" where
  "lit s = map of_char s"

lemma lit_eq_iff [simp]: "lit s = lit t \<longleftrightarrow> s = t"
proof -
  have "inj (of_char :: char \<Rightarrow> nat)" by (simp add: inj_on_def)
  then show ?thesis by (simp add: lit_def)
qed

lemma lit_Nil [simp]: "lit [] = []"
  by (simp add: lit_def)

lemma lit_eq_Nil [simp]: "lit s = [] \<longleftrightarrow> s = []" "[] = lit s \<longleftrightarrow> s = []"
  by (auto simp: lit_def)

lemma lit_append: "lit (s @ t) = lit s @ lit t"
  by (simp add: lit_def)

lemma lit_Cons [str_simps]: "lit (c # s) = of_char c # lit s"
  by (simp add: lit_def)

text \<open>The characters the source writes that are not ASCII.\<close>

definition arrow :: rchar where "arrow = 0x2192"
definition warn_sign :: rchar where "warn_sign = 0x26A0"
definition ellipsis :: rchar where "ellipsis = 0x2026"
definition em_dash :: rchar where "em_dash = 0x2014"

text \<open>\<open>char::len_utf8\<close>, \<open>str::len\<close>, \<open>char::is_whitespace\<close> (the White\_Space property).\<close>

definition len_utf8 :: "rchar \<Rightarrow> nat" where
  "len_utf8 c = (if c < 0x80 then 1 else if c < 0x800 then 2 else if c < 0x10000 then 3 else 4)"

definition utf8_len :: "rstring \<Rightarrow> nat" where
  "utf8_len s = sum_list (map len_utf8 s)"

definition is_ws :: "rchar \<Rightarrow> bool" where
  "is_ws c \<longleftrightarrow> (9 \<le> c \<and> c \<le> 13) \<or> c = 32 \<or> c = 0x85 \<or> c = 0xA0 \<or> c = 0x1680
     \<or> (0x2000 \<le> c \<and> c \<le> 0x200A) \<or> c = 0x2028 \<or> c = 0x2029 \<or> c = 0x202F \<or> c = 0x205F \<or> c = 0x3000"

lemma len_utf8_pos [simp]: "0 < len_utf8 c"
  by (simp add: len_utf8_def)

lemma utf8_len_Nil [simp]: "utf8_len [] = 0"
  by (simp add: utf8_len_def)

lemma utf8_len_Cons [simp]: "utf8_len (c # s) = len_utf8 c + utf8_len s"
  by (simp add: utf8_len_def)

lemma utf8_len_append [simp]: "utf8_len (s @ t) = utf8_len s + utf8_len t"
  by (simp add: utf8_len_def)

lemma utf8_len_eq_0 [simp]: "utf8_len s = 0 \<longleftrightarrow> s = []"
  by (cases s) (auto simp: len_utf8_def)

text \<open>\<open>str::trim\<close>, \<open>eq_ignore_ascii_case\<close>, \<open>[String]::join\<close>, \<open>str::contains\<close>, \<open>str::starts_with\<close>.\<close>

definition trim :: "rstring \<Rightarrow> rstring" where
  "trim s = rev (dropWhile is_ws (rev (dropWhile is_ws s)))"

lemma trim_trim: "trim (trim s) = trim s"
proof -
  define u where "u = dropWhile is_ws s"
  define t where "t = rev (dropWhile is_ws (rev u))"
  have t: "trim s = t" by (simp add: trim_def t_def u_def)
  obtain v where v: "u = t @ v"
    by (metis t_def rev_append rev_rev_ident takeWhile_dropWhile_id)
  have "dropWhile is_ws t = t"
  proof (cases t)
    case (Cons c cs)
    then have "hd u = c" "u \<noteq> []" by (simp_all add: v)
    then have "\<not> is_ws c" using hd_dropWhile [of is_ws s] by (simp add: u_def)
    then show ?thesis by (simp add: Cons)
  qed simp
  moreover have "dropWhile is_ws (rev t) = rev t" by (simp add: t_def)
  ultimately have "trim t = t" by (simp add: trim_def)
  then show ?thesis by (simp add: t)
qed

definition ascii_lower :: "rchar \<Rightarrow> rchar" where
  "ascii_lower c = (if 65 \<le> c \<and> c \<le> 90 then c + 32 else c)"

definition eq_ignore_case :: "rstring \<Rightarrow> rstring \<Rightarrow> bool" where
  "eq_ignore_case s t \<longleftrightarrow> map ascii_lower s = map ascii_lower t"

fun join :: "rstring \<Rightarrow> rstring list \<Rightarrow> rstring" where
  "join sep [] = []"
| "join sep [s] = s"
| "join sep (s # ss) = s @ sep @ join sep ss"

fun is_prefix :: "rstring \<Rightarrow> rstring \<Rightarrow> bool" where
  "is_prefix [] s = True"
| "is_prefix (c # p) [] = False"
| "is_prefix (c # p) (d # s) = (c = d \<and> is_prefix p s)"

fun str_contains :: "rstring \<Rightarrow> rstring \<Rightarrow> bool" where
  "str_contains [] n = (n = [])"
| "str_contains (c # s) n = (is_prefix n (c # s) \<or> str_contains s n)"

lemma is_prefix_iff: "is_prefix p s \<longleftrightarrow> (\<exists>t. s = p @ t)"
  by (induction p s rule: is_prefix.induct) auto

lemma str_contains_iff: "str_contains s n \<longleftrightarrow> (\<exists>a b. s = a @ n @ b)"
proof (induction s n rule: str_contains.induct)
  case (1 n)
  then show ?case by auto
next
  case (2 c s n)
  have "(\<exists>a b. c # s = a @ n @ b) \<longleftrightarrow> (\<exists>b. c # s = n @ b) \<or> (\<exists>a b. s = a @ n @ b)"
  proof
    assume "\<exists>a b. c # s = a @ n @ b"
    then obtain a b where ab: "c # s = a @ n @ b" by blast
    then show "(\<exists>b. c # s = n @ b) \<or> (\<exists>a b. s = a @ n @ b)"
      by (cases a) auto
  next
    assume "(\<exists>b. c # s = n @ b) \<or> (\<exists>a b. s = a @ n @ b)"
    then show "\<exists>a b. c # s = a @ n @ b"
      by (metis append_Cons append_Nil)
  qed
  with 2 show ?case by (simp add: is_prefix_iff)
qed

subsection \<open>Numbers as text\<close>

text \<open>\<open>Display\<close> of unsigned and signed integers, \<open>{:02x}\<close> of a byte, \<open>u16::from_str\<close>.\<close>

fun show_nat :: "nat \<Rightarrow> rstring" where
  "show_nat n = (if n < 10 then [48 + n] else show_nat (n div 10) @ [48 + n mod 10])"

declare show_nat.simps [simp del]

definition show_int :: "int \<Rightarrow> rstring" where
  "show_int i = (if i < 0 then 45 # show_nat (nat (- i)) else show_nat (nat i))"

definition hex_digit :: "nat \<Rightarrow> rchar" where
  "hex_digit n = (if n < 10 then 48 + n else 87 + n)"

definition hex_byte :: "u8 \<Rightarrow> rstring" where
  "hex_byte b = [hex_digit (unat b div 16), hex_digit (unat b mod 16)]"

definition is_dec :: "rchar \<Rightarrow> bool" where
  "is_dec c \<longleftrightarrow> 48 \<le> c \<and> c \<le> 57"

fun read_digits :: "nat \<Rightarrow> rstring \<Rightarrow> nat option" where
  "read_digits acc [] = Some acc"
| "read_digits acc (c # s) = (if is_dec c then read_digits (10 * acc + (c - 48)) s else None)"

definition parse_u16 :: "rstring \<Rightarrow> u16 option" where
  "parse_u16 s =
     (let ds = (case s of c # t \<Rightarrow> if c = 43 then t else s | [] \<Rightarrow> s)
      in if ds = [] then None
         else case read_digits 0 ds of
           None \<Rightarrow> None
         | Some n \<Rightarrow> if n < 65536 then Some (of_nat n) else None)"

lemma show_nat_not_Nil [simp]: "show_nat n \<noteq> []"
  by (subst show_nat.simps) simp

lemma show_nat_digits: "\<forall>c \<in> set (show_nat n). is_dec c"
proof (induction n rule: show_nat.induct)
  case (1 n)
  then show ?case
    by (subst show_nat.simps) (auto simp: is_dec_def)
qed

lemma read_digits_append:
  "read_digits acc (s @ t) =
     (case read_digits acc s of None \<Rightarrow> None | Some n \<Rightarrow> read_digits n t)"
  by (induction acc s rule: read_digits.induct) auto

lemma read_show_nat: "read_digits 0 (show_nat n) = Some n"
proof (induction n rule: show_nat.induct)
  case (1 n)
  then show ?case
    by (subst show_nat.simps) (auto simp: read_digits_append is_dec_def)
qed

lemma parse_show_u16: "parse_u16 (show_nat (unat p)) = Some p"
proof -
  have b: "unat p < 65536" using unsigned_less [of p, where ?'a = nat] by simp
  obtain c t where s: "show_nat (unat p) = c # t"
    by (cases "show_nat (unat p)") auto
  have "is_dec c" using show_nat_digits [of "unat p"] s by simp
  then have "c \<noteq> 43" by (simp add: is_dec_def)
  then show ?thesis
    using b s read_show_nat [of "unat p"] by (simp add: parse_u16_def Let_def)
qed

subsection \<open>Big-endian integers\<close>

text \<open>\<open>from_be_bytes\<close> at any width, and its inverse on \<open>k\<close> bytes.\<close>

definition be_nat :: "u8 list \<Rightarrow> nat" where
  "be_nat bs = foldl (\<lambda>n b. 256 * n + unat b) 0 bs"

definition be_word :: "u8 list \<Rightarrow> 'a::len word" where
  "be_word bs = of_nat (be_nat bs)"

definition enc_be :: "nat \<Rightarrow> 'a::len word \<Rightarrow> u8 list" where
  "enc_be k w = map (\<lambda>i. of_nat (unat w div 256 ^ i)) (rev [0..<k])"

lemma length_enc_be [simp]: "length (enc_be k w) = k"
  by (simp add: enc_be_def)

lemma be_nat_foldl: "foldl (\<lambda>n b. 256 * n + unat b) a bs = a * 256 ^ length bs + be_nat bs"
proof (induction bs arbitrary: a)
  case Nil
  then show ?case by (simp add: be_nat_def)
next
  case (Cons b bs)
  show ?case
    using Cons.IH [of "256 * a + unat b"] Cons.IH [of "unat b"]
    by (simp add: be_nat_def algebra_simps)
qed

lemma be_nat_Cons: "be_nat (b # bs) = unat b * 256 ^ length bs + be_nat bs"
  using be_nat_foldl [of "unat b" bs] by (simp add: be_nat_def)

lemma unat_of_nat_u8: "unat (of_nat n :: u8) = n mod 256"
  by (simp add: unat_of_nat)

lemma unat_of_nat_u32: "n < 2 ^ 32 \<Longrightarrow> unat (of_nat n :: u32) = n"
  by (simp add: unat_of_nat)

lemma be_nat_enc: "be_nat (enc_be k w) = unat w mod 256 ^ k"
proof (induction k)
  case 0
  then show ?case by (simp add: enc_be_def be_nat_def)
next
  case (Suc k)
  have "enc_be (Suc k) w = of_nat (unat w div 256 ^ k) # enc_be k w"
    by (simp add: enc_be_def)
  then have "be_nat (enc_be (Suc k) w) = (unat w div 256 ^ k) mod 256 * 256 ^ k + unat w mod 256 ^ k"
    by (simp add: be_nat_Cons Suc.IH unat_of_nat_u8)
  also have "\<dots> = unat w mod 256 ^ Suc k"
    using mod_mult2_eq [of "unat w" "256 ^ k" 256] by (simp add: mult.commute)
  finally show ?case .
qed

lemma be_word_enc:
  fixes w :: "'a::len word"
  assumes "LENGTH('a) \<le> 8 * k"
  shows "be_word (enc_be k w) = w"
proof -
  have "unat w < 2 ^ LENGTH('a)" by (rule unsigned_less)
  also have "(2::nat) ^ LENGTH('a) \<le> 2 ^ (8 * k)" using assms by (simp add: power_increasing)
  also have "(2::nat) ^ (8 * k) = 256 ^ k" by (simp add: power_mult)
  finally have "unat w mod 256 ^ k = unat w" by simp
  then show ?thesis by (simp add: be_word_def be_nat_enc)
qed

end
