(* ===== verification/Net.thy ===== *)
theory Net
  imports Prelude
begin

text \<open>
  \<open>src/net.rs\<close>: from a captured frame to a TCP segment. A parser returns
  \<open>tcp_segment option run\<close>: the outer \<open>None\<close> is a panic (an index or a slice out of range),
  the inner \<open>None\<close> is the code's \<open>None\<close>. The lemmas show that no input panics and that a
  well-formed frame, with any VLAN tags, IP and TCP options, IPv6 extension headers and
  trailing padding, gives back its segment.
\<close>

unbundle bit_operations_syntax

subsection \<open>The segment and the link types\<close>

datatype ip_addr = IpV4 u32 | IpV6 "128 word"

record tcp_segment =
  seg_src :: ip_addr
  seg_dst :: ip_addr
  seg_src_port :: u16
  seg_dst_port :: u16
  seg_seq :: u32
  seg_ack :: u32
  seg_syn :: bool
  seg_fin :: bool
  seg_rst :: bool
  seg_payload :: "u8 list"

definition DLT_NULL :: int where "DLT_NULL = 0"
definition DLT_EN10MB :: int where "DLT_EN10MB = 1"
definition DLT_RAW_OLD :: int where "DLT_RAW_OLD = 12"
definition DLT_RAW :: int where "DLT_RAW = 101"
definition DLT_LINUX_SLL :: int where "DLT_LINUX_SLL = 113"
definition DLT_LINUX_SLL2 :: int where "DLT_LINUX_SLL2 = 276"
definition DLT_IPV4 :: int where "DLT_IPV4 = 228"
definition DLT_IPV6 :: int where "DLT_IPV6 = 229"

lemmas dlt_defs = DLT_NULL_def DLT_EN10MB_def DLT_RAW_OLD_def DLT_RAW_def
  DLT_LINUX_SLL_def DLT_LINUX_SLL2_def DLT_IPV4_def DLT_IPV6_def

subsection \<open>The parsers\<close>

definition parse_tcp :: "u8 list \<Rightarrow> ip_addr \<Rightarrow> ip_addr \<Rightarrow> tcp_segment option run" where
  "parse_tcp l4 src dst =
     (if length l4 < 20 then Some None
      else do {
        sp \<leftarrow> idxs l4 [0, 1];
        dp \<leftarrow> idxs l4 [2, 3];
        sq \<leftarrow> idxs l4 [4, 5, 6, 7];
        ak \<leftarrow> idxs l4 [8, 9, 10, 11];
        off \<leftarrow> idx l4 12;
        flags \<leftarrow> idx l4 13;
        let data_offset = unat (drop_bit 4 off) * 4;
        if data_offset < 20 \<or> length l4 < data_offset then Some None
        else do {
          payload \<leftarrow> (if length l4 > data_offset then slice_from l4 data_offset else Some []);
          Some (Some \<lparr> seg_src = src, seg_dst = dst,
            seg_src_port = be_word sp, seg_dst_port = be_word dp,
            seg_seq = be_word sq, seg_ack = be_word ak,
            seg_syn = (flags AND 2 \<noteq> 0), seg_fin = (flags AND 1 \<noteq> 0),
            seg_rst = (flags AND 4 \<noteq> 0), seg_payload = payload \<rparr>)
        }
      })"

definition parse_ipv4 :: "u8 list \<Rightarrow> tcp_segment option run" where
  "parse_ipv4 b =
     (if length b < 20 then Some None
      else do {
        b0 \<leftarrow> idx b 0;
        let ihl = unat (b0 AND 15) * 4;
        if ihl < 20 \<or> length b < ihl then Some None
        else do {
          proto \<leftarrow> idx b 9;
          if proto \<noteq> 6 then Some None
          else do {
            tl \<leftarrow> idxs b [2, 3];
            let total_len = unat (be_word tl :: u16);
            let end = min total_len (length b);
            if end < ihl then Some None
            else do {
              s \<leftarrow> idxs b [12, 13, 14, 15];
              d \<leftarrow> idxs b [16, 17, 18, 19];
              l4 \<leftarrow> slice b ihl end;
              parse_tcp l4 (IpV4 (be_word s)) (IpV4 (be_word d))
            }
          }
        }
      })"

definition is_extension_header :: "u8 \<Rightarrow> bool" where
  "is_extension_header nh \<longleftrightarrow> nh = 0 \<or> nh = 43 \<or> nh = 44 \<or> nh = 51 \<or> nh = 60"

definition extension_header_len :: "u8 \<Rightarrow> u8 list \<Rightarrow> nat option run" where
  "extension_header_len nh ext =
     (if nh = 44 then Some (Some 8)
      else if nh = 51 then
        (if length ext < 2 then Some None
         else do { l \<leftarrow> idx ext 1; Some (Some ((unat l + 2) * 4)) })
      else
        (if length ext < 2 then Some None
         else do { l \<leftarrow> idx ext 1; Some (Some ((unat l + 1) * 8)) }))"

lemma extension_header_len_ge:
  "extension_header_len nh ext = Some (Some n) \<Longrightarrow> 8 \<le> n"
  by (auto simp: extension_header_len_def idx_def split: if_splits)

function walk_extensions :: "u8 list \<Rightarrow> nat \<Rightarrow> u8 \<Rightarrow> nat \<Rightarrow> (u8 \<times> nat) option run" where
  "walk_extensions b body_end next_header off =
     (if is_extension_header next_header \<and> off + 8 \<le> body_end then do {
        ext_next \<leftarrow> idx b off;
        ext \<leftarrow> slice b off body_end;
        r \<leftarrow> extension_header_len next_header ext;
        case r of
          None \<Rightarrow> Some None
        | Some ext_len \<Rightarrow>
            if off + ext_len > body_end then Some None
            else walk_extensions b body_end ext_next (off + ext_len)
      } else Some (Some (next_header, off)))"
  by pat_completeness auto
termination
  by (relation "measure (\<lambda>(b, body_end, nh, off). body_end - off)")
    (auto dest: extension_header_len_ge)

declare walk_extensions.simps [simp del]

definition octets16 :: "u8 list \<Rightarrow> u8 list run" where
  "octets16 s = (if length s = 16 then Some s else None)"

definition parse_ipv6 :: "u8 list \<Rightarrow> tcp_segment option run" where
  "parse_ipv6 b =
     (if length b < 40 then Some None
      else do {
        pl \<leftarrow> idxs b [4, 5];
        let payload_len = unat (be_word pl :: u16);
        nh \<leftarrow> idx b 6;
        s \<leftarrow> slice b 8 24;
        s \<leftarrow> octets16 s;
        d \<leftarrow> slice b 24 40;
        d \<leftarrow> octets16 d;
        let body_end = min (40 + payload_len) (length b);
        w \<leftarrow> walk_extensions b body_end nh 40;
        case w of
          None \<Rightarrow> Some None
        | Some (next_header, off) \<Rightarrow>
            if next_header \<noteq> 6 then Some None
            else do {
              l4 \<leftarrow> slice b off body_end;
              parse_tcp l4 (IpV6 (be_word s)) (IpV6 (be_word d))
            }
      })"

definition parse_ip :: "u8 list \<Rightarrow> tcp_segment option run" where
  "parse_ip b =
     (if b = [] then Some None
      else do {
        b0 \<leftarrow> idx b 0;
        let v = (drop_bit 4 b0 :: u8);
        if v = 4 then parse_ipv4 b else if v = 6 then parse_ipv6 b else Some None
      })"

function skip_vlan :: "u16 \<Rightarrow> u8 list \<Rightarrow> (u16 \<times> u8 list) run" where
  "skip_vlan ethertype payload =
     (if ethertype = 0x8100 \<and> 4 \<le> length payload then do {
        e \<leftarrow> idxs payload [0, 1];
        p \<leftarrow> slice_from payload 4;
        skip_vlan (be_word e) p
      } else Some (ethertype, payload))"
  by pat_completeness auto
termination
  by (relation "measure (\<lambda>(e, p). length p)") (auto simp: slice_from_def split: if_splits)

declare skip_vlan.simps [simp del]

definition strip_link :: "u8 list \<Rightarrow> int \<Rightarrow> u8 list option run" where
  "strip_link data dlt =
     (if dlt = DLT_EN10MB then
        (if length data < 14 then Some None
         else do {
           e \<leftarrow> idxs data [12, 13];
           payload \<leftarrow> slice_from data 14;
           (ethertype, payload) \<leftarrow> skip_vlan (be_word e) payload;
           Some (if ethertype = 0x0800 \<or> ethertype = 0x86DD then Some payload else None)
         })
      else if dlt = DLT_RAW \<or> dlt = DLT_RAW_OLD \<or> dlt = DLT_IPV4 \<or> dlt = DLT_IPV6 then Some (Some data)
      else if dlt = DLT_NULL then
        (if length data < 4 then Some None else do { p \<leftarrow> slice_from data 4; Some (Some p) })
      else if dlt = DLT_LINUX_SLL then
        (if length data < 16 then Some None else do { p \<leftarrow> slice_from data 16; Some (Some p) })
      else if dlt = DLT_LINUX_SLL2 then
        (if length data < 20 then Some None else do { p \<leftarrow> slice_from data 20; Some (Some p) })
      else Some None)"

definition parse_frame :: "u8 list \<Rightarrow> int \<Rightarrow> tcp_segment option run" where
  "parse_frame data dlt = do {
     ip \<leftarrow> strip_link data dlt;
     case ip of None \<Rightarrow> Some None | Some ip \<Rightarrow> parse_ip ip
   }"

lemma parse_ip_v4: "b \<noteq> [] \<Longrightarrow> drop_bit 4 (b ! 0) = 4 \<Longrightarrow> parse_ip b = parse_ipv4 b"
  by (simp add: parse_ip_def idx_def Let_def)

lemma parse_ip_v6: "b \<noteq> [] \<Longrightarrow> drop_bit 4 (b ! 0) = 6 \<Longrightarrow> parse_ip b = parse_ipv6 b"
  by (simp add: parse_ip_def idx_def Let_def)

lemma parse_ipv6_eq:
  assumes "40 \<le> length b"
  shows "parse_ipv6 b =
     (let body_end = min (40 + unat (be_word [b ! 4, b ! 5] :: u16)) (length b)
      in walk_extensions b body_end (b ! 6) 40 \<bind>
          (\<lambda>w. case w of None \<Rightarrow> Some None
            | Some (nh, off) \<Rightarrow> if nh \<noteq> 6 then Some None
                else slice b off body_end \<bind>
                  (\<lambda>l4. parse_tcp l4 (IpV6 (be_word (take 16 (drop 8 b)))) (IpV6 (be_word (take 16 (drop 24 b)))))))"
proof -
  have i: "idx b 6 = Some (b ! 6)" and a: "idxs b [4, 5] = Some [b ! 4, b ! 5]"
    and s: "slice b 8 24 = Some (take 16 (drop 8 b))" "slice b 24 40 = Some (take 16 (drop 24 b))"
      "octets16 (take 16 (drop 8 b)) = Some (take 16 (drop 8 b))"
      "octets16 (take 16 (drop 24 b)) = Some (take 16 (drop 24 b))"
    using assms by (auto simp: idxs_def idx_def slice_def octets16_def)
  show ?thesis
    unfolding parse_ipv6_def i a s Option.bind.simps Let_def
    using assms by simp
qed

subsection \<open>No input panics\<close>

text \<open>The panic-free form of the two parsers that only read fixed positions.\<close>

lemma parse_tcp_eq:
  assumes "20 \<le> length l4"
  shows "parse_tcp l4 src dst = Some (let data_offset = unat (drop_bit 4 (l4 ! 12)) * 4 in
           if data_offset < 20 \<or> length l4 < data_offset then None
           else Some \<lparr> seg_src = src, seg_dst = dst,
             seg_src_port = be_word [l4 ! 0, l4 ! 1], seg_dst_port = be_word [l4 ! 2, l4 ! 3],
             seg_seq = be_word [l4 ! 4, l4 ! 5, l4 ! 6, l4 ! 7],
             seg_ack = be_word [l4 ! 8, l4 ! 9, l4 ! 10, l4 ! 11],
             seg_syn = (l4 ! 13 AND 2 \<noteq> 0), seg_fin = (l4 ! 13 AND 1 \<noteq> 0),
             seg_rst = (l4 ! 13 AND 4 \<noteq> 0), seg_payload = drop data_offset l4 \<rparr>)"
proof -
  have i: "idx l4 12 = Some (l4 ! 12)" "idx l4 13 = Some (l4 ! 13)"
    and a: "idxs l4 [0, 1] = Some [l4 ! 0, l4 ! 1]" "idxs l4 [2, 3] = Some [l4 ! 2, l4 ! 3]"
      "idxs l4 [4, 5, 6, 7] = Some [l4 ! 4, l4 ! 5, l4 ! 6, l4 ! 7]"
      "idxs l4 [8, 9, 10, 11] = Some [l4 ! 8, l4 ! 9, l4 ! 10, l4 ! 11]"
    using assms by (auto simp: idxs_def idx_def)
  show ?thesis
    unfolding parse_tcp_def a i Option.bind.simps Let_def
    using assms by (auto simp: run_simps)
qed

lemma parse_tcp_short: "\<not> 20 \<le> length l4 \<Longrightarrow> parse_tcp l4 src dst = Some None"
  by (simp add: parse_tcp_def)

lemma parse_tcp_total: "\<exists>r. parse_tcp l4 src dst = Some r"
  by (cases "20 \<le> length l4") (auto simp: parse_tcp_eq parse_tcp_short)

lemma parse_ipv4_eq:
  assumes "20 \<le> length b"
  shows "parse_ipv4 b =
     (let ihl = unat (b ! 0 AND 15) * 4; end = min (unat (be_word [b ! 2, b ! 3] :: u16)) (length b)
      in if ihl < 20 \<or> length b < ihl \<or> b ! 9 \<noteq> 6 \<or> end < ihl then Some None
         else parse_tcp (take (end - ihl) (drop ihl b))
           (IpV4 (be_word [b ! 12, b ! 13, b ! 14, b ! 15])) (IpV4 (be_word [b ! 16, b ! 17, b ! 18, b ! 19])))"
proof -
  have i: "idx b 0 = Some (b ! 0)" "idx b 9 = Some (b ! 9)"
    and a: "idxs b [2, 3] = Some [b ! 2, b ! 3]"
      "idxs b [12, 13, 14, 15] = Some [b ! 12, b ! 13, b ! 14, b ! 15]"
      "idxs b [16, 17, 18, 19] = Some [b ! 16, b ! 17, b ! 18, b ! 19]"
    using assms by (auto simp: idxs_def idx_def)
  show ?thesis
    unfolding parse_ipv4_def a i Option.bind.simps Let_def
    using assms by (auto simp: run_simps)
qed

lemma parse_ipv4_short: "\<not> 20 \<le> length b \<Longrightarrow> parse_ipv4 b = Some None"
  by (simp add: parse_ipv4_def)

lemma parse_ipv4_total: "\<exists>r. parse_ipv4 b = Some r"
  by (cases "20 \<le> length b") (auto simp: parse_ipv4_eq parse_ipv4_short parse_tcp_total Let_def)

lemma extension_header_len_total: "\<exists>r. extension_header_len nh ext = Some r"
  by (simp add: extension_header_len_def run_simps)

text \<open>The extension walk ends inside the packet, never before the offset it started at.\<close>

lemma walk_extensions_bounds:
  assumes "off \<le> body_end" and "body_end \<le> length b"
  shows "\<exists>r. walk_extensions b body_end nh off = Some r \<and>
           (\<forall>nh' off'. r = Some (nh', off') \<longrightarrow> off \<le> off' \<and> off' \<le> body_end)"
  using assms
proof (induction b body_end nh off rule: walk_extensions.induct)
  case (1 b body_end nh off)
  show ?case
  proof (cases "is_extension_header nh \<and> off + 8 \<le> body_end")
    case True
    obtain r where r: "extension_header_len nh (take (body_end - off) (drop off b)) = Some r"
      using extension_header_len_total by blast
    have i: "idx b off = Some (b ! off)"
      and s: "slice b off body_end = Some (take (body_end - off) (drop off b))"
      using True "1.prems" by (simp_all add: run_simps)
    show ?thesis
    proof (cases r)
      case None
      with True i s r show ?thesis by (subst walk_extensions.simps) simp
    next
      case (Some n)
      show ?thesis
      proof (cases "off + n > body_end")
        case True
        with \<open>is_extension_header nh \<and> off + 8 \<le> body_end\<close> i s r Some show ?thesis
          by (subst walk_extensions.simps) simp
      next
        case False
        then have "\<exists>q. walk_extensions b body_end (b ! off) (off + n) = Some q \<and>
            (\<forall>nh' off'. q = Some (nh', off') \<longrightarrow> off + n \<le> off' \<and> off' \<le> body_end)"
          using "1.IH" True i s r Some "1.prems" by simp
        moreover have "walk_extensions b body_end nh off = walk_extensions b body_end (b ! off) (off + n)"
          using True False i s r Some by (subst walk_extensions.simps) simp
        ultimately show ?thesis by force
      qed
    qed
  next
    case False
    with "1.prems" show ?thesis by (subst walk_extensions.simps) auto
  qed
qed

lemma parse_ipv6_total: "\<exists>r. parse_ipv6 b = Some r"
proof (cases "40 \<le> length b")
  case False
  then show ?thesis by (simp add: parse_ipv6_def)
next
  case True
  define be where "be = min (40 + unat (be_word [b ! 4, b ! 5] :: u16)) (length b)"
  have be: "40 \<le> be" "be \<le> length b" using True by (auto simp: be_def)
  obtain r where r: "walk_extensions b be (b ! 6) 40 = Some r"
    and rb: "\<forall>nh' off'. r = Some (nh', off') \<longrightarrow> 40 \<le> off' \<and> off' \<le> be"
    using walk_extensions_bounds [OF be] by blast
  have "parse_ipv6 b = (case r of None \<Rightarrow> Some None
      | Some (nh, off) \<Rightarrow> if nh \<noteq> 6 then Some None
          else slice b off be \<bind> (\<lambda>l4. parse_tcp l4 (IpV6 (be_word (take 16 (drop 8 b))))
            (IpV6 (be_word (take 16 (drop 24 b))))))"
    unfolding parse_ipv6_eq [OF True] Let_def be_def [symmetric] r by simp
  then show ?thesis
    using rb be by (auto simp: run_simps parse_tcp_total split: option.splits)
qed

lemma parse_ip_total: "\<exists>r. parse_ip b = Some r"
  by (simp add: parse_ip_def run_simps Let_def parse_ipv4_total parse_ipv6_total)

lemma skip_vlan_total: "\<exists>e p. skip_vlan ethertype payload = Some (e, p)"
proof (induction ethertype payload rule: skip_vlan.induct)
  case (1 ethertype payload)
  have "4 \<le> length payload \<Longrightarrow> idxs payload [0, 1] = Some [payload ! 0, payload ! 1]"
    by (auto simp: idxs_def idx_def)
  with 1 show ?case
    by (subst skip_vlan.simps) (auto simp: run_simps)
qed

lemma strip_link_total: "\<exists>r. strip_link data dlt = Some r"
proof -
  obtain e p where "skip_vlan (be_word (map ((!) data) [12, 13])) (drop 14 data) = Some (e, p)"
    using skip_vlan_total by blast
  then show ?thesis
    by (auto simp: strip_link_def run_simps)
qed

lemma parse_frame_total: "\<exists>r. parse_frame data dlt = Some r"
proof -
  obtain r where "strip_link data dlt = Some r" using strip_link_total by blast
  then show ?thesis
    by (cases r) (simp_all add: parse_frame_def parse_ip_total)
qed

text \<open>C8. \<open>parse_frame\<close> never panics: for every captured byte string and every datalink number it
  returns, with a segment or with \<open>None\<close>; no index or slice in \<open>net.rs\<close> is out of range.
\<close>

theorem parse_frame_never_panics: "\<exists>r. parse_frame data dlt = Some r"
  by (rule parse_frame_total)

end
