(* ===== verification/State.thy ===== *)
theory State
  imports Net "HOL-Library.Multiset"
begin

text \<open>
  \<open>src/state.rs\<close>: connection and traffic metrics. The four counters of \<open>Totals\<close>,
  \<open>RateSample\<close> and of every \<open>ConnStats\<close> are one value of type \<open>traffic\<close>, a commutative
  monoid under component-wise wrapping addition. A \<open>ConnStats\<close> is shared between the
  registry and the traffic source that counts into it, so all of them live in \<open>heap\<close>, and an
  \<open>Arc\<close> is a position of that list; eviction drops the registry's reference only. The
  registry's \<open>HashMap\<close> is an association list with distinct keys. A method is a function of
  the state; the counters' \<open>fetch_add\<close>s are separate steps (\<open>fetch_add\<close>), so that the
  interleaving of concurrent calls can be stated.
\<close>

subsection \<open>Counters\<close>

type_synonym socket_addr = "ip_addr \<times> u16"
type_synonym conn_id = u64
type_synonym conn_ref = nat

definition DEFAULT_CONNECTION_CAP :: nat where "DEFAULT_CONNECTION_CAP = 10000"
definition DEFAULT_RATE_HISTORY :: nat where "DEFAULT_RATE_HISTORY = 60"

datatype traffic_direction = In | Out

datatype connection_lifecycle = Open nat | Closed nat nat

datatype traffic = Traffic (t_msgs_in: u64) (t_msgs_out: u64) (t_bytes_in: u64) (t_bytes_out: u64)

instantiation traffic :: comm_monoid_add
begin

definition zero_traffic :: traffic where
  "zero_traffic = Traffic 0 0 0 0"

definition plus_traffic :: "traffic \<Rightarrow> traffic \<Rightarrow> traffic" where
  "plus_traffic a b = Traffic (t_msgs_in a + t_msgs_in b) (t_msgs_out a + t_msgs_out b)
     (t_bytes_in a + t_bytes_in b) (t_bytes_out a + t_bytes_out b)"

instance
  by standard (simp_all add: zero_traffic_def plus_traffic_def add_ac)

end

lemma traffic_simps [simp]:
  "Traffic a b c d + Traffic a' b' c' d' = Traffic (a + a') (b + b') (c + c') (d + d')"
  "t_msgs_in (x + y) = t_msgs_in x + t_msgs_in y" "t_msgs_out (x + y) = t_msgs_out x + t_msgs_out y"
  "t_bytes_in (x + y) = t_bytes_in x + t_bytes_in y" "t_bytes_out (x + y) = t_bytes_out x + t_bytes_out y"
  "t_msgs_in 0 = 0" "t_msgs_out 0 = 0" "t_bytes_in 0 = 0" "t_bytes_out 0 = 0"
  by (simp_all add: plus_traffic_def zero_traffic_def)

datatype counter = MsgsIn | MsgsOut | BytesIn | BytesOut

fun traffic_at :: "counter \<Rightarrow> u64 \<Rightarrow> traffic" where
  "traffic_at MsgsIn n = Traffic n 0 0 0"
| "traffic_at MsgsOut n = Traffic 0 n 0 0"
| "traffic_at BytesIn n = Traffic 0 0 n 0"
| "traffic_at BytesOut n = Traffic 0 0 0 n"

definition sat_sub :: "u64 \<Rightarrow> u64 \<Rightarrow> u64" where
  "sat_sub a b = (if b \<le> a then a - b else 0)"

subsection \<open>The state\<close>

record conn_stats =
  cs_id :: conn_id
  cs_client :: socket_addr
  cs_server :: socket_addr
  cs_lifecycle :: connection_lifecycle
  cs_encrypted :: bool
  cs_traffic :: traffic

record metrics =
  conns_opened :: u64
  conns_live :: u64
  next_conn_id :: u64
  m_totals :: traffic
  heap :: "conn_stats list"
  entries :: "(conn_id \<times> conn_ref) list"
  closed_ids :: "conn_id list"
  previous :: traffic
  samples :: "traffic list"
  connection_cap :: nat
  rate_history :: nat

definition with_limits :: "nat \<Rightarrow> nat \<Rightarrow> metrics" where
  "with_limits cap hist =
     \<lparr> conns_opened = 0, conns_live = 0, next_conn_id = 1, m_totals = 0, heap = [], entries = [],
       closed_ids = [], previous = 0, samples = [], connection_cap = cap, rate_history = hist \<rparr>"

definition new_metrics :: metrics where
  "new_metrics = with_limits DEFAULT_CONNECTION_CAP DEFAULT_RATE_HISTORY"

subsection \<open>The operations\<close>

definition open_connection ::
    "nat \<Rightarrow> socket_addr \<Rightarrow> socket_addr \<Rightarrow> bool \<Rightarrow> metrics \<Rightarrow> conn_ref \<times> metrics" where
  "open_connection now client server encrypted m =
     (let id = next_conn_id m; ref = length (heap m);
          stats = \<lparr> cs_id = id, cs_client = client, cs_server = server, cs_lifecycle = Open now,
                    cs_encrypted = encrypted, cs_traffic = 0 \<rparr>
      in (ref, m\<lparr> next_conn_id := next_conn_id m + 1, heap := heap m @ [stats],
                  entries := AList.update id ref (entries m),
                  conns_opened := conns_opened m + 1, conns_live := conns_live m + 1 \<rparr>))"

datatype target = Aggregate | Conn conn_ref

fun fetch_add :: "target \<times> counter \<times> u64 \<Rightarrow> metrics \<Rightarrow> metrics" where
  "fetch_add (Aggregate, c, n) m = m\<lparr> m_totals := m_totals m + traffic_at c n \<rparr>"
| "fetch_add (Conn r, c, n) m =
     m\<lparr> heap := (heap m)[r := (heap m ! r)\<lparr> cs_traffic := cs_traffic (heap m ! r) + traffic_at c n \<rparr>] \<rparr>"

fun record_adds :: "conn_ref \<Rightarrow> traffic_direction \<Rightarrow> u64 \<Rightarrow> u64 \<Rightarrow> (target \<times> counter \<times> u64) list" where
  "record_adds conn In n bytes =
     [(Aggregate, MsgsIn, n), (Aggregate, BytesIn, bytes), (Conn conn, MsgsIn, n), (Conn conn, BytesIn, bytes)]"
| "record_adds conn Out n bytes =
     [(Aggregate, MsgsOut, n), (Aggregate, BytesOut, bytes), (Conn conn, MsgsOut, n), (Conn conn, BytesOut, bytes)]"

definition record_messages ::
    "conn_ref \<Rightarrow> traffic_direction \<Rightarrow> u64 \<Rightarrow> u64 \<Rightarrow> metrics \<Rightarrow> metrics" where
  "record_messages conn direction n bytes m = fold fetch_add (record_adds conn direction n bytes) m"

definition set_encrypted :: "conn_ref \<Rightarrow> bool \<Rightarrow> metrics \<Rightarrow> metrics" where
  "set_encrypted conn encrypted m =
     m\<lparr> heap := (heap m)[conn := (heap m ! conn)\<lparr> cs_encrypted := encrypted \<rparr>] \<rparr>"

fun evict :: "nat \<Rightarrow> (conn_id \<times> conn_ref) list \<Rightarrow> conn_id list \<Rightarrow> (conn_id \<times> conn_ref) list \<times> conn_id list" where
  "evict cap ents [] = (ents, [])"
| "evict cap ents (i # closed) =
     (if cap < length ents then evict cap (AList.delete i ents) closed else (ents, i # closed))"

definition close_connection :: "nat \<Rightarrow> conn_ref \<Rightarrow> metrics \<Rightarrow> metrics" where
  "close_connection now conn m =
     (case cs_lifecycle (heap m ! conn) of
        Closed _ _ \<Rightarrow> m
      | Open since \<Rightarrow>
          (let m1 = m\<lparr> heap := (heap m)[conn := (heap m ! conn)\<lparr> cs_lifecycle := Closed since now \<rparr>],
                       conns_live := conns_live m - 1 \<rparr>;
               (ents, closed) = evict (connection_cap m1) (entries m1) (closed_ids m1 @ [cs_id (heap m1 ! conn)])
           in m1\<lparr> entries := ents, closed_ids := closed \<rparr>))"

fun trim_front :: "nat \<Rightarrow> 'a list \<Rightarrow> 'a list" where
  "trim_front n [] = []"
| "trim_front n (x # xs) = (if n < length (x # xs) then trim_front n xs else x # xs)"

definition push_sample :: "nat \<Rightarrow> traffic \<Rightarrow> traffic list \<Rightarrow> traffic list" where
  "push_sample n sample xs = (if n \<noteq> 0 then trim_front n (xs @ [sample]) else xs)"

definition sample_rates :: "metrics \<Rightarrow> traffic \<times> metrics" where
  "sample_rates m =
     (let t = m_totals m; p = previous m;
          sample = Traffic (sat_sub (t_msgs_in t) (t_msgs_in p)) (sat_sub (t_msgs_out t) (t_msgs_out p))
                     (sat_sub (t_bytes_in t) (t_bytes_in p)) (sat_sub (t_bytes_out t) (t_bytes_out p));
          m1 = m\<lparr> previous := t \<rparr>
      in (sample, m1\<lparr> samples := push_sample (rate_history m1) sample (samples m1) \<rparr>))"

text \<open>The sampler thread: \<open>recv_timeout\<close> either times out (a tick) or the guard was dropped.\<close>

datatype recv_result = Timeout | Stopped

fun rate_sampler_loop :: "recv_result list \<Rightarrow> metrics \<Rightarrow> metrics" where
  "rate_sampler_loop [] m = m"
| "rate_sampler_loop (Timeout # rs) m = rate_sampler_loop rs (snd (sample_rates m))"
| "rate_sampler_loop (Stopped # rs) m = m"

definition spawn_rate_sampler :: "recv_result list \<Rightarrow> metrics \<Rightarrow> metrics" where
  "spawn_rate_sampler rs m = (if rate_history m = 0 then m else rate_sampler_loop rs m)"

record metrics_summary =
  sum_conns_opened :: u64
  sum_conns_live :: u64
  sum_traffic :: traffic
  sum_rates :: "traffic list"

definition summary :: "metrics \<Rightarrow> metrics_summary" where
  "summary m = \<lparr> sum_conns_opened = conns_opened m, sum_conns_live = conns_live m,
     sum_traffic = m_totals m, sum_rates = samples m \<rparr>"

record metrics_snapshot =
  snap_summary :: metrics_summary
  snap_connections :: "conn_stats list"

definition snapshot :: "metrics \<Rightarrow> metrics_snapshot" where
  "snapshot m = \<lparr> snap_summary = summary m,
     snap_connections = sort_key cs_id (map (\<lambda>(i, r). heap m ! r) (entries m)) \<rparr>"

subsection \<open>What the registry keeps\<close>

text \<open>Identifiers number the connections from one in order of opening and are never reused;
  the retained connections are all the open ones and those of the closed queue; the aggregate
  counters are the sums over all the connections ever opened.\<close>

definition is_open :: "conn_stats \<Rightarrow> bool" where
  "is_open c = (case cs_lifecycle c of Open _ \<Rightarrow> True | Closed _ _ \<Rightarrow> False)"

definition ID_SPACE :: nat where "ID_SPACE = 2 ^ 64"

definition id_of :: "conn_ref \<Rightarrow> conn_id" where "id_of r = of_nat (Suc r)"
definition ref_of :: "conn_id \<Rightarrow> conn_ref" where "ref_of i = unat i - 1"

definition entry :: "conn_ref \<Rightarrow> conn_id \<times> conn_ref" where "entry r = (id_of r, r)"

definition registry_ok :: "conn_stats list \<Rightarrow> (conn_id \<times> conn_ref) list \<Rightarrow> conn_id list \<Rightarrow> bool" where
  "registry_ok h ents closed \<longleftrightarrow>
     (let rs = map snd ents; cs = map ref_of closed in
      Suc (length h) < ID_SPACE
      \<and> (\<forall>r < length h. cs_id (h ! r) = id_of r)
      \<and> ents = map entry rs \<and> distinct rs \<and> (\<forall>r \<in> set rs. r < length h)
      \<and> closed = map id_of cs \<and> distinct cs
      \<and> set cs = set (filter (\<lambda>r. \<not> is_open (h ! r)) rs)
      \<and> (\<forall>r < length h. is_open (h ! r) \<longrightarrow> r \<in> set rs))"

definition metrics_inv :: "metrics \<Rightarrow> bool" where
  "metrics_inv m \<longleftrightarrow> registry_ok (heap m) (entries m) (closed_ids m)
     \<and> next_conn_id m = id_of (length (heap m))
     \<and> conns_opened m = of_nat (length (heap m))
     \<and> conns_live m = of_nat (length (filter is_open (heap m)))
     \<and> m_totals m = sum_list (map cs_traffic (heap m))
     \<and> length (samples m) \<le> rate_history m"

lemma ref_of_id_of [simp]: "Suc r < ID_SPACE \<Longrightarrow> ref_of (id_of r) = r"
  unfolding id_of_def ref_of_def ID_SPACE_def by (simp only: unat_of_nat) simp

lemma id_of_inj: "id_of r = id_of r' \<Longrightarrow> Suc r < ID_SPACE \<Longrightarrow> Suc r' < ID_SPACE \<Longrightarrow> r = r'"
  by (metis ref_of_id_of)

lemma Suc_less_ID: "Suc n < ID_SPACE \<Longrightarrow> r < n \<Longrightarrow> Suc r < ID_SPACE"
  by simp

lemma is_open_simps [simp]:
  "is_open (c\<lparr> cs_traffic := t \<rparr>) = is_open c" "is_open (c\<lparr> cs_encrypted := b \<rparr>) = is_open c"
  "\<not> is_open (c\<lparr> cs_lifecycle := Closed s e \<rparr>)"
  by (simp_all add: is_open_def)

lemma id_of_Suc: "id_of (Suc r) = id_of r + 1"
  by (simp add: id_of_def)

lemma snd_entry [simp]: "snd \<circ> entry = (\<lambda>r. r)" "snd (entry r) = r" "fst (entry r) = id_of r"
  by (auto simp: entry_def)

text \<open>The two views of the registry: the references behind its entries and its queue.\<close>

lemma registry_okI:
  assumes "Suc (length h) < ID_SPACE" "\<And>r. r < length h \<Longrightarrow> cs_id (h ! r) = id_of r"
    and "distinct rs" "\<And>r. r \<in> set rs \<Longrightarrow> r < length h"
    and "distinct cs" "set cs = set (filter (\<lambda>r. \<not> is_open (h ! r)) rs)"
    and "\<And>r. r < length h \<Longrightarrow> is_open (h ! r) \<Longrightarrow> r \<in> set rs"
  shows "registry_ok h (map entry rs) (map id_of cs)"
proof -
  have "ref_of (id_of r) = r" if "r \<in> set cs" for r
    using that assms(4) [of r] assms(1,6) by simp
  then have "map ref_of (map id_of cs) = cs"
    by (simp add: map_idI)
  then show ?thesis
    using assms unfolding registry_ok_def Let_def by (simp add: comp_def)
qed

lemma registry_okE:
  assumes "registry_ok h ents closed"
  obtains rs cs where "ents = map entry rs" "closed = map id_of cs"
    "Suc (length h) < ID_SPACE" "\<forall>r < length h. cs_id (h ! r) = id_of r"
    "distinct rs" "\<forall>r \<in> set rs. r < length h"
    "distinct cs" "set cs = set (filter (\<lambda>r. \<not> is_open (h ! r)) rs)"
    "\<forall>r < length h. is_open (h ! r) \<longrightarrow> r \<in> set rs"
  using assms unfolding registry_ok_def Let_def by metis

lemma registry_cong:
  assumes "registry_ok h ents closed" "length h' = length h"
    and "\<And>r. r < length h \<Longrightarrow> cs_id (h' ! r) = cs_id (h ! r) \<and> is_open (h' ! r) = is_open (h ! r)"
  shows "registry_ok h' ents closed"
  using assms(1)
proof (rule registry_okE)
  fix rs cs
  assume "ents = map entry rs" "closed = map id_of cs"
    and "Suc (length h) < ID_SPACE" "\<forall>r < length h. cs_id (h ! r) = id_of r"
      "distinct rs" "\<forall>r \<in> set rs. r < length h"
      "distinct cs" "set cs = set (filter (\<lambda>r. \<not> is_open (h ! r)) rs)"
      "\<forall>r < length h. is_open (h ! r) \<longrightarrow> r \<in> set rs"
  then show ?thesis using assms(2,3) by (auto intro!: registry_okI)
qed

lemma filter_open_update:
  assumes "r < length h" "is_open c = is_open (h ! r)"
  shows "length (filter is_open (h[r := c])) = length (filter is_open h)"
  using assms by (induction h arbitrary: r) (auto simp: nth_Cons' split: nat.splits)

lemma filter_open_close:
  assumes "r < length h" "is_open (h ! r)" "\<not> is_open c"
  shows "length (filter is_open h) = Suc (length (filter is_open (h[r := c])))"
  using assms by (induction h arbitrary: r) (auto simp: nth_Cons' split: nat.splits)

lemma sum_list_add_at:
  "r < length xs \<Longrightarrow>
     sum_list ((map f xs)[r := f (xs ! r) + a]) = sum_list (map f xs) + (a :: 'a::comm_monoid_add)"
  by (induction xs arbitrary: r) (auto simp: nth_Cons' ac_simps split: nat.splits)

lemma update_fresh: "i \<notin> fst ` set al \<Longrightarrow> AList.update i v al = al @ [(i, v)]"
  by (induction al) auto

subsection \<open>Each operation on the registry\<close>

lemma with_limits_inv [simp]: "metrics_inv (with_limits cap hist)"
  using registry_okI [of "[]" "[]" "[]"]
  by (simp add: metrics_inv_def with_limits_def ID_SPACE_def id_of_def)

definition open_refs :: "metrics \<Rightarrow> conn_ref set" where
  "open_refs m = {r. r < length (heap m) \<and> is_open (heap m ! r)}"

definition room :: "metrics \<Rightarrow> bool" where
  "room m \<longleftrightarrow> Suc (Suc (length (heap m))) < ID_SPACE"

lemma fresh_id:
  assumes "registry_ok h ents closed" "Suc (Suc (length h)) < ID_SPACE"
  shows "id_of (length h) \<notin> fst ` set ents"
  using assms(1)
proof (rule registry_okE)
  fix rs cs
  assume e: "ents = map entry rs" and r: "\<forall>r \<in> set rs. r < length h"
  have "id_of r \<noteq> id_of (length h)" if "r \<in> set rs" for r
    using that r assms(2) id_of_inj [of r "length h"] by fastforce
  then show ?thesis
    unfolding e set_map image_image snd_entry by (metis imageE)
qed

lemma open_registry:
  assumes "registry_ok h ents closed" "Suc (Suc (length h)) < ID_SPACE"
    and "cs_id c = id_of (length h)" "is_open c"
  shows "registry_ok (h @ [c]) (AList.update (id_of (length h)) (length h) ents) closed"
  using assms(1)
proof (rule registry_okE)
  fix rs cs
  assume e: "ents = map entry rs" "closed = map id_of cs"
    and h: "\<forall>r < length h. cs_id (h ! r) = id_of r"
    and r: "distinct rs" "\<forall>r \<in> set rs. r < length h"
    and c: "distinct cs" "set cs = set (filter (\<lambda>r. \<not> is_open (h ! r)) rs)"
    and o: "\<forall>r < length h. is_open (h ! r) \<longrightarrow> r \<in> set rs"
  have "id_of (length h) \<notin> fst ` set ents"
    using fresh_id [OF assms(1,2)] .
  then have "AList.update (id_of (length h)) (length h) ents = map entry (rs @ [length h])"
    by (simp add: update_fresh e entry_def)
  moreover have "registry_ok (h @ [c]) (map entry (rs @ [length h])) (map id_of cs)"
    using assms(2-4) h r c o by (intro registry_okI) (auto simp: nth_append less_Suc_eq)
  ultimately show ?thesis by (simp add: e)
qed

lemma open_connection_inv:
  assumes "metrics_inv m" "room m"
  shows "metrics_inv (snd (open_connection now cl sv enc m))"
proof -
  have "registry_ok (heap m @ [c]) (AList.update (id_of (length (heap m))) (length (heap m)) (entries m)) (closed_ids m)"
    if "cs_id c = id_of (length (heap m))" "is_open c" for c
    using assms that by (intro open_registry) (simp_all add: metrics_inv_def room_def)
  then show ?thesis using assms
    by (simp add: metrics_inv_def open_connection_def Let_def is_open_def id_of_Suc)
qed

fun amount :: "traffic_direction \<Rightarrow> u64 \<Rightarrow> u64 \<Rightarrow> traffic" where
  "amount In n bytes = Traffic n 0 bytes 0"
| "amount Out n bytes = Traffic 0 n 0 bytes"

lemma record_messages_eq:
  assumes "r < length (heap m)"
  shows "record_messages r d n b m =
    m\<lparr> m_totals := m_totals m + amount d n b,
      heap := (heap m)[r := (heap m ! r)\<lparr> cs_traffic := cs_traffic (heap m ! r) + amount d n b \<rparr>] \<rparr>"
  using assms by (cases d) (simp_all add: record_messages_def plus_traffic_def)

lemma record_messages_inv:
  assumes "metrics_inv m" "r < length (heap m)"
  shows "metrics_inv (record_messages r d n b m)"
proof -
  let ?h = "(heap m)[r := (heap m ! r)\<lparr> cs_traffic := cs_traffic (heap m ! r) + amount d n b \<rparr>]"
  have "registry_ok ?h (entries m) (closed_ids m)"
    using assms by (auto simp: metrics_inv_def nth_list_update intro!: registry_cong [of "heap m"] split: if_splits)
  moreover have "length (filter is_open ?h) = length (filter is_open (heap m))"
    using assms(2) by (simp add: filter_open_update)
  moreover have "map cs_traffic ?h = (map cs_traffic (heap m))[r := cs_traffic (heap m ! r) + amount d n b]"
    using assms(2) by (simp add: map_update)
  ultimately show ?thesis
    using assms by (simp add: metrics_inv_def record_messages_eq sum_list_add_at)
qed

lemma set_encrypted_inv:
  assumes "metrics_inv m" "r < length (heap m)"
  shows "metrics_inv (set_encrypted r b m)"
proof -
  let ?h = "(heap m)[r := (heap m ! r)\<lparr> cs_encrypted := b \<rparr>]"
  have "registry_ok ?h (entries m) (closed_ids m)"
    using assms by (auto simp: metrics_inv_def nth_list_update intro!: registry_cong [of "heap m"] split: if_splits)
  moreover have "length (filter is_open ?h) = length (filter is_open (heap m))"
    using assms(2) by (simp add: filter_open_update)
  moreover have "map cs_traffic ?h = map cs_traffic (heap m)"
    using assms(2) by (simp add: map_update list_update_same_conv)
  ultimately show ?thesis
    using assms by (simp add: metrics_inv_def set_encrypted_def)
qed

text \<open>Eviction removes the entries of the oldest closed connections, as many as needed to be within
  the capacity and no more than there are.\<close>

lemma delete_entry:
  assumes "\<forall>r \<in> set (c # rs). Suc r < ID_SPACE"
  shows "AList.delete (id_of c) (map entry rs) = map entry (filter (\<lambda>r. r \<noteq> c) rs)"
  using assms by (induction rs) (auto simp: entry_def AList.delete_eq dest: id_of_inj)

lemma evict_entries:
  assumes "distinct rs" "distinct cs" "set cs \<subseteq> set rs" "\<forall>r \<in> set rs. Suc r < ID_SPACE"
  shows "evict cap (map entry rs) (map id_of cs) =
    (map entry (filter (\<lambda>r. r \<notin> set (take (length rs - cap) cs)) rs),
     map id_of (drop (length rs - cap) cs))"
  using assms
proof (induction cs arbitrary: rs)
  case Nil
  then show ?case by simp
next
  case (Cons c cs)
  let ?rs = "filter (\<lambda>r. r \<noteq> c) rs"
  have rs: "?rs = removeAll c rs" by (simp add: removeAll_filter_not_eq eq_commute)
  have n: "length ?rs = length rs - 1"
    unfolding rs
    using Cons.prems by (simp add: distinct_remove1_removeAll [symmetric] length_remove1)
  show ?case
  proof (cases "cap < length rs")
    case True
    then have k: "length rs - cap = Suc (length ?rs - cap)" using n by simp
    have "evict cap (map entry rs) (map id_of (c # cs)) = evict cap (map entry ?rs) (map id_of cs)"
      using True Cons.prems by (simp add: delete_entry)
    also have "\<dots> = (map entry (filter (\<lambda>r. r \<notin> set (take (length ?rs - cap) cs)) ?rs),
        map id_of (drop (length ?rs - cap) cs))"
      using Cons.prems by (intro Cons.IH) auto
    also have "filter (\<lambda>r. r \<notin> set (take (length ?rs - cap) cs)) ?rs =
        filter (\<lambda>r. r \<notin> set (take (length rs - cap) (c # cs))) rs"
      unfolding k filter_filter by (rule filter_cong) auto
    also have "drop (length ?rs - cap) cs = drop (length rs - cap) (c # cs)"
      unfolding k by simp
    finally show ?thesis .
  qed simp
qed

lemma evict_registry:
  fixes cap :: nat
  assumes "registry_ok h ents closed"
  defines "k \<equiv> length ents - cap"
  shows "evict cap ents closed = (filter (\<lambda>e. fst e \<notin> set (take k closed)) ents, drop k closed)"
    and "registry_ok h (filter (\<lambda>e. fst e \<notin> set (take k closed)) ents) (drop k closed)"
proof -
  obtain rs cs where e: "ents = map entry rs" "closed = map id_of cs"
    and len: "Suc (length h) < ID_SPACE"
    and h: "\<forall>r < length h. cs_id (h ! r) = id_of r"
    and r: "distinct rs" "\<forall>r \<in> set rs. r < length h"
    and c: "distinct cs" "set cs = set (filter (\<lambda>r. \<not> is_open (h ! r)) rs)"
    and o: "\<forall>r < length h. is_open (h ! r) \<longrightarrow> r \<in> set rs"
    using assms(1) by (rule registry_okE)
  have id: "Suc r < ID_SPACE" if "r \<in> set rs" for r
    using that r(2) len by auto
  have sub: "set (take k cs) \<subseteq> set rs" using c(2) set_take_subset [of k cs] by auto
  have inj: "inj_on id_of (set rs)"
    by (rule inj_onI) (metis id id_of_inj)
  have "id_of r \<in> set (take k closed) \<longleftrightarrow> r \<in> set (take k cs)" if "r \<in> set rs" for r
    using inj_on_image_mem_iff [OF inj that sub] by (simp add: e take_map)
  then have f: "filter (\<lambda>e. fst e \<notin> set (take k closed)) ents =
      map entry (filter (\<lambda>r. r \<notin> set (take k cs)) rs)"
    by (simp add: e(1) filter_map comp_def cong: filter_cong)
  show "evict cap ents closed = (filter (\<lambda>e. fst e \<notin> set (take k closed)) ents, drop k closed)"
    using evict_entries [OF r(1) c(1)] c(2) id unfolding f by (simp add: e k_def drop_map)
  have split: "set cs = set (take k cs) \<union> set (drop k cs)"
    by (metis append_take_drop_id set_append)
  have disj: "set (take k cs) \<inter> set (drop k cs) = {}"
    using c(1) by (simp add: set_take_disj_set_drop_if_distinct)
  let ?rs = "filter (\<lambda>r. r \<notin> set (take k cs)) rs"
  have "set (drop k cs) = set (filter (\<lambda>r. \<not> is_open (h ! r)) ?rs)"
    using c(2) split disj by auto
  moreover have "r \<in> set ?rs" if "r < length h" "is_open (h ! r)" for r
    using that o c(2) split by auto
  ultimately have "registry_ok h (map entry ?rs) (map id_of (drop k cs))"
    using len h r c(1) by (intro registry_okI) auto
  then show "registry_ok h (filter (\<lambda>e. fst e \<notin> set (take k closed)) ents) (drop k closed)"
    unfolding f by (simp add: e drop_map)
qed

lemma close_registry:
  assumes "registry_ok h ents closed" and r: "r < length h" "is_open (h ! r)"
  shows "registry_ok (h[r := (h ! r)\<lparr> cs_lifecycle := Closed since now \<rparr>]) ents (closed @ [id_of r])"
  using assms(1)
proof (rule registry_okE)
  fix rs cs
  assume e: "ents = map entry rs" "closed = map id_of cs"
    and h: "Suc (length h) < ID_SPACE" "\<forall>r < length h. cs_id (h ! r) = id_of r"
      "distinct rs" "\<forall>r \<in> set rs. r < length h"
      "distinct cs" "set cs = set (filter (\<lambda>r. \<not> is_open (h ! r)) rs)"
      "\<forall>r < length h. is_open (h ! r) \<longrightarrow> r \<in> set rs"
  let ?h = "h[r := (h ! r)\<lparr> cs_lifecycle := Closed since now \<rparr>]"
  have open_iff: "is_open (?h ! q) \<longleftrightarrow> q \<noteq> r \<and> is_open (h ! q)" if "q < length h" for q
    using that r by (auto simp: nth_list_update)
  have "cs_id (?h ! q) = id_of q" if "q < length h" for q
    using that h(2) r(1) by (simp add: nth_list_update)
  moreover have "set (cs @ [r]) = set (filter (\<lambda>r. \<not> is_open (?h ! r)) rs)"
    using h(4,6,7) r open_iff by auto
  moreover have "q \<in> set rs" if "q < length ?h" "is_open (?h ! q)" for q
    using that h(7) open_iff by simp
  ultimately have "registry_ok ?h (map entry rs) (map id_of (cs @ [r]))"
    using h(1,3-6) r by (intro registry_okI) auto
  then show ?thesis by (simp add: e)
qed

lemma registry_length:
  assumes "registry_ok h ents closed"
  shows "length ents = length (filter is_open h) + length closed"
  using assms
proof (rule registry_okE)
  fix rs cs
  assume e: "ents = map entry rs" "closed = map id_of cs"
    and h: "distinct rs" "\<forall>r \<in> set rs. r < length h"
      "distinct cs" "set cs = set (filter (\<lambda>r. \<not> is_open (h ! r)) rs)"
      "\<forall>r < length h. is_open (h ! r) \<longrightarrow> r \<in> set rs"
  have "{r. r < length h \<and> is_open (h ! r)} = set (filter (\<lambda>r. is_open (h ! r)) rs)"
    using h(2,5) by auto
  then have "length (filter is_open h) = length (filter (\<lambda>r. is_open (h ! r)) rs)"
    using h(1) by (simp only: length_filter_conv_card distinct_card distinct_filter)
  moreover have "length cs = length (filter (\<lambda>r. \<not> is_open (h ! r)) rs)"
    using h(1,3,4) by (metis distinct_card distinct_filter)
  ultimately show ?thesis
    using sum_length_filter_compl [of "\<lambda>r. is_open (h ! r)" rs] by (simp add: e)
qed

text \<open>Closing an open connection: the new closed entry joins the queue, then the oldest closed
  entries leave, those and no others that the capacity requires.\<close>

definition after_close :: "nat \<Rightarrow> nat \<Rightarrow> conn_ref \<Rightarrow> metrics \<Rightarrow> metrics" where
  "after_close since now r m =
     (let closed = closed_ids m @ [id_of r]; k = length (entries m) - connection_cap m
      in m\<lparr> heap := (heap m)[r := (heap m ! r)\<lparr> cs_lifecycle := Closed since now \<rparr>],
            conns_live := conns_live m - 1,
            entries := filter (\<lambda>e. fst e \<notin> set (take k closed)) (entries m),
            closed_ids := drop k closed \<rparr>)"

lemma close_connection_open:
  assumes "metrics_inv m" "r < length (heap m)" "cs_lifecycle (heap m ! r) = Open since"
  shows "close_connection now r m = after_close since now r m"
    and "metrics_inv (after_close since now r m)"
proof -
  let ?h = "(heap m)[r := (heap m ! r)\<lparr> cs_lifecycle := Closed since now \<rparr>]"
  let ?k = "length (entries m) - connection_cap m"
  have o: "is_open (heap m ! r)" using assms(3) by (simp add: is_open_def)
  have ok: "registry_ok (heap m) (entries m) (closed_ids m)"
    using assms(1) by (simp add: metrics_inv_def)
  then have id: "cs_id (heap m ! r) = id_of r"
    using assms(2) by (auto elim: registry_okE)
  have ok': "registry_ok ?h (entries m) (closed_ids m @ [id_of r])"
    using close_registry [OF ok assms(2) o] .
  show "close_connection now r m = after_close since now r m"
    using assms(2,3) evict_registry(1) [OF ok', of "connection_cap m"]
    by (simp add: close_connection_def after_close_def id Let_def)
  have "length (filter is_open (heap m)) = Suc (length (filter is_open ?h))"
    using filter_open_close [OF assms(2) o] by simp
  moreover have "map cs_traffic ?h = map cs_traffic (heap m)"
    using assms(2) by (simp add: map_update list_update_same_conv)
  ultimately show "metrics_inv (after_close since now r m)"
    using assms(1) evict_registry(2) [OF ok', of "connection_cap m"]
    by (simp add: metrics_inv_def after_close_def Let_def)
qed

lemma close_connection_closed:
  "\<not> is_open (heap m ! r) \<Longrightarrow> close_connection now r m = m"
  by (auto simp: is_open_def close_connection_def split: connection_lifecycle.splits)

lemma close_connection_inv:
  assumes "metrics_inv m" "r < length (heap m)"
  shows "metrics_inv (close_connection now r m)"
proof (cases "cs_lifecycle (heap m ! r)")
  case (Open since)
  then show ?thesis using close_connection_open [OF assms] by simp
next
  case (Closed since ended)
  then show ?thesis using assms by (simp add: close_connection_closed is_open_def)
qed

lemma trim_front_lastn: "trim_front n xs = lastn n xs"
  by (induction xs) (auto simp: lastn_def Suc_diff_le not_less)

interpretation sample_ring: bounded_history "push_sample n" "\<lambda>q. q" n for n
  by unfold_locales (auto simp: push_sample_def trim_front_lastn)

lemma sample_rates_inv: "metrics_inv m \<Longrightarrow> metrics_inv (snd (sample_rates m))"
  by (simp add: metrics_inv_def sample_rates_def Let_def sample_ring.contents_push)

subsection \<open>Every state the program can reach\<close>

inductive metrics_step :: "metrics \<Rightarrow> metrics \<Rightarrow> bool" where
  opened: "room m \<Longrightarrow> metrics_step m (snd (open_connection now cl sv enc m))"
| recorded: "r < length (heap m) \<Longrightarrow> metrics_step m (record_messages r d n b m)"
| encryption: "r < length (heap m) \<Longrightarrow> metrics_step m (set_encrypted r enc m)"
| closed: "r < length (heap m) \<Longrightarrow> metrics_step m (close_connection now r m)"
| sampled: "metrics_step m (snd (sample_rates m))"

inductive_cases metrics_stepE: "metrics_step m m'"

lemma metrics_step_inv: "metrics_step m m' \<Longrightarrow> metrics_inv m \<Longrightarrow> metrics_inv m'"
  by (induction rule: metrics_step.induct)
    (auto intro: open_connection_inv record_messages_inv set_encrypted_inv close_connection_inv sample_rates_inv)

lemma reachable_metrics_inv: "metrics_step\<^sup>*\<^sup>* m m' \<Longrightarrow> metrics_inv m \<Longrightarrow> metrics_inv m'"
  by (induction rule: rtranclp_induct) (auto intro: metrics_step_inv)

subsection \<open>The contract of the registry\<close>

text \<open>What the traffic sources rely on: a fresh handle is not one of the live ones, only the
  handle given to close leaves, and counting changes neither.\<close>

locale connection_registry =
  fixes open_conn :: "'a \<Rightarrow> 's \<Rightarrow> 'r \<times> 's"
    and close_conn :: "'t \<Rightarrow> 'r \<Rightarrow> 's \<Rightarrow> 's"
    and note_conn :: "'n \<Rightarrow> 'r \<Rightarrow> 's \<Rightarrow> 's"
    and known :: "'s \<Rightarrow> 'r set"
    and live :: "'s \<Rightarrow> 'r set"
    and live_count :: "'s \<Rightarrow> nat"
    and inv :: "'s \<Rightarrow> bool"
    and can_open :: "'s \<Rightarrow> bool"
  assumes opens_law: "inv s \<Longrightarrow> can_open s \<Longrightarrow> open_conn a s = (r, s') \<Longrightarrow>
            inv s' \<and> r \<notin> known s \<and> known s' = insert r (known s) \<and> live s' = insert r (live s)"
    and closes_law: "inv s \<Longrightarrow> r \<in> known s \<Longrightarrow>
            inv (close_conn t r s) \<and> known (close_conn t r s) = known s \<and> live (close_conn t r s) = live s - {r}"
    and notes_law: "inv s \<Longrightarrow> r \<in> known s \<Longrightarrow>
            inv (note_conn n r s) \<and> known (note_conn n r s) = known s \<and> live (note_conn n r s) = live s"
    and counts_law: "inv s \<Longrightarrow> finite (live s) \<and> live_count s = card (live s)"
begin

text \<open>A table whose entries hold a handle and whether it was closed already. It tracks the registry
  when no two entries share a handle and the handles not closed are exactly the live ones.\<close>

definition tracks :: "('k \<rightharpoonup> 'r \<times> bool) \<Rightarrow> 's \<Rightarrow> bool" where
  "tracks tbl s \<longleftrightarrow> inv s \<and> (\<forall>k r c. tbl k = Some (r, c) \<longrightarrow> r \<in> known s)
     \<and> (\<forall>k k' r c c'. tbl k = Some (r, c) \<longrightarrow> tbl k' = Some (r, c') \<longrightarrow> k = k')
     \<and> live s = {r. \<exists>k. tbl k = Some (r, False)}"

lemma tracksI:
  assumes "inv s" "\<And>k r c. tbl k = Some (r, c) \<Longrightarrow> r \<in> known s"
    and "\<And>k k' r c c'. tbl k = Some (r, c) \<Longrightarrow> tbl k' = Some (r, c') \<Longrightarrow> k = k'"
    and "\<And>r. r \<in> live s \<longleftrightarrow> (\<exists>k. tbl k = Some (r, False))"
  shows "tracks tbl s"
  unfolding tracks_def using assms by blast

lemma tracksD:
  assumes "tracks tbl s"
  shows "inv s" "tbl k = Some (r, c) \<Longrightarrow> r \<in> known s"
    "tbl k = Some (r, c) \<Longrightarrow> tbl k' = Some (r, c') \<Longrightarrow> k = k'"
    "r \<in> live s \<longleftrightarrow> (\<exists>k. tbl k = Some (r, False))"
  using assms unfolding tracks_def by blast+

lemma tracks_empty: "inv s \<Longrightarrow> live s = {} \<Longrightarrow> tracks (\<lambda>k. None) s"
  by (simp add: tracks_def)

lemma tracks_open:
  assumes t: "tracks tbl s" and o: "can_open s" "open_conn a s = (r, s')"
    and k: "\<forall>r' c. tbl k = Some (r', c) \<longrightarrow> c"
  shows "tracks (tbl(k \<mapsto> (r, False))) s'"
proof (rule tracksI)
  note d = tracksD [OF t]
  have l: "inv s'" "r \<notin> known s" "known s' = insert r (known s)" "live s' = insert r (live s)"
    using opens_law [OF d(1) o] by auto
  show "inv s'" by (rule l(1))
  show "q \<in> known s'" if "(tbl(k \<mapsto> (r, False))) a = Some (q, c)" for a q c
    using that d(2) l(3) by (auto split: if_splits)
  show "a = b" if "(tbl(k \<mapsto> (r, False))) a = Some (q, c)" "(tbl(k \<mapsto> (r, False))) b = Some (q, c')" for a b q c c'
    using that d(2) [of a q c] d(2) [of b q c'] d(3) [of a q c b c'] l(2) by (auto split: if_splits)
  show "q \<in> live s' \<longleftrightarrow> (\<exists>a. (tbl(k \<mapsto> (r, False))) a = Some (q, False))" for q
  proof -
    have "tbl a = Some (q, False) \<Longrightarrow> a \<noteq> k" for a using k by auto
    then show ?thesis unfolding l(4) using d(4) [of q] by (auto split: if_splits)
  qed
qed

lemma tracks_note: "tracks tbl s \<Longrightarrow> tbl k = Some (r, c) \<Longrightarrow> tracks tbl (note_conn n r s)"
  using notes_law unfolding tracks_def by metis

text \<open>Closing a connection whose entry is then marked or dropped.\<close>

lemma tracks_close:
  assumes t: "tracks tbl s" and k: "tbl k = Some (r, c)" and new: "new = None \<or> new = Some (r, True)"
  shows "tracks (tbl(k := new)) (close_conn t r s)"
proof (rule tracksI)
  note d = tracksD [OF assms(1)]
  have l: "inv (close_conn t r s)" "known (close_conn t r s) = known s" "live (close_conn t r s) = live s - {r}"
    using closes_law [OF d(1) d(2) [OF k]] by auto
  have old: "\<exists>c'. tbl a = Some (q, c')" if "(tbl(k := new)) a = Some (q, c)" for a q c
    using that k new by (auto split: if_splits)
  show "inv (close_conn t r s)" by (rule l(1))
  show "q \<in> known (close_conn t r s)" if "(tbl(k := new)) a = Some (q, c)" for a q c
    using old [OF that] d(2) l(2) by auto
  show "a = b" if "(tbl(k := new)) a = Some (q, c)" "(tbl(k := new)) b = Some (q, c')" for a b q c c'
    using old [OF that(1)] old [OF that(2)] d(3) by auto
  show "q \<in> live (close_conn t r s) \<longleftrightarrow> (\<exists>a. (tbl(k := new)) a = Some (q, False))" for q
  proof -
    have "tbl a = Some (q, False) \<Longrightarrow> q \<noteq> r \<longleftrightarrow> a \<noteq> k" for a using k d(3) by auto
    then show ?thesis unfolding l(3) using d(4) [of q] new by (auto split: if_splits)
  qed
qed

lemma tracks_count:
  assumes "tracks tbl s"
  shows "live_count s = card {k. \<exists>r. tbl k = Some (r, False)}"
proof -
  note d = tracksD [OF assms]
  have "inj_on (\<lambda>k. fst (the (tbl k))) {k. \<exists>r. tbl k = Some (r, False)}"
    using d(3) by (auto simp: inj_on_def)
  moreover have "(\<lambda>k. fst (the (tbl k))) ` {k. \<exists>r. tbl k = Some (r, False)} = live s"
    using d(4) by (force simp: image_def)
  ultimately show ?thesis
    using counts_law [OF d(1)] card_image by metis
qed

end

datatype conn_note = Traffic_Note traffic_direction u64 u64 | Encryption_Note bool

fun note_connection :: "conn_note \<Rightarrow> conn_ref \<Rightarrow> metrics \<Rightarrow> metrics" where
  "note_connection (Traffic_Note d n b) r m = record_messages r d n b m"
| "note_connection (Encryption_Note b) r m = set_encrypted r b m"

lemma note_connection_open_refs:
  "r < length (heap m) \<Longrightarrow> open_refs (note_connection n r m) = open_refs m \<and>
     length (heap (note_connection n r m)) = length (heap m)"
  by (cases n) (auto simp: open_refs_def record_messages_eq set_encrypted_def nth_list_update)

lemma note_connection_inv:
  "metrics_inv m \<Longrightarrow> r < length (heap m) \<Longrightarrow> metrics_inv (note_connection n r m)"
  by (cases n) (simp_all add: record_messages_inv set_encrypted_inv)

lemma close_connection_heap: "length (heap (close_connection now r m)) = length (heap m)"
  by (auto simp: close_connection_def Let_def split: connection_lifecycle.splits prod.splits)

lemma open_refs_close:
  assumes "metrics_inv m" "r \<in> open_refs m"
  shows "open_refs (close_connection now r m) = open_refs m - {r}"
proof -
  obtain since where "cs_lifecycle (heap m ! r) = Open since" "r < length (heap m)"
    using assms(2) by (auto simp: open_refs_def is_open_def split: connection_lifecycle.splits)
  then show ?thesis
    using close_connection_open(1) [OF assms(1)]
    by (auto simp: open_refs_def after_close_def Let_def nth_list_update split: if_splits)
qed

definition known_refs :: "metrics \<Rightarrow> conn_ref set" where
  "known_refs m = {r. r < length (heap m)}"

lemma registry_opens:
  assumes "metrics_inv m" "room m" and eq: "open_connection now cl sv enc m = (r, m')"
  shows "metrics_inv m' \<and> r \<notin> known_refs m \<and> known_refs m' = insert r (known_refs m) \<and> open_refs m' = insert r (open_refs m)"
proof -
  have "metrics_inv m'" using open_connection_inv [OF assms(1,2), of now cl sv enc] eq by simp
  with eq show ?thesis
    by (auto simp: known_refs_def open_connection_def Let_def open_refs_def is_open_def nth_append split: if_splits)
qed

lemma registry_closes:
  assumes "metrics_inv m" "r \<in> known_refs m"
  shows "metrics_inv (close_connection t r m) \<and> known_refs (close_connection t r m) = known_refs m
           \<and> open_refs (close_connection t r m) = open_refs m - {r}"
proof -
  have "open_refs (close_connection t r m) = open_refs m - {r}"
  proof (cases "r \<in> open_refs m")
    case True
    then show ?thesis using open_refs_close assms(1) by simp
  next
    case False
    then show ?thesis using assms(2) by (simp add: known_refs_def open_refs_def close_connection_closed)
  qed
  then show ?thesis
    using close_connection_inv assms by (simp add: known_refs_def close_connection_heap)
qed

lemma registry_notes:
  "metrics_inv m \<Longrightarrow> r \<in> known_refs m \<Longrightarrow>
     metrics_inv (note_connection n r m) \<and> known_refs (note_connection n r m) = known_refs m
     \<and> open_refs (note_connection n r m) = open_refs m"
  using note_connection_inv note_connection_open_refs by (simp add: known_refs_def)

lemma registry_counts:
  "metrics_inv m \<Longrightarrow> finite (open_refs m) \<and> length (filter is_open (heap m)) = card (open_refs m)"
  by (simp add: open_refs_def length_filter_conv_card)

interpretation registry: connection_registry
  "\<lambda>(now, cl, sv, enc). open_connection now cl sv enc" close_connection note_connection
  known_refs open_refs "\<lambda>m. length (filter is_open (heap m))" metrics_inv room
  by unfold_locales
    (auto simp del: note_connection.simps dest: registry_opens registry_closes registry_notes registry_counts)

subsection \<open>Properties\<close>

lemma fetch_add_commute: "fetch_add a \<circ> fetch_add b = fetch_add b \<circ> fetch_add a"
proof
  fix m
  obtain t c n t' c' n' where ab: "a = (t, c, n)" "b = (t', c', n')" by (metis prod_cases3)
  show "(fetch_add a \<circ> fetch_add b) m = (fetch_add b \<circ> fetch_add a) m"
  proof (cases t; cases t')
    fix r r'
    assume t: "t = Conn r" "t' = Conn r'"
    show ?thesis
    proof (cases "r = r'")
      case True
      then show ?thesis
        by (cases "length (heap m) \<le> r") (simp_all add: ab t add.commute add.left_commute list_update_beyond)
    qed (simp add: ab t list_update_swap)
  qed (simp_all add: ab add.commute add.left_commute)
qed

lemma record_messages_fold:
  "fold (\<lambda>(r, d, n, b). record_messages r d n b) calls m =
   fold fetch_add (concat (map (\<lambda>(r, d, n, b). record_adds r d n b) calls)) m"
  by (induction calls arbitrary: m) (auto simp: record_messages_def)

text \<open>What a set of calls counts: messages and bytes apart, and each direction by itself.\<close>

type_synonym record_call = "conn_ref \<times> traffic_direction \<times> u64 \<times> u64"

definition tally :: "record_call list \<Rightarrow> traffic" where
  "tally calls = Traffic
     (sum_list (map (\<lambda>(r, d, n, b). if d = In then n else 0) calls)) (sum_list (map (\<lambda>(r, d, n, b). if d = Out then n else 0) calls))
     (sum_list (map (\<lambda>(r, d, n, b). if d = In then b else 0) calls)) (sum_list (map (\<lambda>(r, d, n, b). if d = Out then b else 0) calls))"

lemma tally_simps [simp]: "tally [] = 0" "tally ((r, d, n, b) # calls) = amount d n b + tally calls"
  by (cases d; simp add: tally_def zero_traffic_def plus_traffic_def)+

definition count_calls :: "record_call list \<Rightarrow> metrics \<Rightarrow> metrics" where
  "count_calls calls m = m\<lparr> m_totals := m_totals m + tally calls,
     heap := map (\<lambda>r. (heap m ! r)\<lparr> cs_traffic := cs_traffic (heap m ! r) + tally (filter (\<lambda>c. fst c = r) calls) \<rparr>) [0..<length (heap m)] \<rparr>"

lemma record_messages_counts:
  assumes "\<forall>c \<in> set calls. fst c < length (heap m)"
  shows "fold (\<lambda>(r, d, n, b). record_messages r d n b) calls m = count_calls calls m"
  using assms
proof (induction calls arbitrary: m)
  case Nil
  then show ?case by (cases m) (simp add: count_calls_def map_nth)
next
  case (Cons c calls)
  obtain r d n b where c: "c = (r, d, n, b)" by (cases c)
  let ?m = "record_messages r d n b m"
  have r: "r < length (heap m)" using Cons.prems by (simp add: c)
  note eq = record_messages_eq [OF r, of d n b]
  have "count_calls calls ?m = count_calls (c # calls) m"
    using r unfolding count_calls_def c eq
    by (auto simp: add.assoc nth_list_update intro!: nth_equalityI)
  then show ?case using Cons by (simp add: c eq)
qed

text \<open>C20. Concurrent \<open>record_messages\<close> calls lose nothing and count in the right place: whatever the order in which the atomic
  additions of a set of calls on registered connections reach the counters, in the end the aggregate has grown by the messages and by the
  bytes of all the calls, those of each connection by the messages and bytes of its own calls, each direction by itself, and nothing else
  of the registry changed.\<close>

theorem record_messages_any_interleaving:
  assumes "mset adds = mset (concat (map (\<lambda>(r, d, n, b). record_adds r d n b) calls))"
    and "\<forall>c \<in> set calls. fst c < length (heap m)"
  shows "fold fetch_add adds m = m\<lparr> m_totals := m_totals m + tally calls,
     heap := map (\<lambda>r. (heap m ! r)\<lparr> cs_traffic := cs_traffic (heap m ! r) + tally (filter (\<lambda>c. fst c = r) calls) \<rparr>) [0..<length (heap m)] \<rparr>"
proof -
  have "fold fetch_add adds m = fold (\<lambda>(r, d, n, b). record_messages r d n b) calls m"
    using assms(1) fold_multiset_equiv [of adds fetch_add] fetch_add_commute
    unfolding record_messages_fold by metis
  then show ?thesis using record_messages_counts [OF assms(2)] by (simp add: count_calls_def)
qed

definition two_connections :: metrics where
  "two_connections = snd (open_connection 2 (IpV4 1, 5) (IpV4 2, 5432) True
     (snd (open_connection 1 (IpV4 1, 4) (IpV4 2, 5432) False (with_limits 1 2))))"

theorem record_messages_any_interleaving_witness:
  "fold fetch_add [(Conn 1, BytesIn, 7), (Conn 0, BytesOut, 20), (Aggregate, MsgsOut, 2), (Aggregate, MsgsIn, 1),
      (Conn 0, MsgsOut, 2), (Aggregate, BytesIn, 7), (Conn 1, MsgsIn, 1), (Aggregate, BytesOut, 20)] two_connections
   = two_connections\<lparr> m_totals := Traffic 1 2 7 20,
       heap := [(heap two_connections ! 0)\<lparr> cs_traffic := Traffic 0 2 0 20 \<rparr>, (heap two_connections ! 1)\<lparr> cs_traffic := Traffic 1 0 7 0 \<rparr>] \<rparr>"
proof -
  have two: "length (heap two_connections) = 2" "m_totals two_connections = 0" "cs_traffic (heap two_connections ! 0) = 0"
      "cs_traffic (heap two_connections ! 1) = 0" "[0..<2] = [0, 1 :: nat]"
    by (simp_all add: two_connections_def open_connection_def with_limits_def Let_def upt_rec)
  let ?calls = "[(1, In, 1, 7), (0, Out, 2, 20)]"
  have "fold fetch_add [(Conn 1, BytesIn, 7), (Conn 0, BytesOut, 20), (Aggregate, MsgsOut, 2), (Aggregate, MsgsIn, 1),
      (Conn 0, MsgsOut, 2), (Aggregate, BytesIn, 7), (Conn 1, MsgsIn, 1), (Aggregate, BytesOut, 20)] two_connections
    = two_connections\<lparr> m_totals := m_totals two_connections + tally ?calls, heap := map (\<lambda>r. (heap two_connections ! r)
        \<lparr> cs_traffic := cs_traffic (heap two_connections ! r) + tally (filter (\<lambda>c. fst c = r) ?calls) \<rparr>) [0..<length (heap two_connections)] \<rparr>"
    by (rule record_messages_any_interleaving) (simp_all add: two)
  also have "\<dots> = two_connections\<lparr> m_totals := Traffic 1 2 7 20,
       heap := [(heap two_connections ! 0)\<lparr> cs_traffic := Traffic 0 2 0 20 \<rparr>, (heap two_connections ! 1)\<lparr> cs_traffic := Traffic 1 0 7 0 \<rparr>] \<rparr>"
    by (simp add: two two(4) [unfolded One_nat_def] plus_traffic_def zero_traffic_def)
  finally show ?thesis .
qed

lemma entries_distinct: "registry_ok h ents closed \<Longrightarrow> distinct (map fst ents)"
proof (erule registry_okE)
  fix rs cs
  assume "ents = map entry rs" "Suc (length h) < ID_SPACE" "distinct rs" "\<forall>r \<in> set rs. r < length h"
  then show "distinct (map fst ents)"
    by (auto simp: comp_def distinct_map inj_on_def dest!: id_of_inj)
qed

lemma open_retained:
  assumes "registry_ok h ents closed" "r < length h" "is_open (h ! r)"
  shows "(cs_id (h ! r), r) \<in> set ents"
  using assms by (elim registry_okE) (auto simp: entry_def)

text \<open>C7. In every state the registry reaches from its creation, the aggregate counters are the
  sums of the counters of all the connections ever opened, \<open>conns_opened\<close> and \<open>conns_live\<close> count
  the opened and the open connections, every open connection is retained under its identifier,
  identifiers of retained connections are distinct, and the rate history is within its bound.\<close>

theorem metrics_reachable_accounting:
  assumes "metrics_step\<^sup>*\<^sup>* (with_limits cap hist) m"
  shows "m_totals m = sum_list (map cs_traffic (heap m))
    \<and> conns_opened m = of_nat (length (heap m)) \<and> conns_live m = of_nat (card (open_refs m))
    \<and> (\<forall>r \<in> open_refs m. (cs_id (heap m ! r), r) \<in> set (entries m))
    \<and> distinct (map fst (entries m)) \<and> length (samples m) \<le> rate_history m"
proof -
  have inv: "metrics_inv m"
    using reachable_metrics_inv [OF assms] by simp
  then have "conns_live m = of_nat (card (open_refs m))"
    using registry.counts_law [OF inv] by (simp add: metrics_inv_def)
  with inv show ?thesis
    using open_retained [of "heap m" "entries m" "closed_ids m"] entries_distinct [of "heap m" "entries m" "closed_ids m"]
    by (simp add: metrics_inv_def open_refs_def)
qed

theorem metrics_reachable_accounting_witness:
  "m_totals (record_messages 1 In 3 30 two_connections)
    = sum_list (map cs_traffic (heap (record_messages 1 In 3 30 two_connections)))"
proof -
  let ?m0 = "with_limits 1 2" and ?m1 = "snd (open_connection 1 (IpV4 1, 4) (IpV4 2, 5432) False (with_limits 1 2))"
  have "metrics_step ?m0 ?m1"
    by (rule metrics_step.opened) (simp add: room_def with_limits_def ID_SPACE_def)
  moreover have "metrics_step ?m1 two_connections"
    unfolding two_connections_def
    by (rule metrics_step.opened) (simp add: room_def with_limits_def open_connection_def ID_SPACE_def)
  moreover have "metrics_step two_connections (record_messages 1 In 3 30 two_connections)"
    by (rule metrics_step.recorded) (simp add: two_connections_def with_limits_def open_connection_def)
  ultimately have "metrics_step\<^sup>*\<^sup>* ?m0 (record_messages 1 In 3 30 two_connections)"
    by (meson converse_rtranclp_into_rtranclp rtranclp.rtrancl_refl)
  then show ?thesis using metrics_reachable_accounting by blast
qed

text \<open>Closing an open connection keeps every connection that is still open and forgets the
  oldest closed ones, in the order in which they were closed: the forgotten identifiers are a prefix of
  the closed queue, nothing else leaves the registry, it is then within the capacity unless all
  that is left is open, and it never falls below the capacity.\<close>

theorem close_connection_evicts_oldest:
  assumes "metrics_inv m" "r \<in> open_refs m"
  shows "\<exists>forgotten. closed_ids m @ [cs_id (heap m ! r)] = forgotten @ closed_ids (close_connection now r m)
    \<and> entries (close_connection now r m) = filter (\<lambda>e. fst e \<notin> set forgotten) (entries m)
    \<and> length (entries (close_connection now r m)) \<le> max (connection_cap m) (card (open_refs (close_connection now r m)))
    \<and> (forgotten = [] \<or> connection_cap m \<le> length (entries (close_connection now r m)))
    \<and> (\<forall>q \<in> open_refs (close_connection now r m). q \<in> snd ` set (entries (close_connection now r m)))"
proof -
  let ?m = "close_connection now r m" and ?k = "length (entries m) - connection_cap m"
  obtain since where r: "r < length (heap m)" and open_r: "cs_lifecycle (heap m ! r) = Open since"
    using assms(2) by (auto simp: open_refs_def is_open_def split: connection_lifecycle.splits)
  have eq: "?m = after_close since now r m" and inv: "metrics_inv ?m"
    using close_connection_open [OF assms(1) r open_r, of now] by simp_all
  have id: "cs_id (heap m ! r) = id_of r"
    using assms(1) r by (auto simp: metrics_inv_def elim: registry_okE)
  have len: "length (entries ?m) = card (open_refs ?m) + length (closed_ids ?m)"
    using inv registry_length registry.counts_law [OF inv] by (metis metrics_inv_def)
  have len0: "length (entries m) = card (open_refs m) + length (closed_ids m)"
    using assms(1) registry_length registry.counts_law [OF assms(1)] by (metis metrics_inv_def)
  have card: "card (open_refs m) = Suc (card (open_refs ?m))"
    using open_refs_close [OF assms] assms registry.counts_law [OF assms(1)]
    by (metis card.remove)
  have closed: "closed_ids ?m = drop ?k (closed_ids m @ [id_of r])"
    by (simp add: eq after_close_def Let_def)
  have "entries ?m = filter (\<lambda>e. fst e \<notin> set (take ?k (closed_ids m @ [id_of r]))) (entries m)"
    by (simp add: eq after_close_def Let_def)
  moreover have "closed_ids m @ [id_of r] = take ?k (closed_ids m @ [id_of r]) @ closed_ids ?m"
    unfolding closed by (simp only: append_take_drop_id)
  moreover have "length (entries ?m) \<le> max (connection_cap m) (card (open_refs ?m))"
    using len len0 card closed by auto
  moreover have "take ?k (closed_ids m @ [id_of r]) = [] \<or> connection_cap m \<le> length (entries ?m)"
    using len len0 card closed by (cases ?k) auto
  moreover have "\<forall>q \<in> open_refs ?m. q \<in> snd ` set (entries ?m)"
    using inv open_retained by (force simp: metrics_inv_def open_refs_def)
  ultimately show ?thesis unfolding id by blast
qed

lemma two_connections_inv: "metrics_inv two_connections"
  unfolding two_connections_def
  by (intro open_connection_inv with_limits_inv)
    (simp_all add: room_def with_limits_def open_connection_def ID_SPACE_def)

theorem close_connection_evicts_oldest_witness:
  "\<exists>forgotten. closed_ids two_connections @ [2] = forgotten @ closed_ids (close_connection 9 1 two_connections)"
proof -
  have "1 \<in> open_refs two_connections" "cs_id (heap two_connections ! 1) = 2"
    by (simp_all add: two_connections_def with_limits_def open_connection_def open_refs_def is_open_def)
  then show ?thesis
    using close_connection_evicts_oldest [OF two_connections_inv, of 1 9] by auto
qed

text \<open>Opening a connection never forgets one: the new entry is added to those there are, whatever the
  capacity, so that the registry can exceed it (until the next close).\<close>

lemma open_connection_never_evicts:
  assumes "metrics_inv m" "room m"
  shows "entries (snd (open_connection now cl sv enc m)) =
      entries m @ [(next_conn_id m, fst (open_connection now cl sv enc m))]
    \<and> next_conn_id m \<notin> fst ` set (entries m)"
proof -
  have "registry_ok (heap m) (entries m) (closed_ids m)" "next_conn_id m = id_of (length (heap m))"
    using assms(1) by (simp_all add: metrics_inv_def)
  then have "next_conn_id m \<notin> fst ` set (entries m)"
    using assms(2) fresh_id by (simp add: room_def)
  then show ?thesis
    by (simp add: open_connection_def Let_def update_fresh)
qed

theorem open_connection_never_evicts_witness:
  "length (entries (snd (open_connection 3 (IpV4 1, 6) (IpV4 2, 5432) False two_connections))) = 3
   \<and> connection_cap two_connections = 1"
  using open_connection_never_evicts [OF two_connections_inv, of 3 "(IpV4 1, 6)" "(IpV4 2, 5432)" False]
  by (simp add: two_connections_def with_limits_def open_connection_def room_def ID_SPACE_def)

text \<open>A connection is closed once: closing it again changes neither its end time nor the live
  count nor the registry.\<close>

lemma close_connection_idempotent:
  assumes "metrics_inv m" "r < length (heap m)"
  shows "close_connection later r (close_connection now r m) = close_connection now r m"
proof (cases "cs_lifecycle (heap m ! r)")
  case (Open since)
  then show ?thesis
    using close_connection_open(1) [OF assms Open, of now] assms(2)
    by (intro close_connection_closed) (simp add: after_close_def Let_def)
next
  case (Closed since ended)
  then show ?thesis by (simp add: close_connection_closed is_open_def)
qed

theorem close_connection_idempotent_witness:
  "close_connection 12 0 (close_connection 9 0 two_connections) = close_connection 9 0 two_connections"
  by (rule close_connection_idempotent [OF two_connections_inv])
    (simp add: two_connections_def with_limits_def open_connection_def)

text \<open>A sequence of seconds: in each, some calls of \<open>record_messages\<close>, then the sampler's tick.\<close>

fun record_call :: "record_call \<Rightarrow> metrics \<Rightarrow> metrics" where
  "record_call (r, d, n, b) m = record_messages r d n b m"

fun run_seconds :: "record_call list list \<Rightarrow> metrics \<Rightarrow> metrics" where
  "run_seconds [] m = m"
| "run_seconds (calls # rest) m = run_seconds rest (snd (sample_rates (fold record_call calls m)))"

fun call_amount :: "record_call \<Rightarrow> traffic" where
  "call_amount (r, d, n, b) = amount d n b"

definition second_amount :: "record_call list \<Rightarrow> traffic" where
  "second_amount calls = sum_list (map call_amount calls)"

text \<open>No aggregate counter wraps when \<open>b\<close> is added to \<open>a\<close>.\<close>

definition no_wrap :: "traffic \<Rightarrow> traffic \<Rightarrow> bool" where
  "no_wrap a b \<longleftrightarrow> t_msgs_in a \<le> t_msgs_in a + t_msgs_in b \<and> t_msgs_out a \<le> t_msgs_out a + t_msgs_out b
     \<and> t_bytes_in a \<le> t_bytes_in a + t_bytes_in b \<and> t_bytes_out a \<le> t_bytes_out a + t_bytes_out b"

fun seconds_fit :: "traffic \<Rightarrow> record_call list list \<Rightarrow> bool" where
  "seconds_fit t [] = True"
| "seconds_fit t (calls # rest) = (no_wrap t (second_amount calls) \<and> seconds_fit (t + second_amount calls) rest)"

lemma fold_record_call:
  assumes "\<forall>c \<in> set calls. fst c < length (heap m)"
  shows "m_totals (fold record_call calls m) = m_totals m + second_amount calls
    \<and> length (heap (fold record_call calls m)) = length (heap m)
    \<and> previous (fold record_call calls m) = previous m \<and> samples (fold record_call calls m) = samples m
    \<and> rate_history (fold record_call calls m) = rate_history m"
  using assms
proof (induction calls arbitrary: m)
  case (Cons c calls)
  obtain r d n b where c: "c = (r, d, n, b)" by (metis prod_cases4)
  show ?case
    using Cons.IH [of "record_call c m"] Cons.prems
    by (simp add: c record_messages_eq second_amount_def add.assoc)
qed (simp add: second_amount_def)

lemma sample_difference:
  assumes "m_totals m = previous m + a" "no_wrap (previous m) a"
  shows "fst (sample_rates m) = a"
    and "samples (snd (sample_rates m)) = push_sample (rate_history m) a (samples m)"
  using assms by (cases a; simp add: sample_rates_def Let_def sat_sub_def no_wrap_def)+

text \<open>C21. The rate history is the traffic of the last seconds: when a tick ends each second and the
  aggregate counters do not wrap, the samples kept are exactly the amounts recorded in each of
  the last \<open>rate_history\<close> seconds, in order, and no more of them than that.\<close>

theorem rate_history_is_last_seconds:
  assumes "previous m = m_totals m" "length (samples m) \<le> rate_history m"
    and "\<forall>calls \<in> set secs. \<forall>c \<in> set calls. fst c < length (heap m)"
    and "seconds_fit (m_totals m) secs"
  shows "samples (run_seconds secs m) = lastn (rate_history m) (samples m @ map second_amount secs)"
proof -
  have "samples (run_seconds secs m) = sample_ring.pushes (rate_history m) (map second_amount secs) (samples m)"
    using assms(1,3,4)
  proof (induction secs arbitrary: m)
    case Nil
    then show ?case by (simp add: sample_ring.pushes_def)
  next
    case (Cons calls secs)
    let ?m = "fold record_call calls m"
    have rec: "m_totals ?m = previous ?m + second_amount calls" "previous ?m = previous m"
      "length (heap ?m) = length (heap m)" "samples ?m = samples m" "rate_history ?m = rate_history m"
      using fold_record_call [of calls m] Cons.prems by simp_all
    have smp: "samples (snd (sample_rates ?m)) = push_sample (rate_history m) (second_amount calls) (samples m)"
      using sample_difference(2) [OF rec(1)] rec Cons.prems by simp
    have st: "previous (snd (sample_rates ?m)) = m_totals (snd (sample_rates ?m))"
      "heap (snd (sample_rates ?m)) = heap ?m" "rate_history (snd (sample_rates ?m)) = rate_history ?m"
      "m_totals (snd (sample_rates ?m)) = m_totals ?m"
      by (simp_all add: sample_rates_def Let_def)
    show ?case
      using Cons.IH [OF st(1)] Cons.prems rec smp st by (simp add: sample_ring.pushes_def)
  qed
  then show ?thesis
    using assms(2) by (simp add: sample_ring.contents_pushes)
qed

theorem rate_history_is_last_seconds_witness:
  "samples (run_seconds [[(0, In, 1, 5)], [], [(1, Out, 2, 9), (0, Out, 1, 1)]] two_connections)
    = [Traffic 0 0 0 0, Traffic 0 3 0 10]"
proof -
  have m: "previous two_connections = 0" "m_totals two_connections = 0" "samples two_connections = []"
    "rate_history two_connections = 2" "length (heap two_connections) = 2"
    by (simp_all add: two_connections_def with_limits_def open_connection_def)
  have "samples (run_seconds [[(0, In, 1, 5)], [], [(1, Out, 2, 9), (0, Out, 1, 1)]] two_connections)
    = lastn (rate_history two_connections) (samples two_connections
        @ map second_amount [[(0, In, 1, 5)], [], [(1, Out, 2, 9), (0, Out, 1, 1)]])"
    by (rule rate_history_is_last_seconds) (simp_all add: m no_wrap_def second_amount_def)
  then show ?thesis by (simp add: m second_amount_def lastn_def zero_traffic_def)
qed

text \<open>A snapshot lists exactly the retained connections, each once, in strictly increasing order
  of identifier, hence in the order in which they were opened.\<close>

lemma snapshot_sorted:
  assumes "metrics_inv m"
  shows "sorted_wrt (<) (map cs_id (snap_connections (snapshot m)))
    \<and> map cs_id (snap_connections (snapshot m)) = sort (map fst (entries m))
    \<and> set (snap_connections (snapshot m)) = (\<lambda>e. heap m ! snd e) ` set (entries m)"
proof -
  have ok: "registry_ok (heap m) (entries m) (closed_ids m)"
    using assms by (simp add: metrics_inv_def)
  let ?cs = "map (\<lambda>(i, r). heap m ! r) (entries m)"
  have ids: "map cs_id ?cs = map fst (entries m)"
    using ok by (elim registry_okE) (auto simp: entry_def)
  have eq: "map cs_id (sort_key cs_id ?cs) = sort (map fst (entries m))"
    by (intro properties_for_sort [symmetric]) (simp_all add: ids [symmetric] del: map_map)
  then have "sorted_wrt (<) (map cs_id (sort_key cs_id ?cs))"
    using entries_distinct [OF ok] by (simp add: strict_sorted_iff)
  then show ?thesis
    using eq by (auto simp: snapshot_def image_def split_beta)
qed

theorem snapshot_sorted_witness:
  "sorted_wrt (<) (map cs_id (snap_connections (snapshot two_connections)))"
  using snapshot_sorted [OF two_connections_inv] by (rule conjunct1)

end
