(* ===== verification/Reassembly.thy ===== *)
theory Reassembly
  imports State
begin

text \<open>
  TCP reassembly of one direction of a connection: \<open>Direction\<close> of \<open>src/flow.rs\<close> with its
  \<open>feed\<close>, and the \<open>FieldSummary\<close> of \<open>src/decode.rs\<close> it caches. \<open>DecodeContext\<close> belongs to
  the pgwire crate: its four flags that the source writes are fields of an extensible record,
  whatever else it holds is the extension, and its default is an argument of \<open>direction_new\<close>.

  The theorems are stated against the byte stream the peer sent: \<open>stream_inv\<close> says that what
  has been delivered is a prefix of it and that every buffered segment is a piece of it;
  \<open>segments_inv\<close> follows a fixed segmentation and shows that nothing of it is lost.
\<close>

subsection \<open>The state of a direction\<close>

type_synonym endpoint = "ip_addr \<times> u16"

datatype role = Client | Server

record field_summary =
  fs_name :: rstring
  fs_type_oid :: u32
  fs_format_code :: "16 word"

record decode_context =
  awaiting_frontend_ssl :: bool
  awaiting_frontend_startup :: bool
  awaiting_backend_ssl_response :: bool
  awaiting_backend_gss_response :: bool

record 'c direction =
  role :: role
  client :: socket_addr
  next_seq :: "u32 option"
  ooo :: "(u32 \<times> u8 list) list"
  rxbuf :: "u8 list"
  ctx :: "'c decode_context_scheme"
  row_desc :: "field_summary list option"

definition direction_new :: "'c decode_context_scheme \<Rightarrow> role \<Rightarrow> socket_addr \<Rightarrow> 'c direction" where
  "direction_new default_ctx r cl =
     \<lparr> role = r, client = cl, next_seq = None, ooo = [], rxbuf = [], ctx = default_ctx, row_desc = None \<rparr>"

definition for_decoding :: "'c decode_context_scheme \<Rightarrow> role \<Rightarrow> socket_addr \<Rightarrow> 'c direction" where
  "for_decoding default_ctx r cl =
     (let d = direction_new default_ctx r cl in d\<lparr> ctx := (ctx d)\<lparr> awaiting_frontend_ssl := False \<rparr> \<rparr>)"

subsection \<open>Feeding a segment\<close>

lemma length_delete_less: "map_of al k = Some v \<Longrightarrow> length (AList.delete k al) < length al"
  unfolding AList.delete_eq by (rule length_filter_less [OF map_of_SomeD]) auto

function drain_ooo :: "(u32 \<times> u8 list) list \<Rightarrow> u32 \<Rightarrow> u8 list \<Rightarrow> (u32 \<times> u8 list) list \<times> u32 \<times> u8 list" where
  "drain_ooo q adv buf =
     (case map_of q adv of
        Some b \<Rightarrow> drain_ooo (AList.delete adv q) (adv + of_nat (length b)) (buf @ b)
      | None \<Rightarrow> (q, adv, buf))"
  by pat_completeness auto
termination
  by (relation "measure (\<lambda>(q, adv, buf). length q)") (auto intro: length_delete_less)

declare drain_ooo.simps [simp del]

text \<open>\<open>(-diff) as usize\<close> in release mode: the negation of the least \<open>i32\<close> wraps to itself and is
  then sign-extended.\<close>

definition neg_as_usize :: "int \<Rightarrow> nat" where
  "neg_as_usize diff = (if diff = - (2 ^ 31) then 2 ^ 64 - 2 ^ 31 else nat (- diff))"

definition append_chunk :: "u32 \<Rightarrow> u8 list \<Rightarrow> 'c direction \<Rightarrow> 'c direction" where
  "append_chunk cur chunk d =
     (let (q, adv, buf) = drain_ooo (ooo d) (cur + of_nat (length chunk)) (rxbuf d @ chunk)
      in d\<lparr> ooo := q, rxbuf := buf, next_seq := Some adv \<rparr>)"

definition feed :: "u32 \<Rightarrow> bool \<Rightarrow> u8 list \<Rightarrow> 'c direction \<Rightarrow> 'c direction" where
  "feed seq syn data d =
     (let d = (if syn then d\<lparr> next_seq := Some (seq + 1) \<rparr> else d) in
      if data = [] then d
      else
        let (next, d) = (case next_seq d of Some n \<Rightarrow> (n, d) | None \<Rightarrow> (seq, d\<lparr> next_seq := Some seq \<rparr>));
            diff = sint (seq - next)
        in if diff > 0 then d\<lparr> ooo := AList.update seq data (ooo d) \<rparr>
           else
             let skip = neg_as_usize diff in
             if diff < 0 \<and> skip \<ge> length data then d
             else
               let (cur, chunk) = (if diff < 0 then (seq + of_nat skip, drop skip data) else (seq, data))
               in append_chunk cur chunk d)"

subsection \<open>The cases of a segment\<close>

lemma feed_syn: "feed seq True data d = feed seq False data (d\<lparr> next_seq := Some (seq + 1) \<rparr>)"
  by (simp add: feed_def)

lemma feed_empty [simp]: "feed seq False [] d = d"
  by (simp add: feed_def)

lemma feed_anchor:
  "next_seq d = None \<Longrightarrow> data \<noteq> [] \<Longrightarrow> feed seq False data d = feed seq False data (d\<lparr> next_seq := Some seq \<rparr>)"
  by (simp add: feed_def)

lemma feed_ahead:
  "next_seq d = Some next \<Longrightarrow> data \<noteq> [] \<Longrightarrow> 0 < sint (seq - next) \<Longrightarrow>
     feed seq False data d = d\<lparr> ooo := AList.update seq data (ooo d) \<rparr>"
  by (simp add: feed_def)

lemma feed_next:
  "next_seq d = Some next \<Longrightarrow> data \<noteq> [] \<Longrightarrow> feed next False data d = append_chunk next data d"
  by (simp add: feed_def)

lemma feed_behind:
  assumes "next_seq d = Some next" "sint (seq - next) < 0"
  shows "feed seq False data d =
    (let skip = neg_as_usize (sint (seq - next)) in
     if length data \<le> skip then d else append_chunk (seq + of_nat skip) (drop skip data) d)"
  using assms by (simp add: feed_def Let_def)

lemma drain_ooo_buf: "\<exists>new. snd (snd (drain_ooo q adv buf)) = buf @ new"
proof (induction q adv buf rule: drain_ooo.induct)
  case (1 q adv buf)
  show ?case
  proof (cases "map_of q adv")
    case (Some b)
    then show ?thesis using "1.IH" [OF Some] by (subst drain_ooo.simps) auto
  qed (subst drain_ooo.simps, simp)
qed

lemma append_chunk_appends: "\<exists>new. rxbuf (append_chunk cur chunk d) = rxbuf d @ chunk @ new"
  using drain_ooo_buf [of "ooo d" "cur + of_nat (length chunk)" "rxbuf d @ chunk"]
  by (auto simp: append_chunk_def split_beta)

subsection \<open>Positions in the stream\<close>

text \<open>\<open>piece s k b\<close>: the bytes \<open>b\<close> are those of the stream \<open>s\<close> from position \<open>k\<close>. A stream shorter
  than the sequence space has one position per sequence number.\<close>

definition piece :: "'a list \<Rightarrow> nat \<Rightarrow> 'a list \<Rightarrow> bool" where
  "piece s k b \<longleftrightarrow> k + length b \<le> length s \<and> b = take (length b) (drop k s)"

definition SEQ_SPACE :: nat where "SEQ_SPACE = 2 ^ 32"

definition seq_at :: "u32 \<Rightarrow> nat \<Rightarrow> u32" where
  "seq_at base k = base + of_nat k"

lemma seq_at_0 [simp]: "seq_at base 0 = base"
  by (simp add: seq_at_def)

lemma seq_at_add: "seq_at base n + of_nat k = seq_at base (n + k)"
  by (simp add: seq_at_def)

lemma seq_at_inj:
  assumes "seq_at base k = seq_at base n" "k < SEQ_SPACE" "n < SEQ_SPACE"
  shows "k = n"
proof -
  have "(of_nat k :: u32) = of_nat n"
    using assms(1) unfolding seq_at_def by (rule add_left_imp_eq)
  then have "unat (of_nat k :: u32) = unat (of_nat n :: u32)" by (rule arg_cong)
  then show ?thesis
    unfolding unat_of_nat_u32 [OF assms(2) [unfolded SEQ_SPACE_def]]
      unat_of_nat_u32 [OF assms(3) [unfolded SEQ_SPACE_def]] .
qed

lemma seq_distance:
  assumes "\<bar>int k - int n\<bar> < 2 ^ 31"
  shows "sint (seq_at base k - seq_at base n) = int k - int n"
proof -
  have "seq_at base k - seq_at base n = of_int (int k - int n)"
    by (simp add: seq_at_def)
  moreover have "signed_take_bit 31 (int k - int n) = int k - int n"
    using assms by (intro signed_take_bit_int_eq_self) auto
  ultimately show ?thesis by (simp only: signed_of_int) simp
qed

lemma piece_prefix: "piece s n b \<Longrightarrow> take (length b) (drop n s) = b"
  by (simp add: piece_def)

lemma take_piece: "piece s n b \<Longrightarrow> take n s @ b = take (n + length b) s"
  by (metis piece_def take_add)

lemma piece_drop: "piece s k b \<Longrightarrow> m \<le> length b \<Longrightarrow> piece s (k + m) (drop m b)"
  unfolding piece_def by (metis add_leD2 add.assoc add.commute drop_drop drop_take le_add_diff_inverse2 length_drop)

text \<open>Delivery from position \<open>n\<close> to position \<open>n'\<close>.\<close>

definition delivers :: "'a list \<Rightarrow> nat \<Rightarrow> nat \<Rightarrow> 'a list \<Rightarrow> 'a list \<Rightarrow> bool" where
  "delivers s n n' buf buf' \<longleftrightarrow> n \<le> n' \<and> n' \<le> length s \<and> buf' = buf @ take (n' - n) (drop n s)"

lemma delivers_refl: "n \<le> length s \<Longrightarrow> delivers s n n buf buf"
  by (simp add: delivers_def)

lemma delivers_piece: "piece s n b \<Longrightarrow> delivers s n (n + length b) buf (buf @ b)"
  by (simp add: delivers_def piece_def)

lemma delivers_trans:
  assumes "delivers s n m a b" "delivers s m k b c"
  shows "delivers s n k a c"
proof -
  have "take (k - n) (drop n s) = take (m - n) (drop n s) @ take (k - m) (drop m s)"
    using assms take_add [of "m - n" "k - m" "drop n s"] by (simp add: delivers_def)
  then show ?thesis using assms by (simp add: delivers_def)
qed

subsection \<open>What is delivered is a prefix of the stream\<close>

definition pieces :: "u32 \<Rightarrow> u8 list \<Rightarrow> (u32 \<times> u8 list) list \<Rightarrow> bool" where
  "pieces base s q \<longleftrightarrow> (\<forall>(a, b) \<in> set q. \<exists>k. a = seq_at base k \<and> piece s k b)"

definition stream_inv :: "u32 \<Rightarrow> u8 list \<Rightarrow> nat \<Rightarrow> 'c direction \<Rightarrow> bool" where
  "stream_inv base s n d \<longleftrightarrow> next_seq d = Some (seq_at base n) \<and> n \<le> length s \<and> pieces base s (ooo d)"

lemma pieces_subset: "pieces base s q \<Longrightarrow> set q' \<subseteq> set q \<Longrightarrow> pieces base s q'"
  by (auto simp: pieces_def)

lemma set_delete_subset: "set (AList.delete k q) \<subseteq> set q"
  by (auto simp: AList.delete_eq)

lemma pieces_update:
  "pieces base s q \<Longrightarrow> piece s k b \<Longrightarrow> pieces base s (AList.update (seq_at base k) b q)"
  by (induction q) (auto simp: pieces_def)

lemma drain_ooo_delivers:
  assumes "pieces base s q" "n \<le> length s" "length s < SEQ_SPACE"
  shows "\<exists>q' n' buf'. drain_ooo q (seq_at base n) buf = (q', seq_at base n', buf')
    \<and> set q' \<subseteq> set q \<and> delivers s n n' buf buf'"
  using assms(1,2)
proof (induction "length q" arbitrary: q n buf rule: less_induct)
  case less
  show ?case
  proof (cases "map_of q (seq_at base n)")
    case None
    then have "drain_ooo q (seq_at base n) buf = (q, seq_at base n, buf)"
      by (subst drain_ooo.simps) simp
    then show ?thesis using delivers_refl [OF less.prems(2)] by blast
  next
    case (Some b)
    then obtain k where k: "seq_at base n = seq_at base k" "piece s k b"
      using less.prems(1) map_of_SomeD [OF Some] by (auto simp: pieces_def)
    have "k \<le> length s" using k(2) by (simp add: piece_def)
    then have "n = k"
      using less.prems(2) assms(3) by (intro seq_at_inj [OF k(1)]) simp_all
    with k have p: "piece s n b" by simp
    let ?q = "AList.delete (seq_at base n) q"
    have sub: "pieces base s ?q"
      using less.prems(1) set_delete_subset by (rule pieces_subset)
    have "n + length b \<le> length s" using p by (simp add: piece_def)
    from less.hyps [OF length_delete_less [OF Some] sub this, of "buf @ b"]
    obtain q' n' buf' where
      d: "drain_ooo ?q (seq_at base (n + length b)) (buf @ b) = (q', seq_at base n', buf')"
        "set q' \<subseteq> set ?q" "delivers s (n + length b) n' (buf @ b) buf'"
      by (elim exE conjE)
    have "set q' \<subseteq> set q" using d(2) set_delete_subset by (rule order_trans)
    moreover have "delivers s n n' buf buf'"
      using delivers_trans [OF delivers_piece [OF p] d(3)] .
    moreover have "drain_ooo q (seq_at base n) buf = (q', seq_at base n', buf')"
      by (subst drain_ooo.simps) (simp add: Some seq_at_add d(1))
    ultimately show ?thesis by (intro exI conjI)
  qed
qed

lemma append_chunk_stream:
  assumes "stream_inv base s n d" "piece s n chunk" "length s < SEQ_SPACE"
  shows "\<exists>n'. stream_inv base s n' (append_chunk (seq_at base n) chunk d)
    \<and> delivers s n n' (rxbuf d) (rxbuf (append_chunk (seq_at base n) chunk d))"
proof -
  have "n + length chunk \<le> length s" "pieces base s (ooo d)"
    using assms by (auto simp: stream_inv_def piece_def)
  then obtain q' n' buf' where d: "drain_ooo (ooo d) (seq_at base (n + length chunk)) (rxbuf d @ chunk) =
      (q', seq_at base n', buf')" "set q' \<subseteq> set (ooo d)" "delivers s (n + length chunk) n' (rxbuf d @ chunk) buf'"
    using drain_ooo_delivers assms(3) by blast
  moreover have "delivers s n n' (rxbuf d) buf'"
    using delivers_trans [OF delivers_piece [OF assms(2)] d(3)] .
  moreover have "pieces base s q'"
    using \<open>pieces base s (ooo d)\<close> d(2) by (rule pieces_subset)
  ultimately show ?thesis
    by (auto simp: append_chunk_def seq_at_add stream_inv_def delivers_def)
qed

lemma feed_stream:
  assumes inv: "stream_inv base s n d" and p: "piece s k data"
    and len: "length s < SEQ_SPACE" and win: "\<bar>int k - int n\<bar> < 2 ^ 31"
  shows "\<exists>n'. stream_inv base s n' (feed (seq_at base k) False data d)
    \<and> delivers s n n' (rxbuf d) (rxbuf (feed (seq_at base k) False data d))"
proof -
  note next_n = inv [unfolded stream_inv_def, THEN conjunct1]
  note dist = seq_distance [OF win, of base]
  have stay: ?thesis if "feed (seq_at base k) False data d = d"
    using that inv by (auto simp: stream_inv_def intro: delivers_refl)
  consider "data = []" | "data \<noteq> []" "n < k" | "data \<noteq> []" "k = n" | "data \<noteq> []" "k < n" by linarith
  then show ?thesis
  proof cases
    case 1
    then show ?thesis by (intro stay) simp
  next
    case 2
    then have "feed (seq_at base k) False data d = d\<lparr> ooo := AList.update (seq_at base k) data (ooo d) \<rparr>"
      using feed_ahead [OF next_n 2(1)] dist by simp
    then show ?thesis
      using inv p pieces_update by (auto simp: stream_inv_def intro: delivers_refl)
  next
    case 3
    then show ?thesis
      using append_chunk_stream [OF inv _ len] p feed_next [OF next_n 3(1)] by simp
  next
    case 4
    have skip: "neg_as_usize (sint (seq_at base k - seq_at base n)) = n - k"
      using dist win 4 by (simp add: neg_as_usize_def)
    have neg: "sint (seq_at base k - seq_at base n) < 0" using dist 4 by simp
    have f: "feed (seq_at base k) False data d =
      (if length data \<le> n - k then d else append_chunk (seq_at base n) (drop (n - k) data) d)"
      unfolding feed_behind [OF next_n neg] Let_def skip seq_at_add using 4 by simp
    show ?thesis
    proof (cases "length data \<le> n - k")
      case True
      then show ?thesis using f by (intro stay) simp
    next
      case False
      then have "piece s n (drop (n - k) data)"
        using piece_drop [OF p, of "n - k"] 4 by simp
      then show ?thesis
        using append_chunk_stream [OF inv _ len] f False by simp
    qed
  qed
qed

subsection \<open>Nothing of a fixed segmentation is lost\<close>

definition off :: "'a list list \<Rightarrow> nat \<Rightarrow> nat" where
  "off cs i = length (concat (take i cs))"

lemma off_Suc: "i < length cs \<Longrightarrow> off cs (Suc i) = off cs i + length (cs ! i)"
  by (simp add: off_def take_Suc_conv_app_nth)

lemma concat_take_Suc: "i < length cs \<Longrightarrow> concat (take (Suc i) cs) = concat (take i cs) @ cs ! i"
  by (simp add: take_Suc_conv_app_nth)

lemma off_le_add: "off cs i \<le> off cs (i + k)"
  by (simp add: off_def take_add)

lemma off_mono: "i \<le> j \<Longrightarrow> off cs i \<le> off cs j"
  using off_le_add [of cs i "j - i"] by simp

lemma off_end: "i < j \<Longrightarrow> j \<le> length cs \<Longrightarrow> off cs i + length (cs ! i) \<le> off cs j"
  using off_mono [of "Suc i" j cs] off_Suc [of i cs] by simp

lemma off_bound: "off cs i \<le> length (concat cs)"
  using off_mono [of i "max i (length cs)" cs] by (simp add: off_def)

lemma off_less:
  assumes "\<forall>c \<in> set cs. c \<noteq> []" "i < j" "j \<le> length cs"
  shows "off cs i < off cs j"
proof -
  have "cs ! i \<in> set cs" using assms(2,3) by (intro nth_mem) simp
  then have "0 < length (cs ! i)" using assms(1) by auto
  then show ?thesis using off_end [OF assms(2,3)] by linarith
qed

definition seq_key :: "u32 \<Rightarrow> u8 list list \<Rightarrow> nat \<Rightarrow> u32" where
  "seq_key base cs i = seq_at base (off cs i)"

definition buffers :: "u32 \<Rightarrow> u8 list list \<Rightarrow> nat set \<Rightarrow> (u32 \<times> u8 list) list \<Rightarrow> bool" where
  "buffers base cs B q \<longleftrightarrow>
     (\<forall>i \<le> length cs. map_of q (seq_key base cs i) = (if i \<in> B then Some (cs ! i) else None))"

lemma seq_key_inj:
  assumes "\<forall>c \<in> set cs. c \<noteq> []" "length (concat cs) < SEQ_SPACE"
    and "i \<le> length cs" "j \<le> length cs" "seq_key base cs i = seq_key base cs j"
  shows "i = j"
proof -
  have "off cs i = off cs j"
    using assms(5) off_bound [of cs i] off_bound [of cs j] assms(2)
    by (intro seq_at_inj [of base]) (simp_all add: seq_key_def)
  then show ?thesis
    using off_less [OF assms(1), of i j] off_less [OF assms(1), of j i] assms(3,4) by (metis nat_neq_iff)
qed

lemma buffers_update:
  assumes "buffers base cs B q" "\<forall>c \<in> set cs. c \<noteq> []" "length (concat cs) < SEQ_SPACE" "i < length cs"
  shows "buffers base cs (insert i B) (AList.update (seq_key base cs i) (cs ! i) q)"
proof -
  have "seq_key base cs a = seq_key base cs i \<longleftrightarrow> a = i" if "a \<le> length cs" for a
    using seq_key_inj [OF assms(2,3) that, of i] assms(4) by auto
  then show ?thesis using assms(1,4) by (auto simp: buffers_def update_conv')
qed

lemma buffers_delete:
  assumes "buffers base cs B q" "\<forall>c \<in> set cs. c \<noteq> []" "length (concat cs) < SEQ_SPACE" "i \<le> length cs"
  shows "buffers base cs (B - {i}) (AList.delete (seq_key base cs i) q)"
proof -
  have "seq_key base cs a = seq_key base cs i \<longleftrightarrow> a = i" if "a \<le> length cs" for a
    using seq_key_inj [OF assms(2,3) that assms(4)] by auto
  then show ?thesis using assms(1,4) by (auto simp: buffers_def delete_conv')
qed

lemma drain_ooo_absent: "map_of q adv = None \<Longrightarrow> drain_ooo q adv buf = (q, adv, buf)"
  by (subst drain_ooo.simps) simp

lemma drain_segments:
  assumes "\<forall>c \<in> set cs. c \<noteq> []" "length (concat cs) < SEQ_SPACE"
    and "buffers base cs B q" "B \<subseteq> {j..<length cs}" "j \<le> length cs" "seen @ buf = concat (take j cs)"
  shows "\<exists>q' j' buf'. drain_ooo q (seq_key base cs j) buf = (q', seq_key base cs j', buf')
    \<and> j \<le> j' \<and> j' \<le> length cs \<and> seen @ buf' = concat (take j' cs)
    \<and> {j..<j'} \<subseteq> B \<and> j' \<notin> B \<and> buffers base cs (B - {j..<j'}) q'"
  using assms(3-6)
proof (induction "length cs - j" arbitrary: j B q buf)
  case 0
  then have "map_of q (seq_key base cs j) = None" by (auto simp: buffers_def)
  moreover have "j \<notin> B" using 0 by auto
  ultimately show ?case
    using 0 by (intro exI [of _ q] exI [of _ j] exI [of _ buf]) (simp add: drain_ooo_absent)
next
  case (Suc n)
  then have j: "j < length cs" by simp
  show ?case
  proof (cases "j \<in> B")
    case False
    then have "map_of q (seq_key base cs j) = None" using Suc.prems by (simp add: buffers_def)
    then show ?thesis
      using Suc.prems False by (intro exI [of _ q] exI [of _ j] exI [of _ buf]) (simp add: drain_ooo_absent)
  next
    case True
    then have m: "map_of q (seq_key base cs j) = Some (cs ! j)" using Suc.prems by (simp add: buffers_def)
    let ?q = "AList.delete (seq_key base cs j) q"
    have k: "seq_key base cs j + of_nat (length (cs ! j)) = seq_key base cs (Suc j)"
      by (simp add: seq_key_def seq_at_add off_Suc [OF j])
    have 1: "seen @ buf @ cs ! j = concat (take (Suc j) cs)"
      using Suc.prems(4) by (simp add: concat_take_Suc [OF j] append_assoc [symmetric] del: append_assoc)
    have 2: "buffers base cs (B - {j}) ?q"
      using Suc.prems j by (intro buffers_delete assms(1,2)) simp_all
    have 3: "B - {j} \<subseteq> {Suc j..<length cs}" using Suc.prems(2) by auto
    have 4: "n = length cs - Suc j" "Suc j \<le> length cs" using Suc.hyps(2) j by simp_all
    from Suc.hyps(1) [OF 4(1) 2 3 4(2) 1] obtain q' j' buf' where r:
      "drain_ooo ?q (seq_key base cs (Suc j)) (buf @ cs ! j) = (q', seq_key base cs j', buf')"
      "Suc j \<le> j'" "j' \<le> length cs" "seen @ buf' = concat (take j' cs)"
      "{Suc j..<j'} \<subseteq> B - {j}" "j' \<notin> B - {j}" "buffers base cs (B - {j} - {Suc j..<j'}) q'"
      by (elim exE conjE)
    have "B - {j} - {Suc j..<j'} = B - {j..<j'}" using r(2) by auto
    moreover have "{j..<j'} \<subseteq> B" using r(5) True by (auto simp: Suc_le_eq subset_iff) (metis le_neq_implies_less)
    moreover have "drain_ooo q (seq_key base cs j) buf = (q', seq_key base cs j', buf')"
      by (subst drain_ooo.simps) (simp add: m k r(1))
    ultimately show ?thesis
      using r by (intro exI [of _ q'] exI [of _ j'] exI [of _ buf']) auto
  qed
qed

definition segments_inv :: "u32 \<Rightarrow> u8 list list \<Rightarrow> nat set \<Rightarrow> 'c direction \<Rightarrow> u8 list \<Rightarrow> bool" where
  "segments_inv base cs A d seen \<longleftrightarrow>
     (\<exists>j B. A = {..<j} \<union> B \<and> B \<subseteq> {Suc j..<length cs} \<and> j \<le> length cs
        \<and> next_seq d = Some (seq_key base cs j) \<and> buffers base cs B (ooo d)
        \<and> seen @ rxbuf d = concat (take j cs))"

lemma append_chunk_segment:
  assumes ne: "\<forall>c \<in> set cs. c \<noteq> []" and len: "length (concat cs) < SEQ_SPACE" and j: "j < length cs"
    and B: "B \<subseteq> {Suc j..<length cs}" and buf: "buffers base cs B (ooo d)"
    and seen: "seen @ rxbuf d = concat (take j cs)"
  shows "segments_inv base cs ({..<j} \<union> B \<union> {j}) (append_chunk (seq_key base cs j) (cs ! j) d) seen"
proof -
  have k: "seq_key base cs j + of_nat (length (cs ! j)) = seq_key base cs (Suc j)"
    by (simp add: seq_key_def seq_at_add off_Suc [OF j])
  have 1: "seen @ rxbuf d @ cs ! j = concat (take (Suc j) cs)"
    using seen by (simp add: concat_take_Suc [OF j] append_assoc [symmetric] del: append_assoc)
  have 2: "Suc j \<le> length cs" using j by simp
  from drain_segments [OF ne len buf B 2 1] obtain q' j' buf' where r:
    "drain_ooo (ooo d) (seq_key base cs (Suc j)) (rxbuf d @ cs ! j) = (q', seq_key base cs j', buf')"
    "Suc j \<le> j'" "j' \<le> length cs" "seen @ buf' = concat (take j' cs)"
    "{Suc j..<j'} \<subseteq> B" "j' \<notin> B" "buffers base cs (B - {Suc j..<j'}) q'"
    by (elim exE conjE)
  have "x \<in> B" if "j < x" "x < j'" for x using r(5) that by auto
  then have "{..<j} \<union> B \<union> {j} = {..<j'} \<union> (B - {Suc j..<j'})"
    using r(2) by (auto simp: Suc_le_eq) (metis linorder_neqE_nat)
  moreover have "B - {Suc j..<j'} \<subseteq> {Suc j'..<length cs}"
    using B r(6) by (auto simp: Suc_le_eq subset_iff) (metis linorder_neqE_nat)
  ultimately show ?thesis
    unfolding segments_inv_def
    using r by (intro exI [of _ j'] exI [of _ "B - {Suc j..<j'}"]) (simp add: append_chunk_def k)
qed

text \<open>A segment behind the next one was delivered already.\<close>

lemma feed_delivered:
  assumes "\<forall>c \<in> set cs. c \<noteq> []" "length (concat cs) < 2 ^ 31" "i < j" "j \<le> length cs" "next_seq d = Some (seq_key base cs j)"
    and dist: "sint (seq_key base cs i - seq_key base cs j) = int (off cs i) - int (off cs j)"
  shows "feed (seq_key base cs i) False (cs ! i) d = d"
proof -
  have e: "off cs i + length (cs ! i) \<le> off cs j" using off_end assms(3,4) by blast
  have o: "off cs i < off cs j" using off_less assms(1,3,4) by blast
  have neg: "sint (seq_key base cs i - seq_key base cs j) < 0" using dist o by simp
  have skip: "neg_as_usize (sint (seq_key base cs i - seq_key base cs j)) = off cs j - off cs i"
    using dist o off_bound [of cs j] assms(2) by (simp add: neg_as_usize_def)
  show ?thesis unfolding feed_behind [OF assms(5) neg] Let_def skip using e by simp
qed

lemma feed_segment:
  assumes ne: "\<forall>c \<in> set cs. c \<noteq> []" and len: "length (concat cs) < 2 ^ 31" and i: "i < length cs"
    and inv: "segments_inv base cs A d seen"
  shows "segments_inv base cs (insert i A) (feed (seq_key base cs i) False (cs ! i) d) seen"
proof -
  obtain j B where A: "A = {..<j} \<union> B" and B: "B \<subseteq> {Suc j..<length cs}" and j: "j \<le> length cs"
    and next_j: "next_seq d = Some (seq_key base cs j)" and buf: "buffers base cs B (ooo d)"
    and seen: "seen @ rxbuf d = concat (take j cs)"
    using inv by (auto simp: segments_inv_def)
  have len': "length (concat cs) < SEQ_SPACE" using len by (simp add: SEQ_SPACE_def)
  have dne: "cs ! i \<noteq> []" using ne i by simp
  have "\<bar>int (off cs i) - int (off cs j)\<bar> < 2 ^ 31"
    using off_bound [of cs i] off_bound [of cs j] len by simp
  note dist = seq_distance [OF this, of base, folded seq_key_def]
  consider "i < j" | "i = j" | "j < i" by linarith
  then show ?thesis
  proof cases
    case 1
    then have "feed (seq_key base cs i) False (cs ! i) d = d"
      by (rule feed_delivered [OF ne len _ j next_j dist])
    moreover have "insert i A = A" using A 1 by auto
    ultimately show ?thesis using inv by simp
  next
    case 2
    then have "feed (seq_key base cs i) False (cs ! i) d = append_chunk (seq_key base cs j) (cs ! j) d"
      using feed_next [OF next_j] dne by simp
    moreover have "insert i A = {..<j} \<union> B \<union> {j}" using A 2 by auto
    ultimately show ?thesis
      using append_chunk_segment [OF ne len' _ B buf seen] 2 i by simp
  next
    case 3
    have "off cs j < off cs i" using off_less ne 3 i less_imp_le by blast
    then have "feed (seq_key base cs i) False (cs ! i) d = d\<lparr> ooo := AList.update (seq_key base cs i) (cs ! i) (ooo d) \<rparr>"
      using feed_ahead [OF next_j dne] dist by simp
    moreover have "insert i A = {..<j} \<union> insert i B" "insert i B \<subseteq> {Suc j..<length cs}"
      using A B 3 i by auto
    ultimately show ?thesis
      unfolding segments_inv_def
      using j next_j seen buffers_update [OF buf ne len' i]
      by (intro exI [of _ j] exI [of _ "insert i B"]) simp
  qed
qed

subsection \<open>A connection's life: segments arrive, the decoder reads\<close>

text \<open>\<open>Segment k data\<close>: the bytes \<open>data\<close> of the stream from position \<open>k\<close> arrive. \<open>Read m\<close>: the
  decoder takes \<open>m\<close> bytes from the front of the buffer. The second component of the state is
  what the decoder has read.\<close>

datatype dir_event = Segment nat "u8 list" | Read nat

fun dir_step :: "u32 \<Rightarrow> dir_event \<Rightarrow> 'c direction \<times> u8 list \<Rightarrow> 'c direction \<times> u8 list" where
  "dir_step base (Segment k data) (d, seen) = (feed (seq_at base k) False data d, seen)"
| "dir_step base (Read m) (d, seen) = (d\<lparr> rxbuf := drop m (rxbuf d) \<rparr>, seen @ take m (rxbuf d))"

definition dir_run :: "u32 \<Rightarrow> dir_event list \<Rightarrow> 'c direction \<Rightarrow> 'c direction \<times> u8 list" where
  "dir_run base evs d = fold (dir_step base) evs (d, [])"

fun total :: "'c direction \<times> u8 list \<Rightarrow> u8 list" where
  "total (d, seen) = seen @ rxbuf d"

lemma delivers_append: "delivers s n m a b \<Longrightarrow> delivers s n m (x @ a) (x @ b)"
  by (simp add: delivers_def)

lemma dir_step_stream:
  assumes "stream_inv base s n (fst st)" "total st = take n s" "length s < 2 ^ 31"
    and "case e of Segment k data \<Rightarrow> piece s k data | Read m \<Rightarrow> True"
  shows "\<exists>n'. stream_inv base s n' (fst (dir_step base e st)) \<and> total (dir_step base e st) = take n' s"
proof (cases e; cases st)
  fix k data d seen
  assume e: "e = Segment k data" "st = (d, seen)"
  have "k \<le> length s" "n \<le> length s" using assms(1,4) by (simp_all add: e piece_def stream_inv_def)
  then have "\<bar>int k - int n\<bar> < 2 ^ 31" using assms(3) by simp
  then obtain n' where n': "stream_inv base s n' (feed (seq_at base k) False data d)"
      "delivers s n n' (rxbuf d) (rxbuf (feed (seq_at base k) False data d))"
    using feed_stream [of base s n d k data] assms by (auto simp: e SEQ_SPACE_def)
  have "seen @ rxbuf (feed (seq_at base k) False data d) = take n s @ take (n' - n) (drop n s)"
    using n'(2) assms(2) by (simp add: e delivers_def append_assoc [symmetric] del: append_assoc)
  also have "\<dots> = take n' s" using n'(2) take_add [of n "n' - n" s] by (simp add: delivers_def)
  finally show ?thesis using n'(1) by (auto simp: e)
next
  fix m d seen
  assume "e = Read m" "st = (d, seen)"
  then show ?thesis using assms(1,2) by (intro exI [of _ n]) (simp add: stream_inv_def)
qed

lemma dir_fold_stream:
  assumes "stream_inv base s n (fst st)" "total st = take n s" "length s < 2 ^ 31"
    and "\<forall>e \<in> set evs. case e of Segment k data \<Rightarrow> piece s k data | Read m \<Rightarrow> True"
  shows "\<exists>n'. stream_inv base s n' (fst (fold (dir_step base) evs st)) \<and> total (fold (dir_step base) evs st) = take n' s"
  using assms(1,2,4)
proof (induction evs arbitrary: n st)
  case (Cons e evs)
  then obtain n' where "stream_inv base s n' (fst (dir_step base e st))" "total (dir_step base e st) = take n' s"
    using dir_step_stream [of base s n st e] assms(3) by auto
  then show ?case using Cons.IH Cons.prems(3) by simp
qed auto

lemma dir_fold_segments:
  assumes ne: "\<forall>c \<in> set cs. c \<noteq> []" and len: "length (concat cs) < 2 ^ 31"
    and evs: "\<forall>e \<in> set evs. case e of Segment k data \<Rightarrow> \<exists>i < length cs. k = off cs i \<and> data = cs ! i | Read m \<Rightarrow> True"
    and inv: "segments_inv base cs A (fst st) (snd st)"
  shows "\<exists>A'. segments_inv base cs A' (fst (fold (dir_step base) evs st)) (snd (fold (dir_step base) evs st))
    \<and> A \<subseteq> A' \<and> (\<forall>i < length cs. Segment (off cs i) (cs ! i) \<in> set evs \<longrightarrow> i \<in> A')"
  using evs inv
proof (induction evs arbitrary: A st)
  case Nil
  then show ?case by auto
next
  case (Cons e evs)
  obtain d seen where st: "st = (d, seen)" by force
  have "\<exists>A''. segments_inv base cs A'' (fst (dir_step base e st)) (snd (dir_step base e st)) \<and> A \<subseteq> A''
      \<and> (\<forall>i < length cs. Segment (off cs i) (cs ! i) = e \<longrightarrow> i \<in> A'')"
  proof (cases e)
    case (Segment k data)
    then obtain i where i: "i < length cs" "k = off cs i" "data = cs ! i" using Cons.prems(1) by auto
    have "a = i" if "a < length cs" "off cs a = off cs i" for a
      using off_less [OF ne, of a i] off_less [OF ne, of i a] that i(1) by (metis nat_neq_iff less_imp_le)
    then show ?thesis
      using feed_segment [OF ne len i(1), of base A d seen] Cons.prems(2)
      by (intro exI [of _ "insert i A"]) (auto simp: Segment st i seq_key_def)
  next
    case (Read m)
    then show ?thesis
      using Cons.prems(2) by (intro exI [of _ A]) (auto simp: st segments_inv_def)
  qed
  then obtain A'' where A'': "segments_inv base cs A'' (fst (dir_step base e st)) (snd (dir_step base e st))"
    "A \<subseteq> A''" "\<forall>i < length cs. Segment (off cs i) (cs ! i) = e \<longrightarrow> i \<in> A''" by auto
  then obtain A' where "segments_inv base cs A' (fst (fold (dir_step base) evs (dir_step base e st)))
      (snd (fold (dir_step base) evs (dir_step base e st)))" "A'' \<subseteq> A'"
    "\<forall>i < length cs. Segment (off cs i) (cs ! i) \<in> set evs \<longrightarrow> i \<in> A'"
    using Cons.IH [OF _ A''(1)] Cons.prems(1) by auto
  then show ?case using A'' by (intro exI [of _ A']) auto
qed

subsection \<open>Properties\<close>

definition after_syn :: "'c decode_context_scheme \<Rightarrow> role \<Rightarrow> socket_addr \<Rightarrow> u32 \<Rightarrow> 'c direction" where
  "after_syn default_ctx r cl isn = feed isn True [] (direction_new default_ctx r cl)"

lemma after_syn_state [simp]:
  "next_seq (after_syn c r cl isn) = Some (isn + 1)" "ooo (after_syn c r cl isn) = []"
  "rxbuf (after_syn c r cl isn) = []"
  by (simp_all add: after_syn_def feed_def direction_new_def)

text \<open>C2. After the SYN, whatever segments of the peer's stream arrive, in whatever order, overlapping,
  repeated or cut differently when retransmitted, and whenever the decoder reads, the bytes delivered to the decoder are
  a prefix of the stream: nothing is duplicated, reordered or skipped, across the wrap-around of
  the sequence numbers.\<close>

theorem feed_delivers_prefix:
  assumes "length s < 2 ^ 31"
    and "\<forall>e \<in> set evs. case e of Segment k data \<Rightarrow> piece s k data | Read m \<Rightarrow> True"
  shows "\<exists>n \<le> length s. total (dir_run (isn + 1) evs (after_syn c r cl isn)) = take n s
    \<and> next_seq (fst (dir_run (isn + 1) evs (after_syn c r cl isn))) = Some (isn + 1 + of_nat n)"
proof -
  have "stream_inv (isn + 1) s 0 (fst (after_syn c r cl isn, [] :: u8 list))"
    by (simp add: stream_inv_def pieces_def)
  then obtain n where "stream_inv (isn + 1) s n (fst (dir_run (isn + 1) evs (after_syn c r cl isn)))"
      "total (dir_run (isn + 1) evs (after_syn c r cl isn)) = take n s"
    using dir_fold_stream [OF _ _ assms, of "isn + 1" 0 "(after_syn c r cl isn, [])"]
    by (auto simp: dir_run_def)
  then show ?thesis by (auto simp: stream_inv_def seq_at_def)
qed

definition sample_client :: socket_addr where "sample_client = (IpV4 0x7F000001, 50000)"

definition clear_ctx :: decode_context where
  "clear_ctx = \<lparr> awaiting_frontend_ssl = True, awaiting_frontend_startup = True,
     awaiting_backend_ssl_response = False, awaiting_backend_gss_response = False \<rparr>"

theorem feed_delivers_prefix_witness:
  "\<exists>n \<le> length [1, 2, 3, 4, 5 :: u8].
    total (dir_run (- 1 + 1) [Segment 3 [4, 5], Segment 0 [1, 2], Read 1, Segment 1 [2, 3]]
      (after_syn clear_ctx Client sample_client (- 1))) = take n [1, 2, 3, 4, 5]
    \<and> next_seq (fst (dir_run (- 1 + 1) [Segment 3 [4, 5], Segment 0 [1, 2], Read 1, Segment 1 [2, 3]]
      (after_syn clear_ctx Client sample_client (- 1)))) = Some (- 1 + 1 + of_nat n)"
  by (rule feed_delivers_prefix) (simp_all add: piece_def)

text \<open>C22. When the peer's stream is cut into the same segments by every retransmission, all of it is
  delivered once each segment has arrived at least once, whatever the order and the number of
  copies and whenever the decoder reads.\<close>

theorem feed_delivers_everything:
  assumes "\<forall>c \<in> set cs. c \<noteq> []" "length (concat cs) < 2 ^ 31"
    and "\<forall>e \<in> set evs. case e of Segment k data \<Rightarrow> \<exists>i < length cs. k = off cs i \<and> data = cs ! i | Read m \<Rightarrow> True"
    and "\<forall>i < length cs. Segment (off cs i) (cs ! i) \<in> set evs"
  shows "total (dir_run (isn + 1) evs (after_syn c r cl isn)) = concat cs"
proof -
  have "segments_inv (isn + 1) cs {} (fst (after_syn c r cl isn, [] :: u8 list)) (snd (after_syn c r cl isn, []))"
    unfolding segments_inv_def
    by (intro exI [of _ 0] exI [of _ "{}"]) (simp add: seq_key_def off_def buffers_def)
  from dir_fold_segments [OF assms(1-3) this] assms(4)
  obtain A where inv: "segments_inv (isn + 1) cs A (fst (dir_run (isn + 1) evs (after_syn c r cl isn)))
      (snd (dir_run (isn + 1) evs (after_syn c r cl isn)))" and A: "\<forall>i < length cs. i \<in> A"
    unfolding dir_run_def by blast
  obtain d seen where st: "dir_run (isn + 1) evs (after_syn c r cl isn) = (d, seen)" by force
  obtain j B where j: "A = {..<j} \<union> B" "B \<subseteq> {Suc j..<length cs}" "j \<le> length cs"
    "seen @ rxbuf d = concat (take j cs)"
    using inv by (auto simp: segments_inv_def st)
  have "\<not> j < length cs" using A j(1,2) by auto
  then show ?thesis using j(3,4) by (simp add: st)
qed

theorem feed_delivers_everything_witness:
  "total (dir_run (- 1 + 1) [Segment 3 [4, 5], Segment 0 [1, 2], Read 1, Segment 3 [4, 5], Segment 2 [3], Segment 0 [1, 2]]
      (after_syn clear_ctx Client sample_client (- 1))) = concat [[1, 2], [3], [4, 5]]"
proof (rule feed_delivers_everything)
  let ?cs = "[[1, 2], [3], [4, 5]] :: u8 list list"
  let ?evs = "[Segment 3 [4, 5], Segment 0 [1, 2], Read 1, Segment 3 [4, 5], Segment 2 [3], Segment 0 [1, 2]]"
  have o: "off ?cs 0 = 0" "off ?cs 1 = 2" "off ?cs 2 = 3" by (simp_all add: off_def)
  have idx: "\<exists>i < length ?cs. 3 = off ?cs i \<and> [4, 5] = ?cs ! i" "\<exists>i < length ?cs. 0 = off ?cs i \<and> [1, 2] = ?cs ! i"
    "\<exists>i < length ?cs. 2 = off ?cs i \<and> [3] = ?cs ! i"
    by (rule exI [of _ 2], simp only: o, simp) (rule exI [of _ 0], simp only: o, simp, rule exI [of _ 1], simp only: o, simp)
  then show "\<forall>e \<in> set ?evs. case e of Segment k data \<Rightarrow> \<exists>i < length ?cs. k = off ?cs i \<and> data = ?cs ! i | Read m \<Rightarrow> True"
    by (simp only: list.set ball_simps dir_event.case simp_thms)
  have "Segment (off ?cs i) (?cs ! i) \<in> set ?evs" if "i = 0 \<or> i = 1 \<or> i = 2" for i
    using that by (elim disjE) (simp_all only: o, simp_all)
  then show "\<forall>i < length ?cs. Segment (off ?cs i) (?cs ! i) \<in> set ?evs"
    by (simp add: less_Suc_eq numeral_eq_Suc)
qed simp_all

text \<open>A buffered segment is delivered only when the bytes before it end exactly where it
  starts: when a segment extends past that point, the rest of the buffered segment stays in the
  buffer, and the bytes it holds beyond the new one are not delivered although they were captured.\<close>

theorem feed_overlap_strands_buffered:
  assumes "next_seq d = Some next" "data \<noteq> []" "map_of (ooo d) (next + of_nat (length data)) = None"
  shows "feed next False data d = d\<lparr> rxbuf := rxbuf d @ data, next_seq := Some (next + of_nat (length data)) \<rparr>"
  using assms by (simp add: feed_next append_chunk_def drain_ooo.simps)

theorem feed_overlap_strands_buffered_witness:
  "let d = feed 2 False [3, 4] (after_syn clear_ctx Client sample_client (- 1));
       d' = feed 0 False [1, 2, 3] d
   in rxbuf d' = [1, 2, 3] \<and> next_seq d' = Some 3 \<and> ooo d' = [(2, [3, 4])]"
proof -
  let ?d = "feed 2 False [3, 4] (after_syn clear_ctx Client sample_client (- 1))"
  have d: "?d = (after_syn clear_ctx Client sample_client (- 1))\<lparr> ooo := [(2, [3, 4])] \<rparr>"
    by (subst feed_ahead [of _ 0]) simp_all
  have "feed 0 False [1, 2, 3] ?d = ?d\<lparr> rxbuf := rxbuf ?d @ [1, 2, 3], next_seq := Some (0 + of_nat (length [1, 2, 3 :: u8])) \<rparr>"
    by (rule feed_overlap_strands_buffered) (simp_all add: d)
  then show ?thesis by (simp add: d)
qed

text \<open>The first byte of data carried by a SYN segment is dropped: the SYN's sequence number is
  consumed by advancing \<open>next_seq\<close>, but the data is still placed at the segment's own number.\<close>

theorem feed_syn_payload_loses_first_byte:
  assumes "length data < 2 ^ 31"
  shows "rxbuf (feed isn True data (direction_new c r cl)) = tl data"
proof (cases data)
  case Nil
  then show ?thesis by (simp add: feed_def direction_new_def)
next
  case (Cons b bs)
  have neg: "sint (isn - (isn + 1)) < 0" by simp
  have skip: "neg_as_usize (sint (isn - (isn + 1))) = 1" by (simp add: neg_as_usize_def)
  have n: "next_seq ((direction_new c r cl)\<lparr> next_seq := Some (isn + 1) \<rparr>) = Some (isn + 1)" by simp
  show ?thesis
    unfolding feed_syn feed_behind [OF n neg] Let_def skip
    by (cases bs) (simp_all add: Cons direction_new_def append_chunk_def drain_ooo.simps)
qed

theorem feed_syn_payload_loses_first_byte_witness:
  "rxbuf (feed 7 True [1, 2, 3] (direction_new clear_ctx Client sample_client)) = [2, 3]"
  using feed_syn_payload_loses_first_byte [of "[1, 2, 3]" 7] by simp

end
