(* ===== verification/Address.thy ===== *)
theory Address
  imports Reassembly
begin

text \<open>
  The text of addresses, as the Rust standard library reads and prints it: the filter language
  parses \<open>IpAddr\<close> literals (\<open>src/filter.rs\<close>), the flow table prints endpoints (\<open>src/flow.rs\<close>) and session files
  hold the text of a \<open>SocketAddr\<close> (\<open>src/session.rs\<close>). The flow label and the scope of a
  \<open>SocketAddrV6\<close> are not modelled.
\<close>

subsection \<open>Reading\<close>

definition to_digit :: "nat \<Rightarrow> rchar \<Rightarrow> nat option" where
  "to_digit radix c =
     (let d = if is_dec c then c - 48 else if 97 \<le> c \<and> c \<le> 102 then c - 87
              else if 65 \<le> c \<and> c \<le> 70 then c - 55 else radix
      in if d < radix then Some d else None)"

text \<open>\<open>read_number\<close> at a radix, the bound of its type, an optional greatest number of digits, and
  whether leading zeros are allowed; the result is the number and the rest of the input.\<close>

fun read_num_digits :: "nat \<Rightarrow> nat \<Rightarrow> nat option \<Rightarrow> nat \<Rightarrow> nat \<Rightarrow> rstring \<Rightarrow> (nat \<times> nat \<times> rstring) option" where
  "read_num_digits radix bound maxd k acc [] = Some (acc, k, [])"
| "read_num_digits radix bound maxd k acc (c # s) =
     (case to_digit radix c of
        None \<Rightarrow> Some (acc, k, c # s)
      | Some d \<Rightarrow>
          if acc * radix + d < bound \<and> (case maxd of None \<Rightarrow> True | Some n \<Rightarrow> Suc k \<le> n)
          then read_num_digits radix bound maxd (Suc k) (acc * radix + d) s
          else None)"

definition read_number :: "nat \<Rightarrow> nat \<Rightarrow> nat option \<Rightarrow> bool \<Rightarrow> rstring \<Rightarrow> (nat \<times> rstring) option" where
  "read_number radix bound maxd zero_prefix s =
     (case read_num_digits radix bound maxd 0 0 s of
        None \<Rightarrow> None
      | Some (n, k, r) \<Rightarrow>
          if k = 0 then None
          else if \<not> zero_prefix \<and> take 1 s = [48] \<and> 1 < k then None
          else Some (n, r))"

definition read_char :: "rchar \<Rightarrow> rstring \<Rightarrow> rstring option" where
  "read_char c s = (case s of [] \<Rightarrow> None | d # t \<Rightarrow> if c = d then Some t else None)"

definition read_separator :: "rchar \<Rightarrow> nat \<Rightarrow> (rstring \<Rightarrow> 'a option) \<Rightarrow> rstring \<Rightarrow> 'a option" where
  "read_separator sep i inner s = (if 0 < i then Option.bind (read_char sep s) inner else inner s)"

definition read_octet :: "nat \<Rightarrow> rstring \<Rightarrow> (nat \<times> rstring) option" where
  "read_octet i = read_separator 46 i (read_number 10 256 (Some 3) False)"

definition read_ipv4 :: "rstring \<Rightarrow> (u32 \<times> rstring) option" where
  "read_ipv4 s = do {
     (a, s) \<leftarrow> read_octet 0 s;
     (b, s) \<leftarrow> read_octet 1 s;
     (c, s) \<leftarrow> read_octet 2 s;
     (d, s) \<leftarrow> read_octet 3 s;
     Some (of_nat (((a * 256 + b) * 256 + c) * 256 + d), s) }"

definition ipv4_groups :: "u32 \<Rightarrow> nat list" where
  "ipv4_groups w = [unat w div 65536, unat w mod 65536]"

text \<open>\<open>read_groups\<close> with \<open>n\<close> groups left, the next being number \<open>i\<close>.\<close>

fun read_groups :: "nat \<Rightarrow> nat \<Rightarrow> rstring \<Rightarrow> nat list \<times> bool \<times> rstring" where
  "read_groups 0 i s = ([], False, s)"
| "read_groups (Suc n) i s =
     (case (if 1 \<le> n then read_separator 58 i read_ipv4 s else None) of
        Some (w, r) \<Rightarrow> (ipv4_groups w, True, r)
      | None \<Rightarrow>
          (case read_separator 58 i (read_number 16 65536 (Some 4) True) s of
             None \<Rightarrow> ([], False, s)
           | Some (g, r) \<Rightarrow> (let (gs, v4, r') = read_groups n (Suc i) r in (g # gs, v4, r'))))"

definition groups_word :: "nat list \<Rightarrow> 128 word" where
  "groups_word gs = of_nat (foldl (\<lambda>n g. 65536 * n + g) 0 gs)"

definition read_ipv6 :: "rstring \<Rightarrow> (128 word \<times> rstring) option" where
  "read_ipv6 s =
     (case read_groups 8 0 s of (head, head_v4, r) \<Rightarrow>
        if length head = 8 then Some (groups_word head, r)
        else if head_v4 then None
        else do {
          r \<leftarrow> read_char 58 r;
          r \<leftarrow> read_char 58 r;
          (case read_groups (7 - length head) 0 r of (tail, _, r) \<Rightarrow>
             Some (groups_word (head @ replicate (8 - length head - length tail) 0 @ tail), r)) })"

definition read_ip_addr :: "rstring \<Rightarrow> (ip_addr \<times> rstring) option" where
  "read_ip_addr s =
     (case read_ipv4 s of
        Some (w, r) \<Rightarrow> Some (IpV4 w, r)
      | None \<Rightarrow> map_option (\<lambda>(w, r). (IpV6 w, r)) (read_ipv6 s))"

definition parse_ip_addr :: "rstring \<Rightarrow> ip_addr option" where
  "parse_ip_addr s = (case read_ip_addr s of Some (a, []) \<Rightarrow> Some a | _ \<Rightarrow> None)"

definition read_port :: "rstring \<Rightarrow> (u16 \<times> rstring) option" where
  "read_port s = do {
     s \<leftarrow> read_char 58 s;
     (p, s) \<leftarrow> read_number 10 65536 None True s;
     Some (of_nat p, s) }"

definition read_socket_v4 :: "rstring \<Rightarrow> (socket_addr \<times> rstring) option" where
  "read_socket_v4 s = do {
     (w, s) \<leftarrow> read_ipv4 s;
     (p, s) \<leftarrow> read_port s;
     Some ((IpV4 w, p), s) }"

definition read_socket_v6 :: "rstring \<Rightarrow> (socket_addr \<times> rstring) option" where
  "read_socket_v6 s = do {
     s \<leftarrow> read_char 91 s;
     (w, s) \<leftarrow> read_ipv6 s;
     s \<leftarrow> read_char 93 s;
     (p, s) \<leftarrow> read_port s;
     Some ((IpV6 w, p), s) }"

definition parse_socket_addr :: "rstring \<Rightarrow> socket_addr option" where
  "parse_socket_addr s =
     (case (case read_socket_v4 s of Some r \<Rightarrow> Some r | None \<Rightarrow> read_socket_v6 s) of
        Some (a, []) \<Rightarrow> Some a
      | _ \<Rightarrow> None)"

subsection \<open>Printing\<close>

definition show_ipv4 :: "u32 \<Rightarrow> rstring" where
  "show_ipv4 w = join [46] (map show_nat
     [unat w div 16777216, unat w div 65536 mod 256, unat w div 256 mod 256, unat w mod 256])"

fun show_hex :: "nat \<Rightarrow> rstring" where
  "show_hex n = (if n < 16 then [hex_digit n] else show_hex (n div 16) @ [hex_digit (n mod 16)])"

declare show_hex.simps [simp del]

definition segments :: "128 word \<Rightarrow> nat list" where
  "segments w = map (\<lambda>i. unat w div 65536 ^ i mod 65536) (rev [0..<8])"

text \<open>The first of the longest runs of zero segments: \<open>(start, length)\<close>.\<close>

fun zero_run :: "nat \<Rightarrow> nat list \<Rightarrow> nat \<times> nat \<Rightarrow> nat \<times> nat \<Rightarrow> nat \<times> nat" where
  "zero_run i [] longest current = longest"
| "zero_run i (g # gs) longest current =
     (if g = 0
      then let current = (if snd current = 0 then (i, 1) else (fst current, Suc (snd current)))
           in zero_run (Suc i) gs (if snd longest < snd current then current else longest) current
      else zero_run (Suc i) gs longest (0, 0))"

definition show_groups :: "nat list \<Rightarrow> rstring" where
  "show_groups gs = join [58] (map show_hex gs)"

definition show_ipv6 :: "128 word \<Rightarrow> rstring" where
  "show_ipv6 w =
     (let gs = segments w in
      if take 6 gs = [0, 0, 0, 0, 0, 0xFFFF]
      then lit ''::ffff:'' @ show_ipv4 (of_nat (gs ! 6 * 65536 + gs ! 7))
      else let (start, n) = zero_run 0 gs (0, 0) (0, 0) in
        if 1 < n then show_groups (take start gs) @ [58, 58] @ show_groups (drop (start + n) gs)
        else show_groups gs)"

fun show_ip :: "ip_addr \<Rightarrow> rstring" where
  "show_ip (IpV4 w) = show_ipv4 w"
| "show_ip (IpV6 w) = show_ipv6 w"

fun show_socket_addr :: "socket_addr \<Rightarrow> rstring" where
  "show_socket_addr (IpV4 w, p) = show_ipv4 w @ [58] @ show_nat (unat p)"
| "show_socket_addr (IpV6 w, p) = [91] @ show_ipv6 w @ [93, 58] @ show_nat (unat p)"

subsection \<open>Reading back what was printed\<close>

lemma to_digit_dec: "is_dec c \<Longrightarrow> to_digit 10 c = Some (c - 48)"
  by (auto simp: to_digit_def is_dec_def Let_def)

lemma read_num_digits_dec:
  assumes "\<forall>c \<in> set ds. is_dec c" "read_digits acc ds = Some n" "n < bound"
    and "case maxd of None \<Rightarrow> True | Some m \<Rightarrow> k + length ds \<le> m"
    and "t = [] \<or> to_digit 10 (hd t) = None"
  shows "read_num_digits 10 bound maxd k acc (ds @ t) = Some (n, k + length ds, t)"
  using assms(1,2,4)
proof (induction ds arbitrary: acc k)
  case Nil
  then show ?case using assms(5) by (cases t) auto
next
  case (Cons c ds)
  have le: "acc' \<le> n" if "read_digits acc' ds = Some n" for acc'
    using that
  proof (induction ds arbitrary: acc')
    case (Cons c ds)
    then show ?case by (force split: if_splits dest: Cons.IH)
  qed simp
  have c: "is_dec c" using Cons.prems(1) by simp
  have r: "read_digits (acc * 10 + (c - 48)) ds = Some n"
    using Cons.prems(2) c by (simp add: mult.commute)
  have "acc * 10 + (c - 48) < bound" using le [OF r] assms(3) by simp
  moreover have "read_num_digits 10 bound maxd (Suc k) (acc * 10 + (c - 48)) (ds @ t) = Some (n, Suc k + length ds, t)"
    using Cons.prems(1,3) r by (intro Cons.IH) (auto split: option.splits)
  ultimately show ?case
    using Cons.prems(3) by (auto simp: to_digit_dec [OF c] split: option.splits)
qed

lemma show_nat_hd: "hd (show_nat n) = 48 \<longleftrightarrow> n = 0"
proof (induction n rule: show_nat.induct)
  case (1 n)
  then show ?case by (subst show_nat.simps) (auto simp: hd_append)
qed

lemma show_nat_small: "n < 10 \<Longrightarrow> show_nat n = [48 + n]"
  by (subst show_nat.simps) simp

lemma show_nat_length_3: "n < 1000 \<Longrightarrow> length (show_nat n) \<le> 3"
proof -
  assume n: "n < 1000"
  have two: "length (show_nat k) \<le> 2" if "k < 100" for k
    using that by (subst show_nat.simps) (auto simp: show_nat_small)
  show ?thesis using n by (subst show_nat.simps) (auto intro: order_trans [OF two])
qed

lemma read_number_show:
  assumes "n < bound" "case maxd of None \<Rightarrow> True | Some m \<Rightarrow> length (show_nat n) \<le> m"
    and "t = [] \<or> to_digit 10 (hd t) = None"
  shows "read_number 10 bound maxd zero_prefix (show_nat n @ t) = Some (n, t)"
proof -
  have "read_num_digits 10 bound maxd 0 0 (show_nat n @ t) = Some (n, 0 + length (show_nat n), t)"
    using assms show_nat_digits read_show_nat by (intro read_num_digits_dec) (auto split: option.splits)
  moreover have "take 1 (show_nat n @ t) = [hd (show_nat n)]"
    by (cases "show_nat n") auto
  moreover have "hd (show_nat n) = 48 \<Longrightarrow> length (show_nat n) = 1"
    by (simp add: show_nat_hd show_nat_small)
  ultimately show ?thesis by (auto simp: read_number_def)
qed

lemma read_octet_show:
  assumes "n < 256" "t = [] \<or> to_digit 10 (hd t) = None"
  shows "read_octet 0 (show_nat n @ t) = Some (n, t)"
    and "0 < i \<Longrightarrow> read_octet i (46 # show_nat n @ t) = Some (n, t)"
  using assms show_nat_length_3 [of n]
  by (simp_all add: read_octet_def read_separator_def read_char_def read_number_show)

lemma dot_not_digit [simp]: "to_digit 10 46 = None" "to_digit 10 58 = None" "to_digit 10 93 = None"
  by (simp_all add: to_digit_def is_dec_def Let_def)

lemma octets_sum: "(n :: nat) < 4294967296 \<Longrightarrow>
  ((n div 16777216 * 256 + n div 65536 mod 256) * 256 + n div 256 mod 256) * 256 + n mod 256 = n"
proof -
  have "n div 65536 div 256 = n div 16777216" "n div 256 div 256 = n div 65536"
    by (simp_all add: div_mult2_eq [symmetric])
  then have "n div 16777216 * 256 + n div 65536 mod 256 = n div 65536"
    "n div 65536 * 256 + n div 256 mod 256 = n div 256"
    using div_mult_mod_eq [of "n div 65536" 256] div_mult_mod_eq [of "n div 256" 256] by simp_all
  then show ?thesis using div_mult_mod_eq [of n 256] by simp
qed

lemma read_ipv4_show:
  assumes "t = [] \<or> to_digit 10 (hd t) = None"
  shows "read_ipv4 (show_ipv4 w @ t) = Some (w, t)"
proof -
  let ?n = "unat w"
  have b: "?n < 4294967296" using unsigned_less [of w, where ?'a = nat] by simp
  have "?n div 16777216 < 256" using b by (simp add: less_mult_imp_div_less)
  define a b' c d where abcd: "a = ?n div 16777216" "b' = ?n div 65536 mod 256" "c = ?n div 256 mod 256" "d = ?n mod 256"
  have "((a * 256 + b') * 256 + c) * 256 + d = ?n"
    unfolding abcd by (rule octets_sum [OF b])
  then have w: "(of_nat (((a * 256 + b') * 256 + c) * 256 + d) :: u32) = w" by simp
  have "a < 256" "b' < 256" "c < 256" "d < 256" using \<open>?n div 16777216 < 256\<close> by (simp_all add: abcd)
  then have "read_ipv4 (join [46] (map show_nat [a, b', c, d]) @ t)
      = Some (of_nat (((a * 256 + b') * 256 + c) * 256 + d), t)"
    using assms by (simp add: read_ipv4_def read_octet_show)
  then show ?thesis unfolding w by (simp add: show_ipv4_def abcd)
qed

lemma read_char_same [simp]: "read_char c (c # s) = Some s"
  by (simp add: read_char_def)

lemma read_port_show: "read_port (58 # show_nat (unat p)) = Some (p, [])"
proof -
  have "unat p < 65536" using unsigned_less [of p, where ?'a = nat] by simp
  then show ?thesis
    using read_number_show [of "unat p" 65536 None "[]" True] by (simp add: read_port_def)
qed

text \<open>The text of an IPv4 address and of an IPv4 socket address is read back as the same address.\<close>

lemma ipv4_text_roundtrip:
  "parse_ip_addr (show_ip (IpV4 w)) = Some (IpV4 w)
   \<and> parse_socket_addr (show_socket_addr (IpV4 w, p)) = Some (IpV4 w, p)"
proof -
  have "read_ipv4 (show_ipv4 w @ 58 # show_nat (unat p)) = Some (w, 58 # show_nat (unat p))"
    by (rule read_ipv4_show) simp
  then show ?thesis
    using read_ipv4_show [of "[]" w] read_port_show [of p]
    by (simp add: parse_ip_addr_def read_ip_addr_def parse_socket_addr_def read_socket_v4_def)
qed

end
