(* ===== verification/Filter_Lex.thy ===== *)
theory Filter_Lex
  imports Address
begin

text \<open>
  The lexer of the display-filter language (\<open>src/filter.rs\<close>: \<open>Token\<close>, \<open>lex\<close>, \<open>lex_string\<close>).
  The input from the current byte position on is the list of its remaining characters; the
  position itself, which errors report, is carried along.
\<close>

subsection \<open>Tokens and errors\<close>

record filter_parse_error =
  err_message :: rstring
  err_position :: nat

definition filter_error :: "nat \<Rightarrow> rstring \<Rightarrow> filter_parse_error" where
  "filter_error position msg = \<lparr> err_message = msg, err_position = position \<rparr>"

definition show_filter_error :: "filter_parse_error \<Rightarrow> rstring" where
  "show_filter_error e = err_message e @ lit '' at byte '' @ show_nat (err_position e)"

datatype token_kind =
    WordT rstring | StringT rstring | EqualT | NotEqualT | ContainsT | MatchesT | InT | AndT | OrT | NotT
  | LeftParenT | RightParenT | LeftBraceT | RightBraceT | CommaT | EndT

record token =
  tk_kind :: token_kind
  tk_position :: nat

definition tok :: "token_kind \<Rightarrow> nat \<Rightarrow> token" where
  "tok k p = \<lparr> tk_kind = k, tk_position = p \<rparr>"

lemma tok_simps [simp]: "tk_kind (tok k p) = k" "tk_position (tok k p) = p"
  by (simp_all add: tok_def)

abbreviation (input) QUOTE :: rchar where "QUOTE \<equiv> 34"
abbreviation (input) AMP :: rchar where "AMP \<equiv> 38"
abbreviation (input) LPAREN :: rchar where "LPAREN \<equiv> 40"
abbreviation (input) RPAREN :: rchar where "RPAREN \<equiv> 41"
abbreviation (input) COMMA :: rchar where "COMMA \<equiv> 44"
abbreviation (input) BANG :: rchar where "BANG \<equiv> 33"
abbreviation (input) EQ_CHAR :: rchar where "EQ_CHAR \<equiv> 61"
abbreviation (input) BACKSLASH :: rchar where "BACKSLASH \<equiv> 92"
abbreviation (input) LBRACE :: rchar where "LBRACE \<equiv> 123"
abbreviation (input) BAR :: rchar where "BAR \<equiv> 124"
abbreviation (input) RBRACE :: rchar where "RBRACE \<equiv> 125"

subsection \<open>String literals\<close>

definition unterminated :: "nat \<Rightarrow> filter_parse_error" where
  "unterminated start = filter_error start (lit ''unterminated string literal'')"

definition unescape :: "rchar \<Rightarrow> rchar option" where
  "unescape c = (if c = QUOTE then Some QUOTE else if c = BACKSLASH then Some BACKSLASH
     else if c = 110 then Some 10 else if c = 114 then Some 13 else if c = 116 then Some 9 else None)"

fun lex_string_loop ::
    "nat \<Rightarrow> bool \<Rightarrow> nat \<Rightarrow> rstring \<Rightarrow> rstring \<Rightarrow> filter_parse_error + rstring \<times> nat \<times> rstring" where
  "lex_string_loop start raw pos val [] = Inl (unterminated start)"
| "lex_string_loop start raw pos val (ch # rest) =
     (let pos = pos + len_utf8 ch in
      if ch = QUOTE then Inr (val, pos, rest)
      else if ch \<noteq> BACKSLASH \<or> raw then lex_string_loop start raw pos (val @ [ch]) rest
      else case rest of
        [] \<Rightarrow> Inl (unterminated start)
      | escaped # rest \<Rightarrow>
          let pos = pos + len_utf8 escaped in
          case unescape escaped of
            Some c \<Rightarrow> lex_string_loop start raw pos (val @ [c]) rest
          | None \<Rightarrow> Inl (filter_error (pos - len_utf8 escaped - 1)
              (lit ''unsupported escape '' @ [39, BACKSLASH, escaped, 39] @ lit '' (use a raw string for regexes)'')))"

definition lex_string :: "nat \<Rightarrow> bool \<Rightarrow> rstring \<Rightarrow> filter_parse_error + rstring \<times> nat \<times> rstring" where
  "lex_string start raw rest =
     lex_string_loop start raw (start + (if raw then 2 else 1)) [] (drop (if raw then 2 else 1) rest)"

subsection \<open>The token loop\<close>

definition simple_token :: "rchar \<Rightarrow> token_kind option" where
  "simple_token c = (if c = LPAREN then Some LeftParenT else if c = RPAREN then Some RightParenT
     else if c = LBRACE then Some LeftBraceT else if c = RBRACE then Some RightBraceT
     else if c = COMMA then Some CommaT else None)"

definition ends_word :: "rchar \<Rightarrow> bool" where
  "ends_word c \<longleftrightarrow> is_ws c \<or> c \<in> {LPAREN, RPAREN, LBRACE, RBRACE, COMMA, EQ_CHAR, BANG, AMP, BAR}"

definition word_kind :: "rstring \<Rightarrow> token_kind" where
  "word_kind w =
     (if eq_ignore_case w (lit ''and'') then AndT
      else if eq_ignore_case w (lit ''or'') then OrT
      else if eq_ignore_case w (lit ''not'') then NotT
      else if eq_ignore_case w (lit ''contains'') then ContainsT
      else if eq_ignore_case w (lit ''matches'') then MatchesT
      else if eq_ignore_case w (lit ''in'') then InT
      else WordT w)"

lemma lex_string_loop_length:
  "lex_string_loop start raw pos val s = Inr (v, p, r) \<Longrightarrow> length r < length s"
proof (induction start raw pos val s rule: lex_string_loop.induct)
  case (2 start raw pos val ch rest)
  then show ?case
    by (cases rest) (force simp: Let_def split: if_splits option.splits)+
qed simp

lemma lex_string_length:
  "lex_string start raw (c # s) = Inr (v, p, r) \<Longrightarrow> length r < length (c # s)"
  unfolding lex_string_def by (drule lex_string_loop_length) (auto split: if_splits)

definition emit_token :: "token_kind \<Rightarrow> nat \<Rightarrow> 'e + token list \<Rightarrow> 'e + token list" where
  "emit_token k start r = (case r of Inl e \<Rightarrow> Inl e | Inr ts \<Rightarrow> Inr (tok k start # ts))"

function lex_from :: "nat \<Rightarrow> rstring \<Rightarrow> filter_parse_error + token list" where
  "lex_from position [] = Inr [tok EndT position]"
| "lex_from position (current # rest) =
     (if is_ws current then lex_from (position + len_utf8 current) rest
      else case simple_token current of
        Some k \<Rightarrow> emit_token k position (lex_from (position + len_utf8 current) rest)
      | None \<Rightarrow>
      if current = EQ_CHAR \<and> take 1 rest = [EQ_CHAR] then emit_token EqualT position (lex_from (position + 2) (tl rest))
      else if current = BANG \<and> take 1 rest = [EQ_CHAR] then emit_token NotEqualT position (lex_from (position + 2) (tl rest))
      else if current = AMP \<and> take 1 rest = [AMP] then emit_token AndT position (lex_from (position + 2) (tl rest))
      else if current = BAR \<and> take 1 rest = [BAR] then emit_token OrT position (lex_from (position + 2) (tl rest))
      else if current = BANG then emit_token NotT position (lex_from (position + 1) rest)
      else if current = EQ_CHAR \<or> current = AMP \<or> current = BAR
      then Inl (filter_error position (lit ''unexpected operator '' @ [39, current, 39]))
      else if current = QUOTE
      then (case lex_string position False (current # rest) of
              Inl e \<Rightarrow> Inl e
            | Inr (val, next, rest') \<Rightarrow> emit_token (StringT val) position (lex_from next rest'))
      else if current = 114 \<and> take 1 rest = [QUOTE]
      then (case lex_string position True (current # rest) of
              Inl e \<Rightarrow> Inl e
            | Inr (val, next, rest') \<Rightarrow> emit_token (StringT val) position (lex_from next rest'))
      else
        let word = takeWhile (\<lambda>c. \<not> ends_word c) (current # rest);
            rest' = dropWhile (\<lambda>c. \<not> ends_word c) (current # rest)
        in if word = [] then Inl (filter_error position (lit ''unexpected character '' @ [39, current, 39]))
           else emit_token (word_kind word) position (lex_from (position + utf8_len word) rest'))"
  by pat_completeness auto
termination
  by (relation "measure (\<lambda>(p, s). length s)")
    (auto dest: lex_string_length intro: le_less_trans [OF length_dropWhile_le] split: if_splits)

declare lex_from.simps [simp del]

definition lex :: "rstring \<Rightarrow> filter_parse_error + token list" where
  "lex input = lex_from 0 input"

subsection \<open>Positions, and the shape of the token list\<close>

definition total_at :: "nat \<Rightarrow> rstring \<Rightarrow> nat" where
  "total_at pos s = pos + utf8_len s"

lemma lex_string_loop_position:
  "lex_string_loop start raw pos val s = Inr (v, p, r) \<Longrightarrow> total_at p r = total_at pos s"
proof (induction start raw pos val s rule: lex_string_loop.induct)
  case (2 start raw pos val ch rest)
  then show ?case
    by (cases rest) (force simp: Let_def total_at_def split: if_splits option.splits)+
qed simp

lemma lex_string_loop_error:
  "lex_string_loop start raw pos val s = Inl e \<Longrightarrow> start \<le> pos \<Longrightarrow> err_position e \<le> total_at pos s"
proof (induction start raw pos val s rule: lex_string_loop.induct)
  case (2 start raw pos val ch rest)
  then show ?case
    by (cases rest) (force simp: Let_def total_at_def unterminated_def filter_error_def split: if_splits option.splits)+
qed (auto simp: unterminated_def filter_error_def total_at_def)

lemma lex_string_position:
  assumes "s = QUOTE # s' \<and> \<not> raw \<or> s = 114 # QUOTE # s' \<and> raw"
  shows "lex_string start raw s = Inr (v, p, r) \<Longrightarrow> total_at p r = total_at start s"
    and "lex_string start raw s = Inl e \<Longrightarrow> err_position e \<le> total_at start s"
  using assms
  by (auto simp: lex_string_def total_at_def len_utf8_def
      dest!: lex_string_loop_position lex_string_loop_error)

definition tokens_ok :: "nat \<Rightarrow> token list \<Rightarrow> bool" where
  "tokens_ok end ts \<longleftrightarrow> ts \<noteq> [] \<and> last ts = tok EndT end
     \<and> (\<forall>t \<in> set (butlast ts). tk_kind t \<noteq> EndT) \<and> (\<forall>t \<in> set ts. tk_position t \<le> end)"

definition lexed_ok :: "nat \<Rightarrow> filter_parse_error + token list \<Rightarrow> bool" where
  "lexed_ok end r = (case r of Inl e \<Rightarrow> err_position e \<le> end | Inr ts \<Rightarrow> tokens_ok end ts)"

lemma lexed_ok_Inl [simp]: "lexed_ok end (Inl (filter_error p m)) \<longleftrightarrow> p \<le> end"
  by (simp add: lexed_ok_def filter_error_def)

lemma lexed_ok_emit:
  "lexed_ok end r \<Longrightarrow> start \<le> end \<Longrightarrow> k \<noteq> EndT \<Longrightarrow> lexed_ok end (emit_token k start r)"
  by (cases r) (auto simp: lexed_ok_def emit_token_def tokens_ok_def)

lemma word_kind_not_End: "word_kind w \<noteq> EndT"
  by (simp add: word_kind_def)

lemma simple_token_not_End: "simple_token c = Some k \<Longrightarrow> k \<noteq> EndT \<and> len_utf8 c = 1"
  by (auto simp: simple_token_def len_utf8_def split: if_splits)

lemma utf8_len_word: "utf8_len (takeWhile P s) + utf8_len (dropWhile P s) = utf8_len s"
  using utf8_len_append [of "takeWhile P s" "dropWhile P s"] by simp

lemma take_1_eq: "take (Suc 0) s = [c] \<longleftrightarrow> (\<exists>t. s = c # t)"
  by (cases s) auto

text \<open>The branches of the loop, one equation each.\<close>

lemma lex_ws: "is_ws c \<Longrightarrow> lex_from p (c # r) = lex_from (p + len_utf8 c) r"
  by (simp add: lex_from.simps)

lemma lex_simple:
  "simple_token c = Some k \<Longrightarrow> lex_from p (c # r) = emit_token k p (lex_from (p + 1) r)"
  by (subst lex_from.simps) (auto simp: simple_token_def is_ws_def len_utf8_def split: if_splits)

lemma lex_equal: "lex_from p (EQ_CHAR # EQ_CHAR # r) = emit_token EqualT p (lex_from (p + 2) r)"
  and lex_not_equal: "lex_from p (BANG # EQ_CHAR # r) = emit_token NotEqualT p (lex_from (p + 2) r)"
  and lex_and: "lex_from p (AMP # AMP # r) = emit_token AndT p (lex_from (p + 2) r)"
  and lex_or: "lex_from p (BAR # BAR # r) = emit_token OrT p (lex_from (p + 2) r)"
  by (subst lex_from.simps, simp add: is_ws_def simple_token_def)+

lemma lex_not: "take 1 r \<noteq> [EQ_CHAR] \<Longrightarrow> lex_from p (BANG # r) = emit_token NotT p (lex_from (p + 1) r)"
  by (subst lex_from.simps) (simp add: is_ws_def simple_token_def)

lemma lex_bad_operator:
  "c = EQ_CHAR \<or> c = AMP \<or> c = BAR \<Longrightarrow> take 1 r \<noteq> [c] \<Longrightarrow>
     lex_from p (c # r) = Inl (filter_error p (lit ''unexpected operator '' @ [39, c, 39]))"
  by (elim disjE; simp; subst lex_from.simps; simp add: is_ws_def simple_token_def)

definition string_token :: "nat \<Rightarrow> filter_parse_error + rstring \<times> nat \<times> rstring \<Rightarrow> filter_parse_error + token list" where
  "string_token p res = (case res of Inl e \<Rightarrow> Inl e
     | Inr (val, next, rest) \<Rightarrow> emit_token (StringT val) p (lex_from next rest))"

lemma lex_quote: "lex_from p (QUOTE # r) = string_token p (lex_string p False (QUOTE # r))"
  by (subst lex_from.simps) (simp add: is_ws_def simple_token_def string_token_def)

lemma lex_raw: "lex_from p (114 # QUOTE # r) = string_token p (lex_string p True (114 # QUOTE # r))"
  by (subst lex_from.simps) (simp add: is_ws_def simple_token_def string_token_def)

lemma lex_word:
  assumes "\<not> ends_word c" "c \<noteq> QUOTE" "c \<noteq> 114 \<or> take 1 r \<noteq> [QUOTE]"
  defines "w \<equiv> takeWhile (\<lambda>c. \<not> ends_word c) (c # r)"
  shows "lex_from p (c # r) = emit_token (word_kind w) p
    (lex_from (p + utf8_len w) (dropWhile (\<lambda>c. \<not> ends_word c) (c # r)))"
  using assms(1-3) unfolding w_def
  by (subst lex_from.simps) (auto simp: ends_word_def simple_token_def Let_def)

lemma simple_token_ascii: "simple_token c = Some k \<Longrightarrow> len_utf8 c = 1"
  by (auto simp: simple_token_def len_utf8_def split: if_splits)

lemma lex_from_cases:
  obtains (ws) "is_ws c" | (simple) k where "simple_token c = Some k"
  | (equal) r' where "c = EQ_CHAR" "r = EQ_CHAR # r'" | (not_equal) r' where "c = BANG" "r = EQ_CHAR # r'"
  | (double_amp) r' where "c = AMP" "r = AMP # r'" | (double_bar) r' where "c = BAR" "r = BAR # r'"
  | (bang) "c = BANG" "take 1 r \<noteq> [EQ_CHAR]"
  | (bad) "c = EQ_CHAR \<or> c = AMP \<or> c = BAR" "take 1 r \<noteq> [c]"
  | (quote) "c = QUOTE" | (raw) r' where "c = 114" "r = QUOTE # r'"
  | (word) "\<not> ends_word c" "c \<noteq> QUOTE" "c \<noteq> 114 \<or> take 1 r \<noteq> [QUOTE]"
proof -
  have "is_ws c \<or> (\<exists>k. simple_token c = Some k) \<or> c \<in> {EQ_CHAR, BANG, AMP, BAR, QUOTE} \<or> \<not> ends_word c"
    by (auto simp: ends_word_def simple_token_def)
  then show thesis
    using that by (cases r) (auto split: if_splits)
qed

text \<open>One step of the lexer: it skips a blank, emits a token of what it takes, fails where it is, or reads a quoted string.\<close>

lemma lex_from_step:
  obtains (skip) "lex_from position (c # r) = lex_from (position + len_utf8 c) r"
  | (emit) k u t where "k \<noteq> EndT" "c # r = u @ t" "u \<noteq> []"
      "lex_from position (c # r) = emit_token k position (lex_from (position + utf8_len u) t)"
  | (bad) msg where "lex_from position (c # r) = Inl (filter_error position msg)"
  | (quoted) raw s' where "c # r = QUOTE # s' \<and> \<not> raw \<or> c # r = 114 # QUOTE # s' \<and> raw"
      "lex_from position (c # r) = string_token position (lex_string position raw (c # r))"
proof -
  note len = len_utf8_def utf8_len_Cons
  show thesis
  proof (rule lex_from_cases [where c = c and r = r], goal_cases ws simple equal not_equal double_amp double_bar bang bad quote raw word)
    case ws
    then show ?thesis by (intro skip lex_ws)
  next
    case (simple k)
    then show ?thesis using emit [of k "[c]" r] simple_token_not_End [OF simple] by (simp add: lex_simple utf8_len_Cons simple_token_ascii [OF simple])
  next
    case (equal r')
    then show ?thesis using emit [of EqualT "[c, EQ_CHAR]" r'] by (simp add: lex_equal len)
  next
    case (not_equal r')
    then show ?thesis using emit [of NotEqualT "[c, EQ_CHAR]" r'] by (simp add: lex_not_equal len)
  next
    case (double_amp r')
    then show ?thesis using emit [of AndT "[c, AMP]" r'] by (simp add: lex_and len)
  next
    case (double_bar r')
    then show ?thesis using emit [of OrT "[c, BAR]" r'] by (simp add: lex_or len)
  next
    case bang
    then show ?thesis using emit [of NotT "[c]" r] by (simp add: lex_not len)
  next
    case bad
    show ?thesis by (rule that(3)) (rule lex_bad_operator [OF bad])
  next
    case quote
    then show ?thesis using quoted [of r False] by (simp add: lex_quote)
  next
    case (raw r')
    then show ?thesis using quoted [of r' True] by (simp add: lex_raw)
  next
    case word
    let ?P = "\<lambda>c. \<not> ends_word c"
    have "takeWhile ?P (c # r) \<noteq> []" "c # r = takeWhile ?P (c # r) @ dropWhile ?P (c # r)" using word(1) by simp_all
    from emit [OF word_kind_not_End this(2,1) lex_word [OF word]] show ?thesis .
  qed
qed

lemma lex_from_ok: "lexed_ok (total_at position s) (lex_from position s)"
proof (induction "length s" arbitrary: position s rule: less_induct)
  case less
  show ?case
  proof (cases s)
    case Nil
    then show ?thesis by (simp add: lex_from.simps lexed_ok_def tokens_ok_def total_at_def)
  next
    case (Cons c r)
    have IH: "lexed_ok (total_at position s) (lex_from p t)"
      if "length t < length s" "total_at p t = total_at position s" for p t
      using less [OF that(1), of p] that(2) by simp
    have pos: "position \<le> total_at position s" by (simp add: total_at_def)
    show ?thesis
    proof (rule lex_from_step [of position c r], goal_cases skip emit bad quoted)
      case skip
      then show ?thesis using IH [of r] by (simp add: Cons total_at_def)
    next
      case (emit k u t)
      then have "lexed_ok (total_at position s) (lex_from (position + utf8_len u) t)"
        using IH [of t] by (simp add: Cons total_at_def)
      from lexed_ok_emit [OF this pos emit(1)] show ?thesis using emit(4) by (simp add: Cons)
    next
      case (bad msg)
      then show ?thesis using pos by (simp add: Cons)
    next
      case (quoted raw s')
      then show ?thesis
        using lex_string_position [OF quoted(1), of position] lex_string_length [of position raw c r] pos IH
        by (auto simp: string_token_def lexed_ok_def [of _ "Inl _"] Cons split: sum.split intro!: lexed_ok_emit)
    qed
  qed
qed

subsection \<open>Printing tokens\<close>

text \<open>A way to write each token, with string literals escaped where the lexer requires it.\<close>

definition escape_char :: "rchar \<Rightarrow> rstring" where
  "escape_char c = (if c = QUOTE \<or> c = BACKSLASH then [BACKSLASH, c] else [c])"

definition quote_string :: "rstring \<Rightarrow> rstring" where
  "quote_string v = QUOTE # concat (map escape_char v) @ [QUOTE]"

fun print_kind :: "token_kind \<Rightarrow> rstring" where
  "print_kind (WordT w) = w"
| "print_kind (StringT v) = quote_string v"
| "print_kind EqualT = [EQ_CHAR, EQ_CHAR]"
| "print_kind NotEqualT = [BANG, EQ_CHAR]"
| "print_kind ContainsT = lit ''contains''"
| "print_kind MatchesT = lit ''matches''"
| "print_kind InT = lit ''in''"
| "print_kind AndT = [AMP, AMP]"
| "print_kind OrT = [BAR, BAR]"
| "print_kind NotT = [BANG]"
| "print_kind LeftParenT = [LPAREN]"
| "print_kind RightParenT = [RPAREN]"
| "print_kind LeftBraceT = [LBRACE]"
| "print_kind RightBraceT = [RBRACE]"
| "print_kind CommaT = [COMMA]"
| "print_kind EndT = []"

definition print_kinds :: "token_kind list \<Rightarrow> rstring" where
  "print_kinds ks = join [32] (map print_kind ks)"

definition plain_word :: "rstring \<Rightarrow> bool" where
  "plain_word w \<longleftrightarrow> w \<noteq> [] \<and> (\<forall>c \<in> set w. \<not> ends_word c) \<and> hd w \<noteq> QUOTE
     \<and> take 2 w \<noteq> [114, QUOTE] \<and> word_kind w = WordT w"

fun writable :: "token_kind \<Rightarrow> bool" where
  "writable (WordT w) = plain_word w"
| "writable EndT = False"
| "writable _ = True"

lemma lex_string_loop_escaped:
  "lex_string_loop start False pos val (concat (map escape_char v) @ QUOTE # t) =
     Inr (val @ v, pos + utf8_len (concat (map escape_char v)) + 1, t)"
proof (induction v arbitrary: pos val)
  case Nil
  then show ?case by (simp add: len_utf8_def)
next
  case (Cons c v)
  then show ?case by (auto simp: escape_char_def Let_def unescape_def len_utf8_def)
qed

lemma lex_string_quoted:
  "lex_string start False (quote_string v @ t) = Inr (v, start + utf8_len (quote_string v), t)"
  by (simp add: lex_string_def quote_string_def lex_string_loop_escaped len_utf8_def)

lemma space_facts [simp]: "is_ws 32" "ends_word 32" "len_utf8 32 = 1"
  by (simp_all add: is_ws_def ends_word_def len_utf8_def)

lemma lex_word_at:
  assumes "w \<noteq> []" "\<forall>c \<in> set w. \<not> ends_word c" "hd w \<noteq> QUOTE" "take 2 w \<noteq> [114, QUOTE]" "t = [] \<or> hd t = 32"
  shows "lex_from p (w @ t) = emit_token (word_kind w) p (lex_from (p + utf8_len w) t)"
proof -
  obtain c r where w: "w = c # r" using assms(1) by (cases w) auto
  have "takeWhile (\<lambda>c. \<not> ends_word c) (w @ t) = w" "dropWhile (\<lambda>c. \<not> ends_word c) (w @ t) = t"
    using assms(2,5) by (cases t; auto simp: takeWhile_append dropWhile_append)+
  moreover have "c \<noteq> 114 \<or> take 1 (r @ t) \<noteq> [QUOTE]"
    using assms(4,5) by (cases r; cases t) (auto simp: w)
  ultimately show ?thesis
    using lex_word [of c "r @ t" p] assms(2,3) by (simp add: w)
qed

lemma keyword_lex:
  assumes "t = [] \<or> hd t = 32"
  shows "lex_from p (lit ''contains'' @ t) = emit_token ContainsT p (lex_from (p + utf8_len (lit ''contains'')) t)"
    and "lex_from p (lit ''matches'' @ t) = emit_token MatchesT p (lex_from (p + utf8_len (lit ''matches'')) t)"
    and "lex_from p (lit ''in'' @ t) = emit_token InT p (lex_from (p + utf8_len (lit ''in'')) t)"
proof -
  note facts = assms lit_def ends_word_def is_ws_def word_kind_def eq_ignore_case_def ascii_lower_def
  show "lex_from p (lit ''contains'' @ t) = emit_token ContainsT p (lex_from (p + utf8_len (lit ''contains'')) t)"
    by (subst lex_word_at) (auto simp: facts)
  show "lex_from p (lit ''matches'' @ t) = emit_token MatchesT p (lex_from (p + utf8_len (lit ''matches'')) t)"
    by (subst lex_word_at) (auto simp: facts)
  show "lex_from p (lit ''in'' @ t) = emit_token InT p (lex_from (p + utf8_len (lit ''in'')) t)"
    by (subst lex_word_at) (auto simp: facts)
qed

lemma lex_print_kind:
  assumes "writable k" "t = [] \<or> hd t = 32"
  shows "lex_from p (print_kind k @ t) = emit_token k p (lex_from (p + utf8_len (print_kind k)) t)"
proof (cases k)
  case (WordT w)
  then show ?thesis using assms by (auto simp: plain_word_def lex_word_at)
next
  case (StringT v)
  obtain s where s: "quote_string v @ t = QUOTE # s" by (simp add: quote_string_def)
  show ?thesis
    using lex_quote [of p s] lex_string_quoted [of p v t] by (simp add: StringT s string_token_def)
next
  case NotT
  then show ?thesis using assms(2) by (cases t) (auto simp: lex_not len_utf8_def)
next
  case ContainsT
  then show ?thesis using assms(2) keyword_lex(1) [of t p] by simp
next
  case MatchesT
  then show ?thesis using assms(2) keyword_lex(2) [of t p] by simp
next
  case InT
  then show ?thesis using assms(2) keyword_lex(3) [of t p] by simp
qed (use assms(1) in \<open>simp_all add: lex_equal lex_not_equal lex_and lex_or lex_simple simple_token_def len_utf8_def\<close>)

lemma lex_print_kinds:
  assumes "\<forall>k \<in> set ks. writable k" "ks \<noteq> []"
  shows "\<exists>ts. lex_from p (print_kinds ks) = Inr ts \<and> map tk_kind ts = ks @ [EndT]"
  using assms
proof (induction ks arbitrary: p)
  case (Cons k ks)
  show ?case
  proof (cases ks)
    case Nil
    then show ?thesis
      using lex_print_kind [of k "[]" p] Cons.prems by (simp add: print_kinds_def emit_token_def lex_from.simps)
  next
    case (Cons k' ks')
    have e: "print_kinds (k # ks) = print_kind k @ 32 # print_kinds ks"
      by (simp add: print_kinds_def Cons)
    obtain ts where "lex_from (p + utf8_len (print_kind k) + 1) (print_kinds ks) = Inr ts" "map tk_kind ts = ks @ [EndT]"
      using Cons.IH [of "p + utf8_len (print_kind k) + 1"] Cons.prems Cons by auto
    then show ?thesis
      using lex_print_kind [of k "32 # print_kinds ks" p] Cons.prems
      by (simp add: e lex_ws emit_token_def)
  qed
qed simp

end
