(* ===== verification/Display_Filter.thy ===== *)
theory Display_Filter
  imports Filter_Lex
begin

text \<open>
  The display-filter language of \<open>src/filter.rs\<close>: messages, expressions, the recursive-descent
  parser and the evaluation of a filter on a message.

  The parser's cursor only moves forward, so its state is the list of the tokens from the cursor
  on; \<open>tokens[cursor]\<close> past the end is the result \<open>Panic\<close>. The regex crate is a parameter: \<open>build\<close>
  compiles a pattern or gives the text of an error, \<open>is_match\<close> runs it.
\<close>

subsection \<open>Messages and expressions\<close>

datatype message_direction = FrontendToBackend | BackendToFrontend

record display_message =
  dm_timestamp :: rstring
  dm_rendered :: rstring
  dm_client :: socket_addr
  dm_direction :: message_direction
  dm_kind :: rstring
  dm_text :: rstring

datatype field = ClientIp | ClientPort | MessageType | MessageText | MessageDirection

datatype fvalue = IpV ip_addr | PortV u16 | TextV rstring | DirectionV message_direction

datatype 're comparison = EqualTo fvalue | NotEqualTo fvalue | Contains rstring | Matches 're | InSet "fvalue list"

datatype 're predicate = Predicate (pr_field: field) (pr_comparison: "'re comparison")

datatype 're expr = PredE "'re predicate" | AndE "'re expr" "'re expr" | OrE "'re expr" "'re expr" | NotE "'re expr"

fun field_name :: "field \<Rightarrow> rstring" where
  "field_name ClientIp = lit ''client.ip''"
| "field_name ClientPort = lit ''client.port''"
| "field_name MessageType = lit ''message.type''"
| "field_name MessageText = lit ''message.text''"
| "field_name MessageDirection = lit ''message.direction''"

definition field_parse :: "rstring \<Rightarrow> field option" where
  "field_parse v =
     (if v = lit ''client.ip'' then Some ClientIp
      else if v = lit ''client.port'' then Some ClientPort
      else if v = lit ''message.type'' then Some MessageType
      else if v = lit ''message.text'' then Some MessageText
      else if v = lit ''message.direction'' then Some MessageDirection
      else None)"

fun is_text :: "field \<Rightarrow> bool" where
  "is_text MessageType = True"
| "is_text MessageText = True"
| "is_text _ = False"

fun field_equals :: "field \<Rightarrow> fvalue \<Rightarrow> display_message \<Rightarrow> bool" where
  "field_equals ClientIp (IpV a) m = (fst (dm_client m) = a)"
| "field_equals ClientPort (PortV p) m = (snd (dm_client m) = p)"
| "field_equals MessageType (TextV t) m = (dm_kind m = t)"
| "field_equals MessageText (TextV t) m = (dm_text m = t)"
| "field_equals MessageDirection (DirectionV d) m = (dm_direction m = d)"
| "field_equals _ _ m = False"

fun field_text :: "field \<Rightarrow> display_message \<Rightarrow> rstring option" where
  "field_text MessageType m = Some (dm_kind m)"
| "field_text MessageText m = Some (dm_text m)"
| "field_text _ m = None"

fun predicate_matches :: "('re \<Rightarrow> rstring \<Rightarrow> bool) \<Rightarrow> 're predicate \<Rightarrow> display_message \<Rightarrow> bool" where
  "predicate_matches is_match (Predicate f (EqualTo v)) m = field_equals f v m"
| "predicate_matches is_match (Predicate f (NotEqualTo v)) m = (\<not> field_equals f v m)"
| "predicate_matches is_match (Predicate f (Contains needle)) m =
     (case field_text f m of Some t \<Rightarrow> str_contains t needle | None \<Rightarrow> False)"
| "predicate_matches is_match (Predicate f (Matches re)) m =
     (case field_text f m of Some t \<Rightarrow> is_match re t | None \<Rightarrow> False)"
| "predicate_matches is_match (Predicate f (InSet vs)) m = list_ex (\<lambda>v. field_equals f v m) vs"

fun expr_matches :: "('re \<Rightarrow> rstring \<Rightarrow> bool) \<Rightarrow> 're expr \<Rightarrow> display_message \<Rightarrow> bool" where
  "expr_matches is_match (PredE p) m = predicate_matches is_match p m"
| "expr_matches is_match (AndE l r) m = (expr_matches is_match l m \<and> expr_matches is_match r m)"
| "expr_matches is_match (OrE l r) m = (expr_matches is_match l m \<or> expr_matches is_match r m)"
| "expr_matches is_match (NotE e) m = (\<not> expr_matches is_match e m)"

subsection \<open>Parser results\<close>

datatype 'a pres = Panic | Fail filter_parse_error | Done 'a "token list"

fun pbind :: "'a pres \<Rightarrow> ('a \<Rightarrow> token list \<Rightarrow> 'b pres) \<Rightarrow> 'b pres" where
  "pbind Panic f = Panic"
| "pbind (Fail e) f = Fail e"
| "pbind (Done a ts) f = f a ts"

lemma pbind_cong [fundef_cong]:
  "r = r' \<Longrightarrow> (\<And>a ts. r' = Done a ts \<Longrightarrow> f a ts = g a ts) \<Longrightarrow> pbind r f = pbind r' g"
  by (cases r') auto

lemma pbind_Done: "pbind r f = Done b ts \<longleftrightarrow> (\<exists>a rs. r = Done a rs \<and> f a rs = Done b ts)"
  by (cases r) auto

definition take_token :: "token list \<Rightarrow> token pres" where
  "take_token ts = (case ts of [] \<Rightarrow> Panic | t # r \<Rightarrow> Done t (if tk_kind t = EndT then ts else r))"

definition take_if :: "token_kind \<Rightarrow> token list \<Rightarrow> bool pres" where
  "take_if k ts = (case ts of [] \<Rightarrow> Panic | t # r \<Rightarrow> if tk_kind t = k then Done True r else Done False ts)"

definition error_here :: "rstring \<Rightarrow> token list \<Rightarrow> 'a pres" where
  "error_here msg ts = (case ts of [] \<Rightarrow> Panic | t # r \<Rightarrow> Fail (filter_error (tk_position t) msg))"

definition expect :: "token_kind \<Rightarrow> rstring \<Rightarrow> token list \<Rightarrow> unit pres" where
  "expect k msg ts = (case ts of [] \<Rightarrow> Panic | t # r \<Rightarrow> if tk_kind t = k then Done () r else error_here msg ts)"

definition peek :: "token list \<Rightarrow> token pres" where
  "peek ts = (case ts of [] \<Rightarrow> Panic | t # r \<Rightarrow> Done t ts)"

definition fail_at :: "token \<Rightarrow> rstring \<Rightarrow> 'a pres" where
  "fail_at t msg = Fail (filter_error (tk_position t) msg)"

subsection \<open>Values\<close>

definition token_value :: "token \<Rightarrow> rstring option" where
  "token_value t = (case tk_kind t of WordT v \<Rightarrow> Some v | StringT v \<Rightarrow> Some v | _ \<Rightarrow> None)"

definition parse_direction :: "rstring \<Rightarrow> message_direction option" where
  "parse_direction v =
     (if eq_ignore_case v (lit ''f2b'') \<or> v = [70, arrow, 66] then Some FrontendToBackend
      else if eq_ignore_case v (lit ''b2f'') \<or> v = [66, arrow, 70] then Some BackendToFrontend
      else None)"

definition quoted :: "rstring \<Rightarrow> rstring" where
  "quoted s = [39] @ s @ [39]"

definition value_of_token :: "field \<Rightarrow> token \<Rightarrow> filter_parse_error + fvalue" where
  "value_of_token f t =
     (let fail = (\<lambda>msg. Inl (filter_error (tk_position t) msg)) in
      case f of
        ClientIp \<Rightarrow>
          (case token_value t of
             None \<Rightarrow> fail (lit ''client.ip requires an IP address'')
           | Some v \<Rightarrow> (case parse_ip_addr v of Some a \<Rightarrow> Inr (IpV a)
               | None \<Rightarrow> fail (lit ''invalid IP address '' @ quoted v)))
      | ClientPort \<Rightarrow>
          (case tk_kind t of
             WordT v \<Rightarrow> (case parse_u16 v of Some p \<Rightarrow> Inr (PortV p)
               | None \<Rightarrow> fail (lit ''invalid client port '' @ quoted v))
           | _ \<Rightarrow> fail (lit ''client.port requires an integer''))
      | MessageDirection \<Rightarrow>
          (case tk_kind t of
             StringT v \<Rightarrow> (case parse_direction v of Some d \<Rightarrow> Inr (DirectionV d)
               | None \<Rightarrow> fail (lit ''invalid direction '' @ quoted v @ lit '' (expected f2b or b2f)''))
           | _ \<Rightarrow> fail (lit ''message.direction requires a quoted string''))
      | _ \<Rightarrow>
          (case tk_kind t of
             StringT v \<Rightarrow> Inr (TextV v)
           | _ \<Rightarrow> fail (field_name f @ lit '' requires a quoted string'')))"

definition lift_result :: "filter_parse_error + 'a \<Rightarrow> token list \<Rightarrow> 'a pres" where
  "lift_result r ts = (case r of Inl e \<Rightarrow> Fail e | Inr a \<Rightarrow> Done a ts)"

lemma lift_result_Done: "lift_result x ts = Done a r \<longleftrightarrow> x = Inr a \<and> r = ts"
  by (cases x) (auto simp: lift_result_def)

definition parse_value :: "field \<Rightarrow> token list \<Rightarrow> fvalue pres" where
  "parse_value f ts = pbind (take_token ts) (\<lambda>t r. lift_result (value_of_token f t) r)"

definition parse_string :: "rstring \<Rightarrow> token list \<Rightarrow> rstring pres" where
  "parse_string msg ts = pbind (take_token ts)
     (\<lambda>t r. case tk_kind t of StringT v \<Rightarrow> Done v r | _ \<Rightarrow> fail_at t msg)"

lemma take_token_Done: "take_token ts = Done t r \<Longrightarrow> tk_kind t \<noteq> EndT \<Longrightarrow> ts = t # r"
  by (auto simp: take_token_def split: list.splits if_splits)

lemma take_token_length: "take_token ts = Done t r \<Longrightarrow> length r \<le> length ts"
  by (auto simp: take_token_def split: list.splits if_splits)

lemma value_of_End: "tk_kind t = EndT \<Longrightarrow> \<exists>e. value_of_token f t = Inl e"
  by (cases f) (auto simp: value_of_token_def token_value_def Let_def)

lemma parse_value_Done:
  "parse_value f ts = Done v r \<longleftrightarrow> (\<exists>t. ts = t # r \<and> tk_kind t \<noteq> EndT \<and> value_of_token f t = Inr v)"
proof
  assume "parse_value f ts = Done v r"
  then obtain t r' where t: "take_token ts = Done t r'" "value_of_token f t = Inr v" "r = r'"
    by (auto simp: parse_value_def pbind_Done lift_result_Done)
  then have "tk_kind t \<noteq> EndT" using value_of_End [of t f] by auto
  then show "\<exists>t. ts = t # r \<and> tk_kind t \<noteq> EndT \<and> value_of_token f t = Inr v"
    using t take_token_Done by blast
qed (auto simp: parse_value_def take_token_def lift_result_def)

function parse_set_loop :: "field \<Rightarrow> fvalue list \<Rightarrow> token list \<Rightarrow> fvalue list pres" where
  "parse_set_loop f vs ts =
     pbind (parse_value f ts) (\<lambda>v r.
     pbind (take_if CommaT r) (\<lambda>comma r.
       if comma
       then pbind (peek r) (\<lambda>t r.
              if tk_kind t = RightBraceT then error_here (lit ''expected a value after '' @ quoted [44]) r
              else parse_set_loop f (vs @ [v]) r)
       else pbind (expect RightBraceT (lit ''expected '' @ quoted [44] @ lit '' or '' @ quoted [125] @ lit '' in set'') r)
              (\<lambda>u r. Done (vs @ [v]) r)))"
  by pat_completeness auto
termination
  by (relation "measure (\<lambda>(f, vs, ts). length ts)")
    (auto simp: parse_value_Done take_if_def peek_def split: list.splits if_splits)

declare parse_set_loop.simps [simp del]

definition parse_set :: "field \<Rightarrow> token list \<Rightarrow> fvalue list pres" where
  "parse_set f ts =
     pbind (expect LeftBraceT (lit ''expected '' @ quoted [123] @ lit '' after '' @ quoted (lit ''in'')) ts) (\<lambda>u r.
     pbind (peek r) (\<lambda>t r.
       if tk_kind t = RightBraceT then error_here (lit ''set cannot be empty'') r
       else parse_set_loop f [] r))"

definition require_text_field :: "field \<Rightarrow> token \<Rightarrow> rstring \<Rightarrow> token list \<Rightarrow> unit pres" where
  "require_text_field f t operator ts =
     (if is_text f then Done () ts
      else fail_at t (lit ''operator '' @ quoted operator @ lit '' is not valid for '' @ quoted (field_name f)))"

subsection \<open>Predicates\<close>

definition parse_comparison :: "(rstring \<Rightarrow> rstring + 're) \<Rightarrow> field \<Rightarrow> token \<Rightarrow> token list \<Rightarrow> 're comparison pres" where
  "parse_comparison build f operator r =
     (case tk_kind operator of
        EqualT \<Rightarrow> pbind (parse_value f r) (\<lambda>v r. Done (EqualTo v) r)
      | NotEqualT \<Rightarrow> pbind (parse_value f r) (\<lambda>v r. Done (NotEqualTo v) r)
      | ContainsT \<Rightarrow>
          pbind (require_text_field f operator (lit ''contains'') r) (\<lambda>u r.
          pbind (parse_string (lit ''contains requires a quoted string'') r) (\<lambda>s r.
            Done (Contains s) r))
      | MatchesT \<Rightarrow>
          pbind (require_text_field f operator (lit ''matches'') r) (\<lambda>u r.
          pbind (peek r) (\<lambda>t r.
          pbind (parse_string (lit ''matches requires a quoted string'') r) (\<lambda>pattern r.
            case build pattern of
              Inl msg \<Rightarrow> fail_at t (lit ''invalid regex: '' @ msg)
            | Inr re \<Rightarrow> Done (Matches re) r)))
      | InT \<Rightarrow> pbind (parse_set f r) (\<lambda>vs r. Done (InSet vs) r)
      | _ \<Rightarrow> fail_at operator (lit ''expected an operator after '' @ quoted (field_name f)
                 @ lit '' (==, !=, contains, matches, or in)''))"

definition parse_predicate :: "(rstring \<Rightarrow> rstring + 're) \<Rightarrow> token list \<Rightarrow> 're predicate pres" where
  "parse_predicate build ts =
     pbind (take_token ts) (\<lambda>field_token r.
       case tk_kind field_token of
         WordT name \<Rightarrow>
           (case field_parse name of
              None \<Rightarrow> fail_at field_token (lit ''unknown filter field '' @ quoted name)
            | Some f \<Rightarrow>
                pbind (take_token r) (\<lambda>operator r.
                pbind (parse_comparison build f operator r) (\<lambda>c r.
                  Done (Predicate f c) r)))
       | _ \<Rightarrow> fail_at field_token (lit ''expected a filter field''))"

text \<open>What each step consumes.\<close>

lemma take_if_Done:
  "take_if k ts = Done b r \<longleftrightarrow> (\<exists>t rest. ts = t # rest \<and>
     (if tk_kind t = k then b \<and> r = rest else \<not> b \<and> r = ts))"
  by (cases ts) (auto simp: take_if_def)

lemma expect_Done: "expect k msg ts = Done u r \<longleftrightarrow> (\<exists>t. ts = t # r \<and> tk_kind t = k)"
  by (cases ts) (auto simp: expect_def error_here_def)

lemma peek_Done: "peek ts = Done t r \<longleftrightarrow> r = ts \<and> ts \<noteq> [] \<and> t = hd ts"
  by (cases ts) (auto simp: peek_def)

lemma parse_string_Done:
  "parse_string msg ts = Done v r \<longleftrightarrow> (\<exists>t. ts = t # r \<and> tk_kind t = StringT v)"
  by (cases ts) (auto simp: parse_string_def take_token_def fail_at_def split: token_kind.splits)

lemma require_text_Done: "require_text_field f t op ts = Done u r \<longleftrightarrow> is_text f \<and> r = ts"
  by (auto simp: require_text_field_def fail_at_def)

lemma error_here_not_Done [simp]: "error_here msg ts \<noteq> Done a r" "fail_at t msg \<noteq> Done a r"
  by (auto simp: error_here_def fail_at_def split: list.splits)

lemma parse_set_loop_Done:
  "parse_set_loop f vs ts = Done ws r \<longleftrightarrow>
     (\<exists>t v t' rest. ts = t # t' # rest \<and> tk_kind t \<noteq> EndT \<and> value_of_token f t = Inr v
        \<and> (if tk_kind t' = CommaT
            then rest \<noteq> [] \<and> tk_kind (hd rest) \<noteq> RightBraceT \<and> parse_set_loop f (vs @ [v]) rest = Done ws r
            else tk_kind t' = RightBraceT \<and> ws = vs @ [v] \<and> r = rest))"
proof (cases ts rule: remdups_adj.cases)
  case (3 t t' rest)
  show ?thesis
  proof (cases "value_of_token f t")
    case (Inl e)
    then show ?thesis
      by (auto simp: 3 parse_set_loop.simps [of f vs "t # t' # rest"] pbind_Done parse_value_Done)
  next
    case (Inr v)
    then have "tk_kind t \<noteq> EndT" using value_of_End [of t f] by auto
    then show ?thesis using Inr unfolding 3
      by (subst parse_set_loop.simps, cases rest)
        (auto simp: parse_value_def take_token_def lift_result_def take_if_def peek_def expect_def error_here_def)
  qed
next
  case 1
  then show ?thesis by (subst parse_set_loop.simps) (auto simp: pbind_Done parse_value_Done)
next
  case (2 t)
  then show ?thesis
    by (subst parse_set_loop.simps) (auto simp: pbind_Done parse_value_Done take_if_Done)
qed

lemma parse_set_loop_length: "parse_set_loop f vs ts = Done ws r \<Longrightarrow> length r < length ts"
proof (induction "length ts" arbitrary: vs ts rule: less_induct)
  case less
  from less.prems show ?case
    unfolding parse_set_loop_Done [of f vs ts] by (auto split: if_splits dest: less.hyps [rotated])
qed

lemma parse_set_length: "parse_set f ts = Done ws r \<Longrightarrow> length r < length ts"
  by (auto simp: parse_set_def pbind_Done expect_Done peek_Done split: if_splits dest!: parse_set_loop_length)

lemma regex_case_Done:
  "(case x of Inl m \<Rightarrow> fail_at t (g m) | Inr re \<Rightarrow> Done (h re) r) = Done c r' \<longleftrightarrow>
     (\<exists>re. x = Inr re \<and> c = h re \<and> r' = r)"
  by (cases x) auto

lemma parse_comparison_Done:
  assumes "parse_comparison build f op ts = Done c r"
  shows "length r < length ts \<and> tk_kind op \<noteq> EndT"
  using assms
  by (cases "tk_kind op")
    (auto simp: parse_comparison_def pbind_Done parse_value_Done require_text_Done peek_Done parse_string_Done
      regex_case_Done dest!: parse_set_length)

lemma parse_predicate_Done:
  "parse_predicate build ts = Done p r \<longleftrightarrow>
     (\<exists>t name f op rest c. ts = t # op # rest \<and> tk_kind t = WordT name \<and> field_parse name = Some f
        \<and> parse_comparison build f op rest = Done c r \<and> p = Predicate f c)"
proof
  assume "parse_predicate build ts = Done p r"
  then obtain t r1 where t: "take_token ts = Done t r1" and 1: "(case tk_kind t of
         WordT name \<Rightarrow>
           (case field_parse name of
              None \<Rightarrow> fail_at t (lit ''unknown filter field '' @ quoted name)
            | Some f \<Rightarrow>
                pbind (take_token r1) (\<lambda>operator r.
                pbind (parse_comparison build f operator r) (\<lambda>c r.
                  Done (Predicate f c) r)))
       | _ \<Rightarrow> fail_at t (lit ''expected a filter field'')) = Done p r"
    unfolding parse_predicate_def pbind_Done by blast
  then obtain name f op r2 c where "tk_kind t = WordT name" "field_parse name = Some f"
    "take_token r1 = Done op r2" "parse_comparison build f op r2 = Done c r" "p = Predicate f c"
    by (auto simp: pbind_Done split: token_kind.splits option.splits)
  moreover from this have "ts = t # r1" "r1 = op # r2"
    using t take_token_Done parse_comparison_Done by fastforce+
  ultimately show "\<exists>t name f op rest c. ts = t # op # rest \<and> tk_kind t = WordT name \<and> field_parse name = Some f
        \<and> parse_comparison build f op rest = Done c r \<and> p = Predicate f c" by blast
next
  assume "\<exists>t name f op rest c. ts = t # op # rest \<and> tk_kind t = WordT name \<and> field_parse name = Some f
        \<and> parse_comparison build f op rest = Done c r \<and> p = Predicate f c"
  then obtain t name f op rest c where h: "ts = t # op # rest" "tk_kind t = WordT name" "field_parse name = Some f"
    "parse_comparison build f op rest = Done c r" "p = Predicate f c" by blast
  then have "tk_kind op \<noteq> EndT" using parse_comparison_Done by blast
  then show "parse_predicate build ts = Done p r"
    using h by (simp add: parse_predicate_def take_token_def)
qed

lemma parse_predicate_length: "parse_predicate build ts = Done p r \<Longrightarrow> length r < length ts"
  unfolding parse_predicate_Done by (auto dest!: parse_comparison_Done)

subsection \<open>Expressions\<close>

function parse_or :: "(rstring \<Rightarrow> rstring + 're) \<Rightarrow> token list \<Rightarrow> 're expr pres"
  and parse_or_loop :: "(rstring \<Rightarrow> rstring + 're) \<Rightarrow> 're expr \<Rightarrow> token list \<Rightarrow> 're expr pres"
  and parse_and :: "(rstring \<Rightarrow> rstring + 're) \<Rightarrow> token list \<Rightarrow> 're expr pres"
  and parse_and_loop :: "(rstring \<Rightarrow> rstring + 're) \<Rightarrow> 're expr \<Rightarrow> token list \<Rightarrow> 're expr pres"
  and parse_not :: "(rstring \<Rightarrow> rstring + 're) \<Rightarrow> token list \<Rightarrow> 're expr pres"
  and parse_primary :: "(rstring \<Rightarrow> rstring + 're) \<Rightarrow> token list \<Rightarrow> 're expr pres" where
  "parse_or build ts = pbind (parse_and build ts) (\<lambda>e r. parse_or_loop build e r)"
| "parse_or_loop build e ts =
     pbind (take_if OrT ts) (\<lambda>b r.
       if b then pbind (parse_and build r) (\<lambda>e' r. parse_or_loop build (OrE e e') r)
       else Done e r)"
| "parse_and build ts = pbind (parse_not build ts) (\<lambda>e r. parse_and_loop build e r)"
| "parse_and_loop build e ts =
     pbind (take_if AndT ts) (\<lambda>b r.
       if b then pbind (parse_not build r) (\<lambda>e' r. parse_and_loop build (AndE e e') r)
       else Done e r)"
| "parse_not build ts =
     pbind (take_if NotT ts) (\<lambda>b r.
       if b then pbind (parse_not build r) (\<lambda>e r. Done (NotE e) r)
       else parse_primary build r)"
| "parse_primary build ts =
     pbind (take_if LeftParenT ts) (\<lambda>b r.
       if b
       then pbind (parse_or build r) (\<lambda>e r.
            pbind (expect RightParenT (lit ''expected '' @ quoted [41]) r) (\<lambda>u r. Done e r))
       else pbind (parse_predicate build r) (\<lambda>p r. Done (PredE p) r))"
  by pat_completeness auto

lemma parse_consumes:
  fixes b1 b2 b3 b4 b5 b6 :: "rstring \<Rightarrow> rstring + 're"
  shows "parse_or_parse_or_loop_parse_and_parse_and_loop_parse_not_parse_primary_dom (Inl (Inl (b1, ts1))) \<Longrightarrow> \<forall>e r. parse_or b1 ts1 = Done e r \<longrightarrow> length r < length ts1"
  "parse_or_parse_or_loop_parse_and_parse_and_loop_parse_not_parse_primary_dom (Inl (Inr (Inl (b2, e2, ts2)))) \<Longrightarrow> \<forall>e r. parse_or_loop b2 e2 ts2 = Done e r \<longrightarrow> length r \<le> length ts2"
  "parse_or_parse_or_loop_parse_and_parse_and_loop_parse_not_parse_primary_dom (Inl (Inr (Inr (b3, ts3)))) \<Longrightarrow> \<forall>e r. parse_and b3 ts3 = Done e r \<longrightarrow> length r < length ts3"
  "parse_or_parse_or_loop_parse_and_parse_and_loop_parse_not_parse_primary_dom (Inr (Inl (b4, e4, ts4))) \<Longrightarrow> \<forall>e r. parse_and_loop b4 e4 ts4 = Done e r \<longrightarrow> length r \<le> length ts4"
  "parse_or_parse_or_loop_parse_and_parse_and_loop_parse_not_parse_primary_dom (Inr (Inr (Inl (b5, ts5)))) \<Longrightarrow> \<forall>e r. parse_not b5 ts5 = Done e r \<longrightarrow> length r < length ts5"
  "parse_or_parse_or_loop_parse_and_parse_and_loop_parse_not_parse_primary_dom (Inr (Inr (Inr (b6, ts6)))) \<Longrightarrow> \<forall>e r. parse_primary b6 ts6 = Done e r \<longrightarrow> length r < length ts6"
proof (induction b1 ts1 and b2 e2 ts2 and b3 ts3 and b4 e4 ts4 and b5 ts5 and b6 ts6
    rule: parse_or_parse_or_loop_parse_and_parse_and_loop_parse_not_parse_primary.pinduct)
  case (1 build ts)
  then show ?case by (fastforce simp: parse_or.psimps pbind_Done)
next
  case (2 build e ts)
  then show ?case
    by (fastforce simp: parse_or_loop.psimps pbind_Done take_if_Done split: if_splits)
next
  case (3 build ts)
  then show ?case by (fastforce simp: parse_and.psimps pbind_Done)
next
  case (4 build e ts)
  then show ?case
    by (fastforce simp: parse_and_loop.psimps pbind_Done take_if_Done split: if_splits)
next
  case (5 build ts)
  then show ?case
    by (fastforce simp: parse_not.psimps pbind_Done take_if_Done split: if_splits)
next
  case (6 build ts)
  then show ?case
    by (fastforce simp: parse_primary.psimps pbind_Done take_if_Done expect_Done split: if_splits
        dest: parse_predicate_length)
qed

termination parse_or
proof (relation "measure (case_sum
    (case_sum (\<lambda>(b, ts). 6 * length ts + 5)
      (case_sum (\<lambda>(b, e, ts). 6 * length ts + 5) (\<lambda>(b, ts). 6 * length ts + 4)))
    (case_sum (\<lambda>(b, e, ts). 6 * length ts + 4)
      (case_sum (\<lambda>(b, ts). 6 * length ts + 3) (\<lambda>(b, ts). 6 * length ts + 2))))", goal_cases)
qed (auto simp: take_if_Done split: if_splits dest!: parse_consumes(3,5)[rule_format, rotated])

declare parse_or.simps [simp del] parse_or_loop.simps [simp del] parse_and.simps [simp del]
  parse_and_loop.simps [simp del] parse_not.simps [simp del] parse_primary.simps [simp del]

subsection \<open>Filters\<close>

record 're display_filter =
  df_expression :: rstring
  df_root :: "'re expr option"

definition default_filter :: "'re display_filter" where
  "default_filter = \<lparr> df_expression = [], df_root = None \<rparr>"

definition parse_tokens :: "(rstring \<Rightarrow> rstring + 're) \<Rightarrow> token list \<Rightarrow> 're expr pres" where
  "parse_tokens build ts =
     pbind (parse_or build ts) (\<lambda>e r.
     pbind (peek r) (\<lambda>t r.
       if tk_kind t = EndT then Done e r
       else error_here (lit ''expected a boolean operator or end of expression'') r))"

text \<open>\<open>DisplayFilter::parse\<close>; \<open>None\<close> is a panic.\<close>

definition filter_parse ::
    "(rstring \<Rightarrow> rstring + 're) \<Rightarrow> rstring \<Rightarrow> (filter_parse_error + 're display_filter) run" where
  "filter_parse build expression =
     (let expression = trim expression in
      if expression = [] then Some (Inr default_filter)
      else case lex expression of
        Inl e \<Rightarrow> Some (Inl e)
      | Inr ts \<Rightarrow>
          (case parse_tokens build ts of
             Panic \<Rightarrow> None
           | Fail e \<Rightarrow> Some (Inl e)
           | Done root r \<Rightarrow> Some (Inr \<lparr> df_expression = expression, df_root = Some root \<rparr>)))"

definition filter_is_empty :: "'re display_filter \<Rightarrow> bool" where
  "filter_is_empty f = (df_root f = None)"

definition filter_matches :: "('re \<Rightarrow> rstring \<Rightarrow> bool) \<Rightarrow> 're display_filter \<Rightarrow> display_message \<Rightarrow> bool" where
  "filter_matches is_match f m = (case df_root f of None \<Rightarrow> True | Some e \<Rightarrow> expr_matches is_match e m)"

subsection \<open>The parser stays within the tokens\<close>

text \<open>\<open>stays end P r\<close>: a result that is not a panic, whose error position is at most \<open>end\<close>, and whose
  value satisfies \<open>P\<close> with tokens left, still ending with the end marker.\<close>

definition stays :: "nat \<Rightarrow> ('a \<Rightarrow> bool) \<Rightarrow> 'a pres \<Rightarrow> bool" where
  "stays end P r = (case r of Panic \<Rightarrow> False | Fail e \<Rightarrow> err_position e \<le> end | Done a ts \<Rightarrow> P a \<and> tokens_ok end ts)"

lemma stays_bind:
  "stays end P r \<Longrightarrow> (\<And>a ts. r = Done a ts \<Longrightarrow> P a \<Longrightarrow> tokens_ok end ts \<Longrightarrow> stays end Q (f a ts)) \<Longrightarrow>
     stays end Q (pbind r f)"
  by (cases r) (auto simp: stays_def)

lemma stays_Done [simp]: "stays end P (Done a ts) \<longleftrightarrow> P a \<and> tokens_ok end ts"
  by (simp add: stays_def)

lemma stays_Fail [simp]: "stays end P (Fail e) \<longleftrightarrow> err_position e \<le> end"
  by (simp add: stays_def)

lemma tokens_okE:
  assumes "tokens_ok end ts"
  obtains t r where "ts = t # r" "tokens_ok end (t # r)" "tk_position t \<le> end" "tk_kind t \<noteq> EndT \<Longrightarrow> tokens_ok end r"
proof -
  obtain t r where ts: "ts = t # r" using assms by (cases ts) (auto simp: tokens_ok_def)
  moreover have "tokens_ok end r" if "tk_kind t \<noteq> EndT"
    using assms that by (cases r) (auto simp: tokens_ok_def ts split: if_splits)
  moreover have "tk_position t \<le> end" using assms by (simp add: tokens_ok_def ts)
  ultimately show thesis using that [of t r] assms by simp
qed

lemma stays_take:
  "tokens_ok end ts \<Longrightarrow> stays end (\<lambda>t. tk_position t \<le> end) (take_token ts)"
  by (erule tokens_okE) (auto simp: take_token_def)

lemma stays_take_if: "tokens_ok end ts \<Longrightarrow> k \<noteq> EndT \<Longrightarrow> stays end (\<lambda>b. True) (take_if k ts)"
  by (erule tokens_okE) (auto simp: take_if_def)

lemma stays_error: "tokens_ok end ts \<Longrightarrow> stays end P (error_here msg ts)"
  by (erule tokens_okE) (auto simp: error_here_def filter_error_def)

lemma stays_expect: "tokens_ok end ts \<Longrightarrow> k \<noteq> EndT \<Longrightarrow> stays end (\<lambda>u. True) (expect k msg ts)"
  by (erule tokens_okE) (auto simp: expect_def error_here_def filter_error_def)

lemma stays_peek: "tokens_ok end ts \<Longrightarrow> stays end (\<lambda>t. tk_position t \<le> end) (peek ts)"
  by (erule tokens_okE) (auto simp: peek_def)

lemma stays_fail: "tk_position t \<le> end \<Longrightarrow> stays end P (fail_at t msg)"
  by (simp add: fail_at_def filter_error_def)

text \<open>The values a field accepts, and the predicates that are well typed.\<close>

fun value_fits :: "field \<Rightarrow> fvalue \<Rightarrow> bool" where
  "value_fits ClientIp (IpV a) = True"
| "value_fits ClientPort (PortV p) = True"
| "value_fits MessageType (TextV t) = True"
| "value_fits MessageText (TextV t) = True"
| "value_fits MessageDirection (DirectionV d) = True"
| "value_fits f v = False"

fun comparison_fits :: "field \<Rightarrow> 're comparison \<Rightarrow> bool" where
  "comparison_fits f (EqualTo v) = value_fits f v"
| "comparison_fits f (NotEqualTo v) = value_fits f v"
| "comparison_fits f (Contains s) = is_text f"
| "comparison_fits f (Matches re) = is_text f"
| "comparison_fits f (InSet vs) = (vs \<noteq> [] \<and> list_all (value_fits f) vs)"

fun well_typed :: "'re expr \<Rightarrow> bool" where
  "well_typed (PredE p) = comparison_fits (pr_field p) (pr_comparison p)"
| "well_typed (AndE l r) = (well_typed l \<and> well_typed r)"
| "well_typed (OrE l r) = (well_typed l \<and> well_typed r)"
| "well_typed (NotE e) = well_typed e"

lemma value_of_token_fits: "value_of_token f t = Inr v \<Longrightarrow> value_fits f v"
  by (cases f) (auto simp: value_of_token_def Let_def split: option.splits token_kind.splits)

lemma value_of_token_error: "value_of_token f t = Inl e \<Longrightarrow> err_position e = tk_position t"
  by (cases f) (auto simp: value_of_token_def Let_def filter_error_def split: option.splits token_kind.splits)

lemma stays_value: "tokens_ok end ts \<Longrightarrow> stays end (value_fits f) (parse_value f ts)"
  unfolding parse_value_def
  by (rule stays_bind [OF stays_take])
    (auto simp: lift_result_def split: sum.split dest: value_of_token_error value_of_token_fits)

lemma stays_string: "tokens_ok end ts \<Longrightarrow> stays end (\<lambda>s. True) (parse_string msg ts)"
  unfolding parse_string_def
  by (rule stays_bind [OF stays_take]) (auto split: token_kind.split intro: stays_fail)

lemma stays_set_loop:
  "tokens_ok end ts \<Longrightarrow> list_all (value_fits f) vs \<Longrightarrow>
     stays end (\<lambda>vs. vs \<noteq> [] \<and> list_all (value_fits f) vs) (parse_set_loop f vs ts)"
proof (induction f vs ts rule: parse_set_loop.induct)
  case (1 f vs ts)
  show ?case
    unfolding parse_set_loop.simps [of f vs ts]
  proof (rule stays_bind [OF stays_value [OF "1.prems"(1)]], rule stays_bind [OF stays_take_if])
    fix v r comma r'
    assume v: "parse_value f ts = Done v r" "value_fits f v" and r: "tokens_ok end r"
      and comma: "take_if CommaT r = Done comma r'" and r': "tokens_ok end r'"
    show "stays end (\<lambda>vs. vs \<noteq> [] \<and> list_all (value_fits f) vs)
      (if comma
       then pbind (peek r') (\<lambda>t r.
              if tk_kind t = RightBraceT then error_here (lit ''expected a value after '' @ quoted [44]) r
              else parse_set_loop f (vs @ [v]) r)
       else pbind (expect RightBraceT (lit ''expected '' @ quoted [44] @ lit '' or '' @ quoted [125] @ lit '' in set'') r')
              (\<lambda>u r. Done (vs @ [v]) r))"
    proof (cases comma)
      case True
      have "stays end (\<lambda>vs. vs \<noteq> [] \<and> list_all (value_fits f) vs) (parse_set_loop f (vs @ [v]) r'')"
        if "peek r' = Done t r''" "tk_kind t \<noteq> RightBraceT" "tokens_ok end r''" for t r''
        using "1.IH" [OF v(1) comma True that(1,2)] that(3) v(2) "1.prems"(2) by simp
      then show ?thesis
        using True by (auto intro!: stays_bind [OF stays_peek [OF r']] stays_error)
    next
      case False
      then show ?thesis
        using v(2) "1.prems"(2) by (auto intro!: stays_bind [OF stays_expect [OF r']])
    qed
  qed auto
qed

lemma stays_set:
  "tokens_ok end ts \<Longrightarrow> stays end (\<lambda>vs. vs \<noteq> [] \<and> list_all (value_fits f) vs) (parse_set f ts)"
  unfolding parse_set_def
  by (rule stays_bind [OF stays_expect], simp, simp, rule stays_bind [OF stays_peek], simp)
    (auto intro: stays_error stays_set_loop)

lemma stays_comparison:
  assumes "tokens_ok end ts" "tk_position op \<le> end"
  shows "stays end (comparison_fits f) (parse_comparison build f op ts)"
proof -
  have textual: "stays end (\<lambda>u. is_text f) (require_text_field f op s ts)" for s
    using assms by (auto simp: require_text_field_def intro: stays_fail)
  have val: "stays end (comparison_fits f) (pbind (parse_value f ts) (\<lambda>v r. Done (C v) r))"
    if "\<And>v. value_fits f v \<Longrightarrow> comparison_fits f (C v)" for C :: "fvalue \<Rightarrow> 'a comparison"
    using that by (auto intro!: stays_bind [OF stays_value [OF assms(1)]])
  have contains: "stays end (comparison_fits f)
      (pbind (require_text_field f op s ts) (\<lambda>u r. pbind (parse_string msg r) (\<lambda>s r. Done (Contains s) r)))" for s msg
    by (rule stays_bind [OF textual], rule stays_bind [OF stays_string]) auto
  have matches: "stays end (comparison_fits f)
      (pbind (require_text_field f op s ts) (\<lambda>u r. pbind (peek r) (\<lambda>t r. pbind (parse_string msg r) (\<lambda>p r.
         case build p of Inl e \<Rightarrow> fail_at t (msg2 @ e) | Inr re \<Rightarrow> Done (Matches re) r))))" for s msg msg2
    by (rule stays_bind [OF textual], rule stays_bind [OF stays_peek], simp, rule stays_bind [OF stays_string])
      (auto split: sum.split intro: stays_fail)
  have set: "stays end (comparison_fits f) (pbind (parse_set f ts) (\<lambda>vs r. Done (InSet vs) r))"
    by (auto intro!: stays_bind [OF stays_set [OF assms(1)]])
  show ?thesis
    unfolding parse_comparison_def
    using val contains matches set stays_fail [OF assms(2)] by (cases "tk_kind op") auto
qed

lemma stays_predicate:
  assumes "tokens_ok end ts"
  shows "stays end (\<lambda>p. well_typed (PredE p)) (parse_predicate build ts)"
  unfolding parse_predicate_def
proof (rule stays_bind [OF stays_take [OF assms]])
  fix t :: token and r
  assume t: "tk_position t \<le> end" and r: "tokens_ok end r"
  have "stays end (\<lambda>p. well_typed (PredE p))
      (pbind (take_token r) (\<lambda>operator r. pbind (parse_comparison build f operator r) (\<lambda>c r. Done (Predicate f c) r)))" for f
    by (rule stays_bind [OF stays_take [OF r]], rule stays_bind [OF stays_comparison]) auto
  then show "stays end (\<lambda>p. well_typed (PredE p)) (case tk_kind t of
         WordT name \<Rightarrow>
           (case field_parse name of
              None \<Rightarrow> fail_at t (lit ''unknown filter field '' @ quoted name)
            | Some f \<Rightarrow> pbind (take_token r) (\<lambda>operator r.
                pbind (parse_comparison build f operator r) (\<lambda>c r. Done (Predicate f c) r)))
       | _ \<Rightarrow> fail_at t (lit ''expected a filter field''))"
    using stays_fail [OF t] by (auto split: token_kind.split option.split)
qed

lemma stays_if_taken:
  assumes "tokens_ok end ts" "t \<noteq> EndT"
    and "\<And>r. take_if t ts = Done True r \<Longrightarrow> tokens_ok end r \<Longrightarrow> stays end P (f r)"
    and "\<And>r. take_if t ts = Done False r \<Longrightarrow> tokens_ok end r \<Longrightarrow> stays end P (g r)"
  shows "stays end P (pbind (take_if t ts) (\<lambda>b r. if b then f r else g r))"
  by (rule stays_bind [OF stays_take_if [OF assms(1,2)]]) (simp add: assms(3,4))

lemma stays_expr:
  fixes b1 b2 b3 b4 b5 b6 :: "rstring \<Rightarrow> rstring + 're"
  shows "tokens_ok end ts1 \<Longrightarrow> stays end well_typed (parse_or b1 ts1)"
    and "tokens_ok end ts2 \<Longrightarrow> well_typed e2 \<Longrightarrow> stays end well_typed (parse_or_loop b2 e2 ts2)"
    and "tokens_ok end ts3 \<Longrightarrow> stays end well_typed (parse_and b3 ts3)"
    and "tokens_ok end ts4 \<Longrightarrow> well_typed e4 \<Longrightarrow> stays end well_typed (parse_and_loop b4 e4 ts4)"
    and "tokens_ok end ts5 \<Longrightarrow> stays end well_typed (parse_not b5 ts5)"
    and "tokens_ok end ts6 \<Longrightarrow> stays end well_typed (parse_primary b6 ts6)"
proof (induction b1 ts1 and b2 e2 ts2 and b3 ts3 and b4 e4 ts4 and b5 ts5 and b6 ts6
    rule: parse_or_parse_or_loop_parse_and_parse_and_loop_parse_not_parse_primary.induct)
  case (1 build ts)
  then show ?case by (subst parse_or.simps) (auto intro: stays_bind)
next
  case (2 build e ts)
  show ?case
    unfolding parse_or_loop.simps [of build e ts]
    by (rule stays_if_taken [OF 2(3)]) (use 2 in \<open>auto intro!: stays_bind [where P = well_typed]\<close>)
next
  case (3 build ts)
  then show ?case by (subst parse_and.simps) (auto intro: stays_bind)
next
  case (4 build e ts)
  show ?case
    unfolding parse_and_loop.simps [of build e ts]
    by (rule stays_if_taken [OF 4(3)]) (use 4 in \<open>auto intro!: stays_bind [where P = well_typed]\<close>)
next
  case (5 build ts)
  show ?case
    unfolding parse_not.simps [of build ts]
  proof (rule stays_if_taken [OF 5(3)])
    fix r assume r: "take_if NotT ts = Done True r" "tokens_ok end r"
    show "stays end well_typed (pbind (parse_not build r) (\<lambda>e r. Done (NotE e) r))"
      by (rule stays_bind [OF 5(1) [OF r(1) TrueI r(2)]]) simp
  next
    fix r assume r: "take_if NotT ts = Done False r" "tokens_ok end r"
    show "stays end well_typed (parse_primary build r)" by (rule 5(2) [OF r(1) _ r(2)]) simp
  qed simp
next
  case (6 build ts)
  show ?case
    unfolding parse_primary.simps [of build ts]
  proof (rule stays_if_taken [OF 6(2)])
    fix r assume r: "take_if LeftParenT ts = Done True r" "tokens_ok end r"
    show "stays end well_typed (pbind (parse_or build r) (\<lambda>e r. pbind (expect RightParenT (lit ''expected '' @ quoted [41]) r) (\<lambda>u r. Done e r)))"
      by (rule stays_bind [OF 6(1) [OF r(1) TrueI r(2)]], erule stays_bind [OF stays_expect]) simp_all
  next
    fix r assume "tokens_ok end r"
    then show "stays end well_typed (pbind (parse_predicate build r) (\<lambda>p r. Done (PredE p) r))"
      by (rule stays_bind [OF stays_predicate]) simp
  qed simp
qed

lemma stays_parse_tokens: "tokens_ok end ts \<Longrightarrow> stays end well_typed (parse_tokens build ts)"
  unfolding parse_tokens_def
  by (rule stays_bind [OF stays_expr(1)], simp, rule stays_bind [OF stays_peek]) (auto intro: stays_error)

subsection \<open>Properties\<close>

lemma filter_parse_result:
  "\<exists>r. filter_parse build expression = Some r \<and>
     (case r of Inl e \<Rightarrow> err_position e \<le> utf8_len (trim expression)
      | Inr f \<Rightarrow> (case df_root f of None \<Rightarrow> trim expression = [] | Some e \<Rightarrow> well_typed e)
          \<and> df_expression f = trim expression)"
proof (cases "trim expression = []")
  case True
  then show ?thesis by (simp add: filter_parse_def default_filter_def)
next
  case False
  let ?s = "trim expression"
  have ok: "lexed_ok (utf8_len ?s) (lex ?s)"
    using lex_from_ok [of 0 ?s] by (simp add: lex_def total_at_def)
  show ?thesis
  proof (cases "lex ?s")
    case (Inl e)
    then show ?thesis using False ok by (simp add: filter_parse_def lexed_ok_def)
  next
    case (Inr ts)
    then have "stays (utf8_len ?s) well_typed (parse_tokens build ts)"
      using ok by (intro stays_parse_tokens) (simp add: lexed_ok_def)
    then show ?thesis
      using False Inr by (cases "parse_tokens build ts") (auto simp: filter_parse_def Let_def stays_def)
  qed
qed

text \<open>C23. Parsing a filter never panics: it gives a filter whose predicates are all well typed, so that
  evaluation compares each field with a value of its own kind, or an error whose byte position
  is within the trimmed input; whatever the regex engine answers.\<close>

theorem filter_parse_total:
  "\<exists>r. filter_parse build expression = Some r \<and>
     (case r of Inl e \<Rightarrow> err_position e \<le> utf8_len (trim expression)
      | Inr f \<Rightarrow> (case df_root f of None \<Rightarrow> trim expression = [] | Some e \<Rightarrow> well_typed e)
          \<and> df_expression f = trim expression)"
  by (rule filter_parse_result)

text \<open>An expression of white space only is the empty filter, and it matches every message.\<close>

lemma blank_filter_matches_all:
  assumes "\<forall>c \<in> set expression. is_ws c"
  shows "\<exists>f. filter_parse build expression = Some (Inr f) \<and> filter_is_empty f \<and> (\<forall>m. filter_matches is_match f m)"
proof -
  have d: "dropWhile is_ws expression = []" using assms by (simp only: dropWhile_eq_Nil_conv)
  have "trim expression = []" unfolding trim_def d by simp
  then show ?thesis
    by (simp add: filter_parse_def default_filter_def filter_is_empty_def filter_matches_def)
qed

theorem blank_filter_matches_all_witness:
  "\<exists>f. filter_parse Inr [32, 9, 32] = Some (Inr f) \<and> filter_is_empty f
     \<and> (\<forall>m. filter_matches (\<lambda>re t. re = t) f m)"
  by (rule blank_filter_matches_all) (simp add: is_ws_def)

end
