(* ===== verification/Filter_Grammar.thy ===== *)
theory Filter_Grammar
  imports Display_Filter
begin

text \<open>
  The grammar of the filter language, written as derivations of token sequences, and the proof
  that the recursive-descent parser of \<open>Display_Filter\<close> accepts exactly it: \<open>not\<close> binds tighter
  than \<open>and\<close>, \<open>and\<close> tighter than \<open>or\<close>, both associate to the left. With \<open>print_kinds\<close> the
  statement is about the text of a filter.
\<close>

subsection \<open>The grammar\<close>

definition kind_value :: "field \<Rightarrow> token_kind \<Rightarrow> fvalue option" where
  "kind_value f k = (case value_of_token f (tok k 0) of Inl e \<Rightarrow> None | Inr v \<Rightarrow> Some v)"

inductive g_set :: "field \<Rightarrow> token_kind list \<Rightarrow> fvalue list \<Rightarrow> bool" where
  last: "kind_value f k = Some v \<Longrightarrow> g_set f [k] [v]"
| more: "kind_value f k = Some v \<Longrightarrow> g_set f ks vs \<Longrightarrow> g_set f (k # CommaT # ks) (v # vs)"

inductive g_comparison :: "(rstring \<Rightarrow> rstring + 're) \<Rightarrow> field \<Rightarrow> token_kind list \<Rightarrow> 're comparison \<Rightarrow> bool" where
  equal: "kind_value f k = Some v \<Longrightarrow> g_comparison build f [EqualT, k] (EqualTo v)"
| not_equal: "kind_value f k = Some v \<Longrightarrow> g_comparison build f [NotEqualT, k] (NotEqualTo v)"
| contains: "is_text f \<Longrightarrow> g_comparison build f [ContainsT, StringT s] (Contains s)"
| matches: "is_text f \<Longrightarrow> build s = Inr re \<Longrightarrow> g_comparison build f [MatchesT, StringT s] (Matches re)"
| in_set: "g_set f ks vs \<Longrightarrow> g_comparison build f (InT # LeftBraceT # ks @ [RightBraceT]) (InSet vs)"

inductive g_or :: "(rstring \<Rightarrow> rstring + 're) \<Rightarrow> token_kind list \<Rightarrow> 're expr \<Rightarrow> bool"
  and g_and :: "(rstring \<Rightarrow> rstring + 're) \<Rightarrow> token_kind list \<Rightarrow> 're expr \<Rightarrow> bool"
  and g_not :: "(rstring \<Rightarrow> rstring + 're) \<Rightarrow> token_kind list \<Rightarrow> 're expr \<Rightarrow> bool"
  for build :: "rstring \<Rightarrow> rstring + 're" where
  or_one: "g_and build p e \<Longrightarrow> g_or build p e"
| or_more: "g_or build p e \<Longrightarrow> g_and build q f \<Longrightarrow> g_or build (p @ OrT # q) (OrE e f)"
| and_one: "g_not build p e \<Longrightarrow> g_and build p e"
| and_more: "g_and build p e \<Longrightarrow> g_not build q f \<Longrightarrow> g_and build (p @ AndT # q) (AndE e f)"
| negation: "g_not build p e \<Longrightarrow> g_not build (NotT # p) (NotE e)"
| group: "g_or build p e \<Longrightarrow> g_not build (LeftParenT # p @ [RightParenT]) e"
| predicate: "field_parse name = Some f \<Longrightarrow> g_comparison build f p c \<Longrightarrow> g_not build (WordT name # p) (PredE (Predicate f c))"

lemma value_of_token_kind: "value_of_token f t = Inr v \<longleftrightarrow> kind_value f (tk_kind t) = Some v"
proof -
  have "(\<exists>v. value_of_token f t = Inr v) \<or> (\<exists>e. value_of_token f t = Inl e)"
    by (cases "value_of_token f t") auto
  then show ?thesis
    by (cases f) (auto simp: kind_value_def value_of_token_def token_value_def Let_def split: option.splits token_kind.splits)
qed

lemma kind_value_not_End: "kind_value f k = Some v \<Longrightarrow> k \<noteq> EndT \<and> k \<noteq> RightBraceT"
  by (cases f) (auto simp: kind_value_def value_of_token_def token_value_def Let_def)

subsection \<open>What the parser accepts is derived\<close>

definition derives :: "(token_kind list \<Rightarrow> bool) \<Rightarrow> token list \<Rightarrow> token list \<Rightarrow> bool" where
  "derives P ts r \<longleftrightarrow> (\<exists>pre. ts = pre @ r \<and> P (map tk_kind pre))"

lemma set_loop_sound:
  "parse_set_loop f vs ts = Done ws r \<Longrightarrow>
     \<exists>vs'. ws = vs @ vs' \<and> derives (\<lambda>p. \<exists>ks. p = ks @ [RightBraceT] \<and> g_set f ks vs') ts r"
proof (induction "length ts" arbitrary: vs ts rule: less_induct)
  case less
  obtain t v t' rest where ts: "ts = t # t' # rest" "kind_value f (tk_kind t) = Some v"
    and c: "if tk_kind t' = CommaT
      then rest \<noteq> [] \<and> tk_kind (hd rest) \<noteq> RightBraceT \<and> parse_set_loop f (vs @ [v]) rest = Done ws r
      else tk_kind t' = RightBraceT \<and> ws = vs @ [v] \<and> r = rest"
    using less.prems unfolding parse_set_loop_Done [of f vs ts] value_of_token_kind by blast
  show ?case
  proof (cases "tk_kind t' = CommaT")
    case True
    then have "parse_set_loop f (vs @ [v]) rest = Done ws r" using c by simp
    then obtain vs' pre ks where "ws = (vs @ [v]) @ vs'" "rest = pre @ r" "map tk_kind pre = ks @ [RightBraceT]" "g_set f ks vs'"
      using less.hyps [of rest "vs @ [v]"] ts(1) by (auto simp: derives_def)
    then show ?thesis
      using ts True g_set.more [OF ts(2)] unfolding derives_def
      by (intro exI [of _ "v # vs'"] conjI exI [of _ "t # t' # pre"] exI [of _ "tk_kind t # CommaT # ks"]) auto
  next
    case False
    then show ?thesis
      using ts c g_set.last [OF ts(2)] unfolding derives_def
      by (intro exI [of _ "[v]"] conjI exI [of _ "[t, t']"] exI [of _ "[tk_kind t]"]) auto
  qed
qed

lemma comparison_sound:
  assumes "parse_comparison build f op ts = Done c r"
  shows "derives (\<lambda>p. g_comparison build f p c) (op # ts) r"
proof -
  have one: "derives (\<lambda>p. g_comparison build f p c') (op # t # r) r"
    if "g_comparison build f [tk_kind op, tk_kind t] c'" for t c'
    using that by (auto simp: derives_def intro: exI [of _ "[op, t]"])
  have set: "derives (\<lambda>p. g_comparison build f p (InSet vs)) (op # ts) r"
    if h: "tk_kind op = InT" "parse_set f ts = Done vs r" for vs
  proof -
    obtain t rest where t: "ts = t # rest" "tk_kind t = LeftBraceT" "parse_set_loop f [] rest = Done vs r"
      using h(2) by (auto simp: parse_set_def pbind_Done expect_Done peek_Done split: if_splits)
    then obtain pre ks where "rest = pre @ r" "map tk_kind pre = ks @ [RightBraceT]" "g_set f ks vs"
      using set_loop_sound [OF t(3)] by (auto simp: derives_def)
    then show ?thesis
      using t h(1) in_set [of f ks vs build] by (auto simp: derives_def intro!: exI [of _ "op # t # pre"])
  qed
  show ?thesis
    using assms
    by (cases "tk_kind op")
      (auto simp: parse_comparison_def pbind_Done parse_value_Done require_text_Done peek_Done parse_string_Done
        regex_case_Done value_of_token_kind intro!: one set intro: g_comparison.intros)
qed

lemma derives_append:
  "derives P ts r \<Longrightarrow> derives Q r s \<Longrightarrow> derives (\<lambda>p. \<exists>a b. p = a @ b \<and> P a \<and> Q b) ts s"
  unfolding derives_def by (metis append_assoc map_append)

lemma derivesI: "P (map tk_kind pre) \<Longrightarrow> derives P (pre @ r) r"
  by (auto simp: derives_def)

lemma derives_Cons: "derives P ts r \<Longrightarrow> (\<And>p. P p \<Longrightarrow> Q (tk_kind t # p)) \<Longrightarrow> derives Q (t # ts) r"
  unfolding derives_def by (metis append_Cons list.simps(9))

lemma derives_weaken: "derives P ts r \<Longrightarrow> (\<And>p. P p \<Longrightarrow> Q p) \<Longrightarrow> derives Q ts r"
  by (auto simp: derives_def)

lemma derives_here: "P [] \<Longrightarrow> derives P r r"
  by (auto simp: derives_def)

text \<open>One turn of a loop: the operator, an operand and the rest of the loop.\<close>

lemma loop_derives:
  assumes "derives S r1 r'" "derives (\<lambda>p. \<forall>q. G' q \<longrightarrow> H (q @ p)) r' r" "\<And>q p. G q \<Longrightarrow> S p \<Longrightarrow> G' (q @ tk_kind t # p)"
  shows "derives (\<lambda>p. \<forall>q. G q \<longrightarrow> H (q @ p)) (t # r1) r"
proof (rule derives_Cons [OF derives_append [OF assms(1,2)]])
  fix p assume "\<exists>a b. p = a @ b \<and> S a \<and> (\<forall>q. G' q \<longrightarrow> H (q @ b))"
  then obtain a b where "p = a @ b" "S a" "\<forall>q. G' q \<longrightarrow> H (q @ b)" by blast
  then show "\<forall>q. G q \<longrightarrow> H (q @ tk_kind t # p)" using assms(3) [of _ a] by fastforce
qed

lemma take_if_cases:
  assumes "take_if k ts = Done b r"
  obtains t where "b" "ts = t # r" "tk_kind t = k" | "\<not> b" "ts = r"
  using assms by (auto simp: take_if_Done split: if_splits)

text \<open>Each function of the parser, given that those it calls derive what they return.\<close>

lemma or_loop_sound:
  assumes "parse_or_loop build e0 ts = Done e r"
    and "\<And>r1 e' r'. take_if OrT ts = Done True r1 \<Longrightarrow> parse_and build r1 = Done e' r' \<Longrightarrow> derives (\<lambda>p. g_and build p e') r1 r'"
    and "\<And>r1 e' r'. take_if OrT ts = Done True r1 \<Longrightarrow> parse_and build r1 = Done e' r' \<Longrightarrow> parse_or_loop build (OrE e0 e') r' = Done e r
      \<Longrightarrow> derives (\<lambda>p. \<forall>q. g_or build q (OrE e0 e') \<longrightarrow> g_or build (q @ p) e) r' r"
  shows "derives (\<lambda>p. \<forall>q. g_or build q e0 \<longrightarrow> g_or build (q @ p) e) ts r"
proof -
  obtain b r1 where t: "take_if OrT ts = Done b r1"
    and l: "(if b then pbind (parse_and build r1) (\<lambda>e' r. parse_or_loop build (OrE e0 e') r) else Done e0 r1) = Done e r"
    using assms(1) unfolding parse_or_loop.simps [of build e0 ts] pbind_Done by blast
  show ?thesis
    using t
  proof (cases rule: take_if_cases)
    case (1 tk)
    then obtain e' r' where p: "parse_and build r1 = Done e' r'" "parse_or_loop build (OrE e0 e') r' = Done e r"
      using l by (auto simp: pbind_Done)
    have t': "take_if OrT ts = Done True r1" using t 1(1) by simp
    show ?thesis
      unfolding 1(2) by (rule loop_derives [OF assms(2) [OF t' p(1)] assms(3) [OF t' p]]) (simp add: 1(3) or_more)
  next
    case 2
    then show ?thesis using l by (auto intro: derives_here)
  qed
qed

lemma and_loop_sound:
  assumes "parse_and_loop build e0 ts = Done e r"
    and "\<And>r1 e' r'. take_if AndT ts = Done True r1 \<Longrightarrow> parse_not build r1 = Done e' r' \<Longrightarrow> derives (\<lambda>p. g_not build p e') r1 r'"
    and "\<And>r1 e' r'. take_if AndT ts = Done True r1 \<Longrightarrow> parse_not build r1 = Done e' r' \<Longrightarrow> parse_and_loop build (AndE e0 e') r' = Done e r
      \<Longrightarrow> derives (\<lambda>p. \<forall>q. g_and build q (AndE e0 e') \<longrightarrow> g_and build (q @ p) e) r' r"
  shows "derives (\<lambda>p. \<forall>q. g_and build q e0 \<longrightarrow> g_and build (q @ p) e) ts r"
proof -
  obtain b r1 where t: "take_if AndT ts = Done b r1"
    and l: "(if b then pbind (parse_not build r1) (\<lambda>e' r. parse_and_loop build (AndE e0 e') r) else Done e0 r1) = Done e r"
    using assms(1) unfolding parse_and_loop.simps [of build e0 ts] pbind_Done by blast
  show ?thesis
    using t
  proof (cases rule: take_if_cases)
    case (1 tk)
    then obtain e' r' where p: "parse_not build r1 = Done e' r'" "parse_and_loop build (AndE e0 e') r' = Done e r"
      using l by (auto simp: pbind_Done)
    have t': "take_if AndT ts = Done True r1" using t 1(1) by simp
    show ?thesis
      unfolding 1(2) by (rule loop_derives [OF assms(2) [OF t' p(1)] assms(3) [OF t' p]]) (simp add: 1(3) and_more)
  next
    case 2
    then show ?thesis using l by (auto intro: derives_here)
  qed
qed

lemma not_sound:
  assumes "parse_not build ts = Done e r"
    and "\<And>r1 e'. take_if NotT ts = Done True r1 \<Longrightarrow> parse_not build r1 = Done e' r \<Longrightarrow> derives (\<lambda>p. g_not build p e') r1 r"
    and "\<And>r1. take_if NotT ts = Done False r1 \<Longrightarrow> parse_primary build r1 = Done e r \<Longrightarrow> derives (\<lambda>p. g_not build p e) r1 r"
  shows "derives (\<lambda>p. g_not build p e) ts r"
proof -
  obtain b r1 where t: "take_if NotT ts = Done b r1"
    and l: "(if b then pbind (parse_not build r1) (\<lambda>e r. Done (NotE e) r) else parse_primary build r1) = Done e r"
    using assms(1) unfolding parse_not.simps [of build ts] pbind_Done by blast
  show ?thesis
    using t
  proof (cases rule: take_if_cases)
    case (1 tk)
    then obtain e' where p: "parse_not build r1 = Done e' r" "e = NotE e'" using l by (auto simp: pbind_Done)
    have t': "take_if NotT ts = Done True r1" using t 1(1) by simp
    show ?thesis
      unfolding 1(2) by (rule derives_Cons [OF assms(2) [OF t' p(1)]]) (simp add: 1(3) p(2) negation)
  next
    case 2
    then show ?thesis using assms(3) [of r1] t l by auto
  qed
qed

lemma predicate_sound:
  assumes "parse_predicate build ts = Done p r"
  shows "derives (\<lambda>q. g_not build q (PredE p)) ts r"
proof -
  obtain t name f op rest c where w: "ts = t # op # rest" "tk_kind t = WordT name" "field_parse name = Some f"
    "parse_comparison build f op rest = Done c r" "p = Predicate f c"
    using assms unfolding parse_predicate_Done by blast
  show ?thesis
    unfolding w(1,5) by (rule derives_Cons [OF comparison_sound [OF w(4)]]) (simp add: w(2) predicate [OF w(3)])
qed

lemma primary_sound:
  assumes "parse_primary build ts = Done e r"
    and "\<And>r1 r'. take_if LeftParenT ts = Done True r1 \<Longrightarrow> parse_or build r1 = Done e r' \<Longrightarrow> derives (\<lambda>p. g_or build p e) r1 r'"
  shows "derives (\<lambda>p. g_not build p e) ts r"
proof -
  obtain b r1 where t: "take_if LeftParenT ts = Done b r1"
    and l: "(if b then pbind (parse_or build r1) (\<lambda>e r. pbind (expect RightParenT (lit ''expected '' @ quoted [41]) r) (\<lambda>u r. Done e r))
       else pbind (parse_predicate build r1) (\<lambda>p r. Done (PredE p) r)) = Done e r"
    using assms(1) unfolding parse_primary.simps [of build ts] pbind_Done by blast
  show ?thesis
    using t
  proof (cases rule: take_if_cases)
    case (1 tk)
    then obtain c where p: "parse_or build r1 = Done e (c # r)" "tk_kind c = RightParenT"
      using l by (auto simp: pbind_Done expect_Done)
    obtain a where a: "r1 = a @ c # r" "g_or build (map tk_kind a) e"
      using assms(2) [of r1 "c # r"] t 1(1) p(1) by (auto simp: derives_def)
    then show ?thesis
      using derivesI [of "\<lambda>p. g_not build p e" "tk # a @ [c]" r] group [OF a(2)] 1(2,3) p(2) by simp
  next
    case 2
    then show ?thesis using l predicate_sound by (auto simp: pbind_Done)
  qed
qed

lemma parser_sound:
  fixes b1 b2 b3 b4 b5 b6 :: "rstring \<Rightarrow> rstring + 're"
  shows "\<forall>e r. parse_or b1 ts1 = Done e r \<longrightarrow> derives (\<lambda>p. g_or b1 p e) ts1 r"
    and "\<forall>e r. parse_or_loop b2 e2 ts2 = Done e r \<longrightarrow> derives (\<lambda>p. \<forall>q. g_or b2 q e2 \<longrightarrow> g_or b2 (q @ p) e) ts2 r"
    and "\<forall>e r. parse_and b3 ts3 = Done e r \<longrightarrow> derives (\<lambda>p. g_and b3 p e) ts3 r"
    and "\<forall>e r. parse_and_loop b4 e4 ts4 = Done e r \<longrightarrow> derives (\<lambda>p. \<forall>q. g_and b4 q e4 \<longrightarrow> g_and b4 (q @ p) e) ts4 r"
    and "\<forall>e r. parse_not b5 ts5 = Done e r \<longrightarrow> derives (\<lambda>p. g_not b5 p e) ts5 r"
    and "\<forall>e r. parse_primary b6 ts6 = Done e r \<longrightarrow> derives (\<lambda>p. g_not b6 p e) ts6 r"
proof (induction b1 ts1 and b2 e2 ts2 and b3 ts3 and b4 e4 ts4 and b5 ts5 and b6 ts6
    rule: parse_or_parse_or_loop_parse_and_parse_and_loop_parse_not_parse_primary.induct)
  case (1 build ts)
  show ?case
  proof (intro allI impI)
    fix e r assume "parse_or build ts = Done e r"
    then obtain e' r' where p: "parse_and build ts = Done e' r'" "parse_or_loop build e' r' = Done e r"
      by (auto simp: parse_or.simps [of build ts] pbind_Done)
    show "derives (\<lambda>p. g_or build p e) ts r"
      using derives_append [OF "1.IH"(1) [rule_format, OF p(1)] "1.IH"(2) [OF p(1), rule_format, OF p(2)]] or_one
      by (auto elim!: derives_weaken)
  qed
next
  case (2 build e0 ts)
  then show ?case by (blast intro: or_loop_sound)
next
  case (3 build ts)
  show ?case
  proof (intro allI impI)
    fix e r assume "parse_and build ts = Done e r"
    then obtain e' r' where p: "parse_not build ts = Done e' r'" "parse_and_loop build e' r' = Done e r"
      by (auto simp: parse_and.simps [of build ts] pbind_Done)
    show "derives (\<lambda>p. g_and build p e) ts r"
      using derives_append [OF "3.IH"(1) [rule_format, OF p(1)] "3.IH"(2) [OF p(1), rule_format, OF p(2)]] and_one
      by (auto elim!: derives_weaken)
  qed
next
  case (4 build e0 ts)
  then show ?case by (blast intro: and_loop_sound)
next
  case (5 build ts)
  then show ?case by (blast intro: not_sound)
next
  case (6 build ts)
  then show ?case by (blast intro: primary_sound)
qed

subsection \<open>What is derived, the parser accepts\<close>

lemma set_loop_complete:
  "g_set f ks vs \<Longrightarrow> map tk_kind pre = ks \<Longrightarrow> tk_kind c = RightBraceT \<Longrightarrow>
     parse_set_loop f ws (pre @ c # r) = Done (ws @ vs) r"
proof (induction arbitrary: pre ws rule: g_set.induct)
  case (last f k v)
  then obtain t where "pre = [t]" "tk_kind t = k" by auto
  then show ?case
    using last kind_value_not_End [OF last(1)]
    by (auto simp: parse_set_loop_Done value_of_token_kind)
next
  case (more f k v ks vs)
  then obtain t t' pre' where pre: "pre = t # t' # pre'" "tk_kind t = k" "tk_kind t' = CommaT" "map tk_kind pre' = ks"
    by (auto simp: map_eq_Cons_conv)
  have "ks \<noteq> [] \<and> hd ks \<noteq> RightBraceT"
    using more(2) by cases (auto dest: kind_value_not_End)
  then have "pre' \<noteq> []" "tk_kind (hd (pre' @ c # r)) \<noteq> RightBraceT"
    using pre(4) by (auto simp: hd_append hd_map [symmetric] simp del: hd_map)
  moreover have "parse_set_loop f (ws @ [v]) (pre' @ c # r) = Done ((ws @ [v]) @ vs) r"
    using more.IH [OF pre(4) more.prems(2)] .
  ultimately show ?case
    using pre more(1) kind_value_not_End [OF more(1)]
    by (auto simp: parse_set_loop_Done [of f ws] value_of_token_kind)
qed

lemma comparison_complete:
  assumes "g_comparison build f p c" "p = map tk_kind (op # pre)"
  shows "parse_comparison build f op (pre @ r) = Done c r"
  using assms
proof (cases rule: g_comparison.cases)
  case (equal k v)
  then show ?thesis using assms(2) kind_value_not_End [of f k v]
    by (auto simp: parse_comparison_def pbind_Done parse_value_Done value_of_token_kind map_eq_Cons_conv)
next
  case (not_equal k v)
  then show ?thesis using assms(2) kind_value_not_End [of f k v]
    by (auto simp: parse_comparison_def pbind_Done parse_value_Done value_of_token_kind map_eq_Cons_conv)
next
  case (contains s)
  then show ?thesis using assms(2)
    by (auto simp: parse_comparison_def require_text_field_def parse_string_def take_token_def map_eq_Cons_conv)
next
  case (matches s re)
  then show ?thesis using assms(2)
    by (auto simp: parse_comparison_def require_text_field_def parse_string_def take_token_def peek_def map_eq_Cons_conv)
next
  case (in_set ks vs)
  then obtain t pre' c' where pre: "tk_kind op = InT" "pre = t # pre' @ [c']" "tk_kind t = LeftBraceT"
    "map tk_kind pre' = ks" "tk_kind c' = RightBraceT"
    using assms(2) by (auto simp: map_eq_Cons_conv map_eq_append_conv)
  have "ks \<noteq> [] \<and> hd ks \<noteq> RightBraceT"
    using in_set(3) by cases (auto dest: kind_value_not_End)
  then have ne: "pre' \<noteq> []" "tk_kind (hd pre') \<noteq> RightBraceT" using pre(4) by (auto simp: hd_map)
  have "parse_set f (pre @ r) = Done vs r"
    using set_loop_complete [OF in_set(3) pre(4,5), of "[]" r] ne pre(2,3)
    by (cases pre') (auto simp: parse_set_def expect_def peek_def)
  then show ?thesis using pre(1) in_set by (simp add: parse_comparison_def)
qed

definition starts :: "token_kind \<Rightarrow> token list \<Rightarrow> bool" where
  "starts k ts \<longleftrightarrow> ts \<noteq> [] \<and> tk_kind (hd ts) = k"

lemma take_if_starts: "ts \<noteq> [] \<Longrightarrow> take_if k ts = (if starts k ts then Done True (tl ts) else Done False ts)"
  by (cases ts) (auto simp: take_if_def starts_def)

lemma and_loop_stops: "r \<noteq> [] \<Longrightarrow> \<not> starts AndT r \<Longrightarrow> parse_and_loop build f r = Done f r"
  by (subst parse_and_loop.simps) (simp add: take_if_starts)

text \<open>One more operand of a disjunction or a conjunction, a group and a predicate, each in front of any rest.\<close>

lemma or_step:
  assumes "map tk_kind pre = p @ OrT # q" "r \<noteq> []" "\<not> starts AndT r"
    and left: "\<And>a r. map tk_kind a = p \<Longrightarrow> r \<noteq> [] \<Longrightarrow> \<not> starts AndT r \<Longrightarrow> parse_or build (a @ r) = parse_or_loop build e r"
    and right: "\<And>b r. map tk_kind b = q \<Longrightarrow> parse_and build (b @ r) = parse_and_loop build f r"
  shows "parse_or build (pre @ r) = parse_or_loop build (OrE e f) r"
proof -
  obtain a t b where ab: "pre = a @ t # b" "map tk_kind a = p" "tk_kind t = OrT" "map tk_kind b = q"
    using assms(1) by (auto simp: map_eq_append_conv map_eq_Cons_conv)
  have "parse_or build (pre @ r) = parse_or_loop build e (t # b @ r)"
    using left [OF ab(2), of "t # b @ r"] ab by (simp add: starts_def)
  also have "\<dots> = parse_or_loop build (OrE e f) r"
    using right [OF ab(4), of r] ab(3) by (subst parse_or_loop.simps) (simp add: take_if_def and_loop_stops [OF assms(2,3)])
  finally show ?thesis .
qed

lemma and_step:
  assumes "map tk_kind pre = p @ AndT # q"
    and left: "\<And>a r. map tk_kind a = p \<Longrightarrow> parse_and build (a @ r) = parse_and_loop build e r"
    and right: "\<And>b r. map tk_kind b = q \<Longrightarrow> parse_not build (b @ r) = Done f r"
  shows "parse_and build (pre @ r) = parse_and_loop build (AndE e f) r"
proof -
  obtain a t b where ab: "pre = a @ t # b" "map tk_kind a = p" "tk_kind t = AndT" "map tk_kind b = q"
    using assms(1) by (auto simp: map_eq_append_conv map_eq_Cons_conv)
  have "parse_and build (pre @ r) = parse_and_loop build e (t # b @ r)"
    using left [OF ab(2), of "t # b @ r"] ab by simp
  also have "\<dots> = parse_and_loop build (AndE e f) r"
    using right [OF ab(4), of r] ab(3) by (subst parse_and_loop.simps) (simp add: take_if_def)
  finally show ?thesis .
qed

lemma group_step:
  assumes "map tk_kind pre = LeftParenT # p @ [RightParenT]"
    and inner: "\<And>a r. map tk_kind a = p \<Longrightarrow> r \<noteq> [] \<Longrightarrow> \<not> starts AndT r \<Longrightarrow> parse_or build (a @ r) = parse_or_loop build e r"
  shows "parse_not build (pre @ r) = Done e r"
proof -
  obtain a t c where ab: "pre = t # a @ [c]" "map tk_kind a = p" "tk_kind t = LeftParenT" "tk_kind c = RightParenT"
    using assms(1) by (auto simp: map_eq_append_conv map_eq_Cons_conv)
  have "parse_or build (a @ c # r) = parse_or_loop build e (c # r)"
    using inner [OF ab(2), of "c # r"] ab(4) by (simp add: starts_def)
  also have "\<dots> = Done e (c # r)"
    using ab by (subst parse_or_loop.simps) (simp add: take_if_def)
  finally show ?thesis
    using ab by (simp add: parse_not.simps parse_primary.simps take_if_def expect_def)
qed

lemma predicate_step:
  assumes "map tk_kind pre = WordT name # p" "field_parse name = Some f" "g_comparison build f p c"
  shows "parse_not build (pre @ r) = Done (PredE (Predicate f c)) r"
proof -
  have "p \<noteq> []" using assms(3) by cases auto
  then obtain t op a where ab: "pre = t # op # a" "tk_kind t = WordT name" "p = map tk_kind (op # a)"
    using assms(1) by (cases pre; cases "tl pre") auto
  have "parse_predicate build (pre @ r) = Done (Predicate f c) r"
    unfolding parse_predicate_Done
    using ab assms comparison_complete [OF assms(3) ab(3), of r] by auto
  then show ?thesis
    using ab by (simp add: parse_not.simps parse_primary.simps take_if_def)
qed

lemma parser_complete:
  shows "g_or build p1 e1 \<Longrightarrow> \<forall>pre r. map tk_kind pre = p1 \<longrightarrow> r \<noteq> [] \<longrightarrow> \<not> starts AndT r \<longrightarrow>
           parse_or build (pre @ r) = parse_or_loop build e1 r"
    and "g_and build p2 e2 \<Longrightarrow> \<forall>pre r. map tk_kind pre = p2 \<longrightarrow>
           parse_and build (pre @ r) = parse_and_loop build e2 r"
    and "g_not build p3 e3 \<Longrightarrow> \<forall>pre r. map tk_kind pre = p3 \<longrightarrow> parse_not build (pre @ r) = Done e3 r"
proof (induction rule: g_or_g_and_g_not.inducts)
  case (or_one p e)
  then show ?case by (auto simp: parse_or.simps and_loop_stops)
next
  case (or_more p e q f)
  show ?case by (intro allI impI, rule or_step) (use or_more in auto)
next
  case (and_one p e)
  then show ?case by (auto simp: parse_and.simps)
next
  case (and_more p e q f)
  show ?case by (intro allI impI, rule and_step) (use and_more in auto)
next
  case (negation p e)
  then show ?case by (auto simp: map_eq_Cons_conv parse_not.simps [of build "_ # _"] take_if_def)
next
  case (group p e)
  show ?case by (intro allI impI, rule group_step) (use group in auto)
next
  case (predicate name f p c)
  show ?case by (intro allI impI, rule predicate_step) (use predicate in auto)
qed

lemma parse_tokens_iff:
  assumes "map tk_kind ts = ks @ [EndT]" "EndT \<notin> set ks"
  shows "(\<exists>r. parse_tokens build ts = Done e r) \<longleftrightarrow> g_or build ks e"
proof
  assume "\<exists>r. parse_tokens build ts = Done e r"
  then obtain r where r: "parse_or build ts = Done e r" "r \<noteq> []" "tk_kind (hd r) = EndT"
    by (auto simp: parse_tokens_def pbind_Done peek_Done split: if_splits)
  then obtain pre where pre: "ts = pre @ r" "g_or build (map tk_kind pre) e"
    using parser_sound(1) by (fastforce simp: derives_def)
  obtain t r' where "r = t # r'" "tk_kind t = EndT" using r(2,3) by (cases r) auto
  then have "map tk_kind pre @ EndT # map tk_kind r' = ks @ [EndT]" using assms(1) pre(1) by simp
  then have "map tk_kind pre = ks"
    using assms(2) by (auto simp: append_eq_append_conv2 append_eq_Cons_conv Cons_eq_append_conv)
  then show "g_or build ks e" using pre(2) by simp
next
  assume g: "g_or build ks e"
  obtain pre t where ts: "ts = pre @ [t]" "map tk_kind pre = ks" "tk_kind t = EndT"
    using assms(1) by (auto simp: map_eq_append_conv map_eq_Cons_conv)
  have "parse_or build ts = parse_or_loop build e [t]"
    using parser_complete(1) [OF g] ts by (auto simp: starts_def)
  then show "\<exists>r. parse_tokens build ts = Done e r"
    using ts(3) by (simp add: parse_tokens_def parse_or_loop.simps take_if_def peek_def)
qed

subsection \<open>The text of a filter\<close>

lemma trim_id: "s \<noteq> [] \<Longrightarrow> \<not> is_ws (hd s) \<Longrightarrow> \<not> is_ws (last s) \<Longrightarrow> trim s = s"
proof -
  assume s: "s \<noteq> []" "\<not> is_ws (hd s)" "\<not> is_ws (last s)"
  have "dropWhile is_ws s = s" using s by (cases s) auto
  moreover have "dropWhile is_ws (rev s) = rev s" using s by (cases s rule: rev_cases) auto
  ultimately show ?thesis by (simp add: trim_def)
qed

lemma print_kind_edges:
  assumes "writable k"
  shows "print_kind k \<noteq> []" "\<not> is_ws (hd (print_kind k))" "\<not> is_ws (last (print_kind k))"
proof -
  have "w \<noteq> [] \<and> \<not> is_ws (hd w) \<and> \<not> is_ws (last w)" if "plain_word w" for w
    using that by (auto simp: plain_word_def ends_word_def)
  then have "print_kind k \<noteq> [] \<and> \<not> is_ws (hd (print_kind k)) \<and> \<not> is_ws (last (print_kind k))"
    using assms by (cases k) (auto simp: quote_string_def is_ws_def lit_def)
  then show "print_kind k \<noteq> []" "\<not> is_ws (hd (print_kind k))" "\<not> is_ws (last (print_kind k))" by auto
qed

lemma print_kinds_edges:
  assumes "\<forall>k \<in> set ks. writable k" "ks \<noteq> []"
  shows "print_kinds ks \<noteq> [] \<and> hd (print_kinds ks) = hd (print_kind (hd ks))
    \<and> last (print_kinds ks) = last (print_kind (last ks))"
  using assms
proof (induction ks)
  case (Cons k ks)
  then show ?case
    using print_kind_edges(1) [of k] by (cases ks) (auto simp: print_kinds_def)
qed simp

lemma print_kinds_trim:
  assumes "\<forall>k \<in> set ks. writable k" "ks \<noteq> []"
  shows "trim (print_kinds ks) = print_kinds ks"
  using print_kinds_edges [OF assms] assms print_kind_edges [of "hd ks"] print_kind_edges [of "last ks"]
  by (intro trim_id) auto

lemma filter_parse_grammar:
  assumes "\<forall>k \<in> set ks. writable k" "ks \<noteq> []"
  shows "filter_parse build (print_kinds ks) = Some (Inr f) \<longleftrightarrow>
    (\<exists>e. g_or build ks e \<and> f = \<lparr> df_expression = print_kinds ks, df_root = Some e \<rparr>)"
proof -
  obtain ts where ts: "lex (print_kinds ks) = Inr ts" "map tk_kind ts = ks @ [EndT]"
    using lex_print_kinds [OF assms, of 0] by (auto simp: lex_def)
  have "EndT \<notin> set ks" using assms(1) by auto
  note iff = parse_tokens_iff [OF ts(2) this, of build]
  have "filter_parse build (print_kinds ks) = Some (Inr f) \<longleftrightarrow>
    (\<exists>e r. parse_tokens build ts = Done e r \<and> f = \<lparr> df_expression = print_kinds ks, df_root = Some e \<rparr>)"
    using print_kinds_edges [OF assms]
    by (cases "parse_tokens build ts") (auto simp: filter_parse_def print_kinds_trim [OF assms] ts(1) Let_def)
  also have "\<dots> \<longleftrightarrow> (\<exists>e. g_or build ks e \<and> f = \<lparr> df_expression = print_kinds ks, df_root = Some e \<rparr>)"
    using iff by blast
  finally show ?thesis .
qed

lemma field_parse_name [simp]: "field_parse (field_name f) = Some f"
  by (cases f) (simp_all add: field_parse_def)

lemma plain_field_name [simp]: "plain_word (field_name f)"
  by (cases f) (simp_all add: plain_word_def lit_def ends_word_def is_ws_def word_kind_def eq_ignore_case_def ascii_lower_def)

lemma plain_digits:
  assumes "w \<noteq> []" "\<forall>c \<in> set w. is_dec c \<or> c = 46"
  shows "plain_word w"
proof -
  have e: "\<not> ends_word c" "ascii_lower c = c" "c \<noteq> QUOTE" "c \<noteq> 114" "c < 60" if "is_dec c \<or> c = 46" for c
    using that by (auto simp: is_dec_def ends_word_def is_ws_def ascii_lower_def)
  obtain c r where w: "w = c # r" using assms(1) by (cases w) auto
  have "\<not> eq_ignore_case w (lit (ch # s))" if "ascii_lower (of_char ch) \<ge> 60" for ch s
    using e(2,5) [of c] assms(2) that by (auto simp: w eq_ignore_case_def lit_def)
  then have "word_kind w = WordT w"
    by (simp add: word_kind_def ascii_lower_def)
  then show ?thesis
    using assms e by (auto simp: plain_word_def w)
qed

declare field_name.simps [simp del]

lemma show_ipv4_chars: "\<forall>c \<in> set (show_ipv4 w). is_dec c \<or> c = 46" "show_ipv4 w \<noteq> []"
  using show_nat_digits by (auto simp: show_ipv4_def)

subsection \<open>Properties\<close>

text \<open>C9. The filter language is exactly its grammar: a text made of tokens is accepted if and only if
  the tokens derive an expression, with \<open>!\<close> binding tighter than \<open>&&\<close>, \<open>&&\<close> tighter than \<open>||\<close>,
  both associating to the left, and the filter holds that expression.\<close>

theorem filter_parse_iff_grammar:
  assumes "\<forall>k \<in> set ks. writable k" "ks \<noteq> []"
  shows "filter_parse build (print_kinds ks) = Some (Inr f) \<longleftrightarrow>
    (\<exists>e. g_or build ks e \<and> f = \<lparr> df_expression = print_kinds ks, df_root = Some e \<rparr>)"
  by (rule filter_parse_grammar [OF assms])

definition precedence_example :: "token_kind list" where
  "precedence_example =
     [WordT (field_name MessageType), EqualT, StringT (lit ''DataRow''), OrT,
      WordT (field_name MessageType), EqualT, StringT (lit ''Query''), AndT,
      NotT, WordT (field_name MessageText), ContainsT, StringT (lit ''users'')]"

theorem filter_parse_iff_grammar_witness:
  "\<exists>f. filter_parse Inr (print_kinds precedence_example) = Some (Inr f) \<and>
     df_root f = Some (OrE (PredE (Predicate MessageType (EqualTo (TextV (lit ''DataRow'')))))
       (AndE (PredE (Predicate MessageType (EqualTo (TextV (lit ''Query'')))))
             (NotE (PredE (Predicate MessageText (Contains (lit ''users'')))))))"
proof -
  have v: "kind_value MessageType (StringT s) = Some (TextV s)" for s
    by (simp add: kind_value_def value_of_token_def)
  have q: "g_not Inr [WordT (field_name MessageType), EqualT, StringT s]
      (PredE (Predicate MessageType (EqualTo (TextV s))))" for s
    by (rule predicate [OF field_parse_name equal [OF v]])
  have n: "g_not Inr [NotT, WordT (field_name MessageText), ContainsT, StringT (lit ''users'')]
      (NotE (PredE (Predicate MessageText (Contains (lit ''users'')))))"
    by (intro negation predicate [OF field_parse_name] contains) simp
  let ?e = "OrE (PredE (Predicate MessageType (EqualTo (TextV (lit ''DataRow'')))))
       (AndE (PredE (Predicate MessageType (EqualTo (TextV (lit ''Query'')))))
             (NotE (PredE (Predicate MessageText (Contains (lit ''users''))))))"
  have "g_or Inr precedence_example ?e"
    using or_more [OF or_one [OF and_one [OF q]] and_more [OF and_one [OF q] n], of "lit ''DataRow''" "lit ''Query''"]
    by (simp add: precedence_example_def)
  then have "filter_parse Inr (print_kinds precedence_example) =
      Some (Inr \<lparr> df_expression = print_kinds precedence_example, df_root = Some ?e \<rparr>)"
    using filter_parse_iff_grammar [of precedence_example Inr] by (auto simp: precedence_example_def)
  then show ?thesis by simp
qed

text \<open>C24. Any text can be compared with: the filter \<open>message.text == "..."\<close> with the text escaped parses, and
  matches exactly the messages with that text.\<close>

theorem text_literal_selects:
  "\<exists>f. filter_parse build (lit ''message.text == '' @ quote_string v) = Some (Inr f)
     \<and> (\<forall>m. filter_matches is_match f m \<longleftrightarrow> dm_text m = v)"
proof -
  let ?ks = "[WordT (field_name MessageText), EqualT, StringT v]"
  have v: "kind_value MessageText (StringT v) = Some (TextV v)"
    by (simp add: kind_value_def value_of_token_def)
  have "g_or build ?ks (PredE (Predicate MessageText (EqualTo (TextV v))))"
    by (rule or_one [OF and_one [OF predicate [OF field_parse_name equal [OF v]]]])
  moreover have "print_kinds ?ks = lit ''message.text == '' @ quote_string v"
    by (simp add: print_kinds_def lit_def field_name.simps)
  ultimately show ?thesis
    using filter_parse_grammar [of ?ks build] by (auto simp: filter_matches_def)
qed

text \<open>The filter on an IPv4 client endpoint, written with the address and the port as they are printed,
  matches exactly the messages of that client.\<close>

lemma client_filter_selects:
  "\<exists>f. filter_parse build (lit ''client.ip == '' @ show_ip (IpV4 a) @ lit '' && client.port == '' @ show_nat (unat p))
       = Some (Inr f)
     \<and> (\<forall>m. filter_matches is_match f m \<longleftrightarrow> dm_client m = (IpV4 a, p))"
proof -
  let ?ip = "[WordT (field_name ClientIp), EqualT, WordT (show_ipv4 a)]"
  let ?port = "[WordT (field_name ClientPort), EqualT, WordT (show_nat (unat p))]"
  have "kind_value ClientIp (WordT (show_ipv4 a)) = Some (IpV (IpV4 a))"
    "kind_value ClientPort (WordT (show_nat (unat p))) = Some (PortV p)"
    using ipv4_text_roundtrip [of a] parse_show_u16 [of p]
    by (simp_all add: kind_value_def value_of_token_def token_value_def)
  then have "g_or build (?ip @ AndT # ?port)
      (AndE (PredE (Predicate ClientIp (EqualTo (IpV (IpV4 a))))) (PredE (Predicate ClientPort (EqualTo (PortV p)))))"
    by (intro or_one and_more and_one) (simp_all add: predicate equal)
  moreover have "print_kinds (?ip @ AndT # ?port) =
      lit ''client.ip == '' @ show_ip (IpV4 a) @ lit '' && client.port == '' @ show_nat (unat p)"
    by (simp add: print_kinds_def lit_def field_name.simps)
  moreover have "\<forall>k \<in> set (?ip @ AndT # ?port). writable k"
    using plain_digits show_ipv4_chars [of a] show_nat_digits [of "unat p"] by simp
  ultimately show ?thesis
    using filter_parse_grammar [of "?ip @ AndT # ?port" build]
    by (auto simp: filter_matches_def prod_eq_iff)
qed

end
