(* ===== verification/Decode_Format.thy ===== *)
theory Decode_Format
  imports Reassembly
begin

text \<open>
  Rendering of decoded messages (\<open>src/decode.rs\<close>, the formatting helpers). The messages are
  types of the pgwire crate: the datatypes below have the variants the source matches, each
  with the fields the source reads. \<open>String\<close>'s \<open>Debug\<close> form is the parameter \<open>debug_str\<close> (it
  depends on Unicode tables).
\<close>

subsection \<open>Messages\<close>

definition FORMAT_CODE_TEXT :: "16 word" where "FORMAT_CODE_TEXT = 0"
definition FORMAT_CODE_BINARY :: "16 word" where "FORMAT_CODE_BINARY = 1"

record startup =
  protocol_number_major :: nat
  protocol_number_minor :: nat
  su_parameters :: "(rstring \<times> rstring) list"

record parse_msg =
  pm_name :: "rstring option"
  pm_type_oids :: "u32 list"
  pm_query :: rstring

record bind_msg =
  bm_portal_name :: "rstring option"
  bm_statement_name :: "rstring option"
  bm_parameter_format_codes :: "16 word list"
  bm_parameters :: "u8 list option list"
  bm_result_column_format_codes :: "16 word list"

record execute_msg =
  em_name :: "rstring option"
  em_max_rows :: int

datatype authentication = AuthOk | CleartextPassword | KerberosV5 | MD5Password | SASL "rstring list"
  | SASLContinue | SASLFinal | AuthOther

datatype secret_key = KeyI32 int | KeyBytes "u8 list"

datatype password_family = Password rstring | SASLInitialResponse rstring "u8 list option"
  | SASLResponse "u8 list" | RawPassword "u8 list" | PasswordOther

datatype transaction_status = Idle | Transaction | TxnError

record field_description =
  fd_name :: rstring
  fd_type_id :: u32
  fd_format_code :: "16 word"

definition field_summary_of :: "field_description \<Rightarrow> field_summary" where
  "field_summary_of f =
     \<lparr> fs_name = fd_name f, fs_type_oid = fd_type_id f, fs_format_code = fd_format_code f \<rparr>"

record data_row =
  dr_data :: "u8 list"
  dr_field_count :: int

record data_column =
  dc_name :: rstring
  dc_type_oid :: u32
  dc_value :: rstring

subsection \<open>Byte helpers\<close>

definition show_u32 :: "u32 \<Rightarrow> rstring" where "show_u32 w = show_nat (unat w)"

definition is_printable :: "u8 list \<Rightarrow> bool" where
  "is_printable b \<longleftrightarrow> b \<noteq> [] \<and> list_all (\<lambda>c. (32 \<le> c \<and> c < 127) \<or> c = 9 \<or> c = 10) b"

definition ascii_text :: "u8 list \<Rightarrow> rstring" where
  "ascii_text b = map unat b"

definition hex_preview :: "u8 list \<Rightarrow> rstring" where
  "hex_preview b = concat (map hex_byte (take 48 b))
     @ (if 48 < length b then [ellipsis] @ lit '' ('' @ show_nat (length b) @ lit '' bytes)'' else [])"

definition quote :: "u8 list \<Rightarrow> rstring" where
  "quote b = (if is_printable b then [39] @ ascii_text b @ [39] else hex_preview b)"

definition format_bytes :: "u8 list \<Rightarrow> rstring" where
  "format_bytes b = (if is_printable b then ascii_text b else hex_preview b)"

definition lookup_field :: "(u8 \<times> rstring) list \<Rightarrow> u8 \<Rightarrow> rstring option" where
  "lookup_field flds ty = map_of flds ty"

definition or_unnamed :: "rstring option \<Rightarrow> rstring" where
  "or_unnamed n = (case n of None \<Rightarrow> lit ''<unnamed>'' | Some s \<Rightarrow> s)"

definition comma :: rstring where "comma = lit '', ''"

definition bracket :: "rstring \<Rightarrow> rstring" where "bracket s = [91] @ s @ [93]"

subsection \<open>One formatter per message\<close>

definition format_startup :: "startup \<Rightarrow> rstring" where
  "format_startup s =
     lit ''protocol '' @ show_nat (protocol_number_major s) @ [46] @ show_nat (protocol_number_minor s)
     @ (if su_parameters s = [] then []
        else lit ''  '' @ join comma (map (\<lambda>(k, v). k @ [61] @ v) (su_parameters s)))"

definition format_oids :: "u32 list \<Rightarrow> rstring" where
  "format_oids oids = (if oids = [] then lit ''-'' else join comma (map show_u32 oids))"

definition format_parse :: "parse_msg \<Rightarrow> rstring" where
  "format_parse p = or_unnamed (pm_name p) @ lit ''  [param types: '' @ format_oids (pm_type_oids p)
     @ lit '']  '' @ pm_query p"

definition format_format_codes :: "16 word list \<Rightarrow> rstring" where
  "format_format_codes codes =
     (if codes = [] \<or> list_all (\<lambda>c. c = FORMAT_CODE_TEXT) codes then lit ''text''
      else if list_all (\<lambda>c. c = FORMAT_CODE_BINARY) codes then lit ''binary''
      else bracket (join comma (map (\<lambda>c. if c = FORMAT_CODE_BINARY then lit ''binary'' else lit ''text'') codes)))"

definition format_bind :: "bind_msg \<Rightarrow> rstring" where
  "format_bind b =
     (let codes = bm_parameter_format_codes b;
          all_text = list_all (\<lambda>c. c = FORMAT_CODE_TEXT) codes \<or> codes = [];
          all_binary = list_all (\<lambda>c. c = FORMAT_CODE_BINARY) codes;
          params = map (\<lambda>p. case p of
              None \<Rightarrow> lit ''NULL''
            | Some bytes \<Rightarrow> if all_binary then hex_preview bytes
                else if all_text \<or> is_printable bytes then quote bytes
                else hex_preview bytes) (bm_parameters b)
      in or_unnamed (bm_portal_name b) @ lit ''  <-  '' @ or_unnamed (bm_statement_name b)
         @ lit ''  params: '' @ bracket (join comma params)
         @ lit ''  result: '' @ format_format_codes (bm_result_column_format_codes b))"

definition format_describe_close :: "u8 \<Rightarrow> rstring option \<Rightarrow> rstring" where
  "format_describe_close target_type name =
     (if target_type = 83 then lit ''statement'' else if target_type = 80 then lit ''portal'' else lit ''?'')
     @ [32] @ or_unnamed name"

definition format_execute :: "execute_msg \<Rightarrow> rstring" where
  "format_execute e =
     (if em_max_rows e = 0 then or_unnamed (em_name e)
      else or_unnamed (em_name e) @ lit '' (limit '' @ show_int (em_max_rows e) @ lit '')'')"

fun format_auth :: "authentication \<Rightarrow> rstring" where
  "format_auth AuthOk = lit ''Ok''"
| "format_auth CleartextPassword = lit ''CleartextPassword''"
| "format_auth KerberosV5 = lit ''KerberosV5''"
| "format_auth MD5Password = lit ''MD5Password''"
| "format_auth (SASL methods) = lit ''SASL '' @ bracket (join comma methods)"
| "format_auth SASLContinue = lit ''SASLContinue''"
| "format_auth SASLFinal = lit ''SASLFinal''"
| "format_auth AuthOther = lit ''Authentication''"

definition format_bkd :: "int \<Rightarrow> secret_key \<Rightarrow> rstring" where
  "format_bkd pid key = lit ''pid='' @ show_int pid @ lit '' key='' @
     (case key of KeyI32 i \<Rightarrow> show_int i | KeyBytes bs \<Rightarrow> hex_preview bs)"

definition format_negotiate :: "int \<Rightarrow> rstring list \<Rightarrow> rstring" where
  "format_negotiate newest unsupported =
     lit ''negotiated minor protocol '' @ show_int newest
     @ (if unsupported = [] then [] else lit ''; unsupported: '' @ bracket (join comma unsupported))"

fun txn_status :: "transaction_status \<Rightarrow> rstring" where
  "txn_status Idle = lit ''idle''"
| "txn_status Transaction = lit ''in-transaction''"
| "txn_status TxnError = lit ''failed-transaction''"

definition format_error_fields :: "(u8 \<times> rstring) list \<Rightarrow> rstring" where
  "format_error_fields flds =
     (let severity = (case lookup_field flds 83 of Some s \<Rightarrow> s
            | None \<Rightarrow> (case lookup_field flds 86 of Some v \<Rightarrow> v | None \<Rightarrow> lit ''ERROR''));
          code = (case lookup_field flds 67 of Some c \<Rightarrow> c | None \<Rightarrow> []);
          msg = (case lookup_field flds 77 of Some m \<Rightarrow> m | None \<Rightarrow> [])
      in severity @ lit '': '' @ msg @ [32] @ bracket code
         @ (case lookup_field flds 68 of Some d \<Rightarrow> lit ''  detail: '' @ d | None \<Rightarrow> [])
         @ (case lookup_field flds 72 of Some h \<Rightarrow> lit ''  hint: '' @ h | None \<Rightarrow> []))"

fun format_pmf :: "password_family \<Rightarrow> rstring" where
  "format_pmf (Password p) = lit ''password (len='' @ show_nat (utf8_len p) @ lit '')''"
| "format_pmf (SASLInitialResponse mech data) = lit ''SASL initial  mech='' @ mech @ lit ''  data-len=''
     @ show_nat (case data of None \<Rightarrow> 0 | Some d \<Rightarrow> length d)"
| "format_pmf (SASLResponse d) = lit ''SASL continue (len='' @ show_nat (length d) @ lit '')''"
| "format_pmf (RawPassword b) = lit ''raw password-family message (len='' @ show_nat (length b) @ lit '')''"
| "format_pmf PasswordOther = lit ''auth message''"

definition format_row_desc :: "field_summary list \<Rightarrow> rstring" where
  "format_row_desc flds = join comma (map (\<lambda>f.
     fs_name f @ lit ''(oid='' @ show_u32 (fs_type_oid f) @ comma
     @ (if fs_format_code f = FORMAT_CODE_TEXT then lit ''text''
        else if fs_format_code f = FORMAT_CODE_BINARY then lit ''binary'' else lit ''?'')
     @ lit '')'') flds)"

definition format_columns :: "data_column list \<Rightarrow> bool \<Rightarrow> rstring" where
  "format_columns cols labelled =
     (if labelled then lit ''{ '' @ join comma (map (\<lambda>c. dc_name c @ [61] @ dc_value c) cols) @ lit '' }''
      else bracket (join comma (map dc_value cols)))"

definition format_copy_response :: "rstring \<Rightarrow> int \<Rightarrow> rstring" where
  "format_copy_response dir columns = lit ''copy '' @ dir @ lit '' ('' @ show_int columns @ lit '' columns)''"

subsection \<open>Data rows\<close>

datatype field_read = NullField | BytesField "u8 list" | Truncated

text \<open>\<open>read_field\<close>: the field, whether more may follow, and the rest of the payload.\<close>

definition read_field :: "u8 list \<Rightarrow> (field_read \<times> bool \<times> u8 list) run" where
  "read_field b =
     (if length b < 4 then Some (Truncated, False, b)
      else do {
        lenbytes \<leftarrow> slice b 0 4;
        rest \<leftarrow> slice_from b 4;
        (let len = sint (be_word lenbytes :: 32 word) in
         if len < 0 then Some (NullField, True, rest)
         else if length rest < nat len then Some (Truncated, False, rest)
         else do {
           bytes \<leftarrow> slice rest 0 (nat len);
           rest' \<leftarrow> slice_from rest (nat len);
           Some (BytesField bytes, True, rest') }) })"

definition render_field :: "field_summary option \<Rightarrow> field_read \<Rightarrow> rstring" where
  "render_field f r =
     (case r of
        NullField \<Rightarrow> lit ''NULL''
      | Truncated \<Rightarrow> lit ''<?>''
      | BytesField bytes \<Rightarrow>
          if (case f of Some f \<Rightarrow> fs_format_code f = FORMAT_CODE_BINARY | None \<Rightarrow> False)
          then hex_preview bytes else quote bytes)"

definition column_of :: "field_summary option \<Rightarrow> field_read \<Rightarrow> data_column" where
  "column_of f r = \<lparr> dc_name = (case f of Some f \<Rightarrow> fs_name f | None \<Rightarrow> lit ''?''),
     dc_type_oid = (case f of Some f \<Rightarrow> fs_type_oid f | None \<Rightarrow> 0), dc_value = render_field f r \<rparr>"

definition desc_field :: "field_summary list option \<Rightarrow> nat \<Rightarrow> field_summary option" where
  "desc_field desc i = (case desc of None \<Rightarrow> None | Some d \<Rightarrow> if i < length d then Some (d ! i) else None)"

text \<open>The loop over \<open>i..field_count\<close>, with \<open>n\<close> fields left.\<close>

fun columns_loop :: "field_summary list option \<Rightarrow> nat \<Rightarrow> nat \<Rightarrow> u8 list \<Rightarrow> data_column list run" where
  "columns_loop desc i 0 b = Some []"
| "columns_loop desc i (Suc n) b =
     Option.bind (read_field b) (\<lambda>(r, more, b').
       if more then map_option ((#) (column_of (desc_field desc i) r)) (columns_loop desc (Suc i) n b')
       else Some [column_of (desc_field desc i) r])"

definition data_row_columns :: "data_row \<Rightarrow> field_summary list option \<Rightarrow> data_column list run" where
  "data_row_columns r desc = columns_loop desc 0 (nat (max (dr_field_count r) 0)) (dr_data r)"

subsection \<open>The rendering of data rows\<close>

text \<open>The wire form of a row: each field is its length and its bytes, a NULL has length -1.\<close>

fun field_wire :: "u8 list option \<Rightarrow> u8 list" where
  "field_wire None = enc_be 4 (- 1 :: u32)"
| "field_wire (Some b) = enc_be 4 (of_nat (length b) :: u32) @ b"

definition row_wire :: "u8 list option list \<Rightarrow> u8 list" where
  "row_wire vs = concat (map field_wire vs)"

fun field_of :: "u8 list option \<Rightarrow> field_read" where
  "field_of None = NullField"
| "field_of (Some b) = BytesField b"

lemma read_field_total: "\<exists>r more b'. read_field b = Some (r, more, b') \<and> length b' \<le> length b"
  by (auto simp: read_field_def Let_def run_simps)

lemma be_word_enc_u32 [simp]: "be_word (enc_be 4 (w :: u32)) = w"
  by (rule be_word_enc) simp

lemma sint_length: "n < 2 ^ 31 \<Longrightarrow> sint (of_nat n :: u32) = int n"
proof -
  assume n: "n < 2 ^ 31"
  have "signed_take_bit 31 (int n) = int n"
    using n by (intro signed_take_bit_int_eq_self) auto
  then show ?thesis by (simp add: signed_of_nat)
qed

lemma read_field_wire:
  assumes "case v of None \<Rightarrow> True | Some b \<Rightarrow> length b < 2 ^ 31"
  shows "read_field (field_wire v @ rest) = Some (field_of v, True, rest)"
proof (cases v)
  case None
  then show ?thesis by (simp add: read_field_def run_simps)
next
  case (Some b)
  then have "sint (of_nat (length b) :: u32) = int (length b)" using assms by (intro sint_length) simp
  then show ?thesis by (simp add: Some read_field_def run_simps)
qed

lemma columns_loop_total: "\<exists>cols. columns_loop desc i n b = Some cols \<and> length cols \<le> n"
proof (induction n arbitrary: i b)
  case (Suc n)
  obtain r more b' where r: "read_field b = Some (r, more, b')" using read_field_total [of b] by blast
  obtain cols where "columns_loop desc (Suc i) n b' = Some cols" "length cols \<le> n" using Suc.IH by blast
  then show ?case by (simp add: r)
qed simp

lemma columns_loop_wire:
  assumes "\<forall>v \<in> set vs. case v of None \<Rightarrow> True | Some b \<Rightarrow> length b < 2 ^ 31"
  shows "columns_loop desc i (length vs) (row_wire vs @ rest) =
    Some (map (\<lambda>(j, v). column_of (desc_field desc (i + j)) (field_of v)) (enumerate 0 vs))"
  using assms
proof (induction vs arbitrary: i)
  case (Cons v vs)
  have "read_field (field_wire v @ row_wire vs @ rest) = Some (field_of v, True, row_wire vs @ rest)"
    using Cons.prems by (intro read_field_wire) simp
  moreover have "enumerate (Suc 0) vs = map (\<lambda>(j, v). (Suc j, v)) (enumerate 0 vs)"
    by (simp add: enumerate_Suc_eq apfst_def map_prod_def)
  ultimately show ?case
    using Cons.IH [of "Suc i"] Cons.prems by (simp add: row_wire_def split_beta comp_def)
qed simp

lemma data_row_columns_wire:
  assumes "\<forall>v \<in> set vs. case v of None \<Rightarrow> True | Some b \<Rightarrow> length b < 2 ^ 31"
  shows "data_row_columns \<lparr> dr_data = row_wire vs, dr_field_count = int (length vs) \<rparr> desc =
    Some (map (\<lambda>(j, v). column_of (desc_field desc j) (field_of v)) (enumerate 0 vs))"
  using columns_loop_wire [OF assms, of desc 0 "[]"] by (simp add: data_row_columns_def)

subsection \<open>Properties\<close>

text \<open>Rendering a data row never panics, whatever its payload and its field count, and gives at most as many
  columns as the field count says.\<close>

theorem data_row_columns_total:
  "\<exists>cols. data_row_columns r desc = Some cols \<and> int (length cols) \<le> max (dr_field_count r) 0"
  using columns_loop_total [of desc 0 "nat (max (dr_field_count r) 0)" "dr_data r"]
  by (auto simp: data_row_columns_def)

text \<open>A well-formed row is rendered field by field: one column per value, in order, each named, typed and
  formatted by the description of its own position, with NULL for a null.\<close>

lemma data_row_columns_wellformed:
  assumes "\<forall>v \<in> set vs. case v of None \<Rightarrow> True | Some b \<Rightarrow> length b < 2 ^ 31"
  shows "data_row_columns \<lparr> dr_data = row_wire vs, dr_field_count = int (length vs) \<rparr> desc =
    Some (map (\<lambda>(j, v). column_of (desc_field desc j) (field_of v)) (enumerate 0 vs))"
  by (rule data_row_columns_wire [OF assms])

theorem data_row_columns_wellformed_witness:
  "data_row_columns \<lparr> dr_data = row_wire [Some [52, 50], None], dr_field_count = int (length [Some [52, 50 :: u8], None]) \<rparr>
     (Some [\<lparr> fs_name = lit ''id'', fs_type_oid = 23, fs_format_code = 0 \<rparr>]) =
   Some (map (\<lambda>(j, v). column_of (desc_field (Some [\<lparr> fs_name = lit ''id'', fs_type_oid = 23, fs_format_code = 0 \<rparr>]) j) (field_of v))
     (enumerate 0 [Some [52, 50], None]))"
  by (rule data_row_columns_wellformed) simp

end
