(* ===== verification/Decode.thy ===== *)
theory Decode
  imports Decode_Format Display_Filter
begin

text \<open>
  Message decoding and the routing of its output (\<open>src/decode.rs\<close>).

  The decoders of the pgwire crate are parameters: given the context and the buffer they give a
  message, a request for more bytes or an error, and the buffer they leave. What the source
  reads of the environment is in \<open>env\<close>: the wall clock (its \<open>n\<close>-th reading) and the \<open>Debug\<close> form of
  strings. The sinks of the output are in \<open>io\<close>: the capture buffer of the tests, the records sent to the consumer's
  channel, and the two terminal streams.
\<close>

subsection \<open>Output routing\<close>

datatype event_detail = RowDescriptionDetail "field_summary list" | DataRowDetail "data_column list"

datatype output_record = Message display_message "event_detail option" | Line rstring | Status rstring

record io =
  capture :: "output_record list option"
  output_tx :: "output_record list option"
  stdout :: "rstring list"
  stderr :: "rstring list"
  clock_reads :: nat

record env =
  clock :: "nat \<Rightarrow> rstring \<times> rstring"
  debug_str :: "rstring \<Rightarrow> rstring"

fun rendered :: "output_record \<Rightarrow> rstring" where
  "rendered (Message m d) = dm_rendered m"
| "rendered (Line l) = l"
| "rendered (Status l) = l"

fun output_matches :: "('re \<Rightarrow> rstring \<Rightarrow> bool) \<Rightarrow> 're display_filter \<Rightarrow> output_record \<Rightarrow> bool" where
  "output_matches is_match f (Message m d) = filter_matches is_match f m"
| "output_matches is_match f (Line l) = True"
| "output_matches is_match f (Status l) = True"

fun output_detail :: "output_record \<Rightarrow> event_detail option" where
  "output_detail (Message m d) = d"
| "output_detail (Line l) = None"
| "output_detail (Status l) = None"

definition set_output :: "io \<Rightarrow> io" where
  "set_output i = i\<lparr> output_tx := Some [] \<rparr>"

definition close_output :: "io \<Rightarrow> io" where
  "close_output i = i\<lparr> output_tx := None \<rparr>"

fun print_direct :: "output_record \<Rightarrow> io \<Rightarrow> io" where
  "print_direct (Message m d) i = i\<lparr> stdout := stdout i @ [dm_rendered m] \<rparr>"
| "print_direct (Line s) i = i\<lparr> stdout := stdout i @ [s] \<rparr>"
| "print_direct (Status s) i = i\<lparr> stderr := stderr i @ [s] \<rparr>"

definition deliver :: "output_record \<Rightarrow> io \<Rightarrow> io" where
  "deliver r i =
     (case capture i of
        Some rs \<Rightarrow> i\<lparr> capture := Some (rs @ [r]) \<rparr>
      | None \<Rightarrow>
          (case output_tx i of
             Some q \<Rightarrow> i\<lparr> output_tx := Some (q @ [r]) \<rparr>
           | None \<Rightarrow> print_direct r i))"

definition out :: "rstring \<Rightarrow> io \<Rightarrow> io" where "out line = deliver (Line line)"
definition status :: "rstring \<Rightarrow> io \<Rightarrow> io" where "status msg = deliver (Status msg)"
definition replay :: "output_record \<Rightarrow> io \<Rightarrow> io" where "replay r = deliver r"

definition start_capture :: "io \<Rightarrow> io" where
  "start_capture i = i\<lparr> capture := Some [] \<rparr>"

definition take_output_capture :: "io \<Rightarrow> output_record list \<times> io" where
  "take_output_capture i = ((case capture i of None \<Rightarrow> [] | Some rs \<Rightarrow> rs), i\<lparr> capture := None \<rparr>)"

definition take_capture :: "io \<Rightarrow> rstring list \<times> io" where
  "take_capture i = (let (rs, i) = take_output_capture i
     in (map rendered (filter (\<lambda>r. case r of Status _ \<Rightarrow> False | _ \<Rightarrow> True) rs), i))"

text \<open>Reading the clock: the RFC 3339 text and the display time.\<close>

definition now :: "env \<Rightarrow> io \<Rightarrow> (rstring \<times> rstring) \<times> io" where
  "now e i = (clock e (clock_reads i), i\<lparr> clock_reads := Suc (clock_reads i) \<rparr>)"

definition ts_now :: "env \<Rightarrow> io \<Rightarrow> rstring \<times> io" where
  "ts_now e i = (let (t, i) = now e i in (snd t, i))"

subsection \<open>Emitting messages\<close>

fun dir_tag :: "role \<Rightarrow> rstring" where
  "dir_tag Client = [70, arrow, 66]"
| "dir_tag Server = [66, arrow, 70]"

fun role_dbg :: "role \<Rightarrow> rstring" where
  "role_dbg Client = lit ''client''"
| "role_dbg Server = lit ''server''"

fun direction_of :: "role \<Rightarrow> message_direction" where
  "direction_of Client = FrontendToBackend"
| "direction_of Server = BackendToFrontend"

definition emit_with_detail ::
    "env \<Rightarrow> role \<Rightarrow> socket_addr \<Rightarrow> rstring \<Rightarrow> rstring \<Rightarrow> event_detail option \<Rightarrow> io \<Rightarrow> io" where
  "emit_with_detail e r cl kind text detail i =
     (let ((timestamp, display_time), i) = now e i;
          prefix = bracket display_time @ [32] @ bracket (dir_tag r) @ [32] @ kind;
          line = (if text = [] then prefix else prefix @ lit '': '' @ text)
      in deliver (Message \<lparr> dm_timestamp = timestamp, dm_rendered = line, dm_client = cl,
           dm_direction = direction_of r, dm_kind = kind, dm_text = text \<rparr> detail) i)"

definition emit :: "env \<Rightarrow> role \<Rightarrow> socket_addr \<Rightarrow> rstring \<Rightarrow> rstring \<Rightarrow> io \<Rightarrow> io" where
  "emit e r cl kind text = emit_with_detail e r cl kind text None"

definition emit_rich :: "env \<Rightarrow> role \<Rightarrow> socket_addr \<Rightarrow> rstring \<Rightarrow> rstring \<Rightarrow> event_detail \<Rightarrow> io \<Rightarrow> io" where
  "emit_rich e r cl kind text detail = emit_with_detail e r cl kind text (Some detail)"

definition warn :: "env \<Rightarrow> role \<Rightarrow> socket_addr \<Rightarrow> rstring \<Rightarrow> io \<Rightarrow> io" where
  "warn e r cl msg i =
     (let ((timestamp, display_time), i) = now e i;
          line = bracket display_time @ [32] @ bracket (dir_tag r) @ [32, warn_sign, 32] @ msg
      in deliver (Message \<lparr> dm_timestamp = timestamp, dm_rendered = line, dm_client = cl,
           dm_direction = direction_of r, dm_kind = lit ''Warning'', dm_text = msg \<rparr> None) i)"

subsection \<open>Messages of the protocol\<close>

datatype ssl_negotiation = SslNone | PostgresSsl | PostgresGss

datatype fmsg =
    SslNegotiation ssl_negotiation | Startup startup | CancelRequest | Query rstring | Parse parse_msg
  | Bind bind_msg | Describe u8 "rstring option" | Execute execute_msg | Close u8 "rstring option"
  | Sync | Flush | Terminate | PasswordMessageFamily password_family
  | FCopyData "u8 list" | FCopyFail rstring | FCopyDone | FPortalSuspended

datatype ssl_response = Accept | Refuse | Unknown

datatype bmsg =
    Authentication authentication | ParameterStatus rstring rstring | BackendKeyData int secret_key
  | NegotiateProtocolVersion int "rstring list" | ReadyForQuery transaction_status | CommandComplete rstring
  | EmptyQueryResponse | ErrorResponse "(u8 \<times> rstring) list" | NoticeResponse "(u8 \<times> rstring) list"
  | NotificationResponse rstring rstring | RowDescription "field_description list" | NoData | DataRow data_row
  | ParameterDescription "u32 list" | ParseComplete | BindComplete | CloseComplete | BPortalSuspended
  | SslResponse ssl_response | GssEncResponse ssl_response
  | CopyInResponse int | CopyOutResponse int | CopyBothResponse int
  | BCopyData "u8 list" | BCopyFail rstring | BCopyDone

datatype negotiation_wait = NoWait | WaitSsl | WaitGss

record drain_outcome =
  server_negotiation_wait :: negotiation_wait
  encrypted :: bool
  msgs :: u64
  bytes :: u64

definition default_outcome :: drain_outcome where
  "default_outcome = \<lparr> server_negotiation_wait = NoWait, encrypted = False, msgs = 0, bytes = 0 \<rparr>"

definition count_message :: "u64 \<Rightarrow> drain_outcome \<Rightarrow> drain_outcome" where
  "count_message consumed r = r\<lparr> msgs := msgs r + 1, bytes := bytes r + consumed \<rparr>"

subsection \<open>Handling a message\<close>

text \<open>The result: whether to go on draining, the direction, the outcome and the sinks.\<close>

type_synonym 'c handled = "bool \<times> 'c direction \<times> drain_outcome \<times> io"

definition handle_frontend :: "env \<Rightarrow> 'c direction \<Rightarrow> fmsg \<Rightarrow> drain_outcome \<Rightarrow> u64 \<Rightarrow> io \<Rightarrow> 'c handled" where
  "handle_frontend e dir msg outcome consumed i =
     (let em = (\<lambda>kind text. emit e (role dir) (client dir) kind text i);
          is_peek = (msg = SslNegotiation SslNone);
          outcome = (if is_peek then outcome else count_message consumed outcome);
          dir_ssl = dir\<lparr> ctx := (ctx dir)\<lparr> awaiting_frontend_ssl := False \<rparr> \<rparr>;
          said = (\<lambda>kind text. (True, dir, outcome, em kind text))
      in case msg of
        SslNegotiation meta \<Rightarrow>
          (case meta of
             SslNone \<Rightarrow> (True, dir_ssl, outcome, i)
           | PostgresSsl \<Rightarrow> (False, dir_ssl, outcome\<lparr> server_negotiation_wait := WaitSsl \<rparr>,
               em (lit ''SSLRequest'') (lit ''(awaiting server reply)''))
           | PostgresGss \<Rightarrow> (False, dir_ssl, outcome\<lparr> server_negotiation_wait := WaitGss \<rparr>,
               em (lit ''GssEncRequest'') (lit ''(awaiting server reply)'')))
      | Startup s \<Rightarrow> (True, dir\<lparr> ctx := (ctx dir)\<lparr> awaiting_frontend_startup := False \<rparr> \<rparr>, outcome,
          em (lit ''Startup'') (format_startup s))
      | CancelRequest \<Rightarrow> said (lit ''CancelRequest'') []
      | Query q \<Rightarrow> said (lit ''Query'') q
      | Parse p \<Rightarrow> said (lit ''Parse'') (format_parse p)
      | Bind b \<Rightarrow> said (lit ''Bind'') (format_bind b)
      | Describe t n \<Rightarrow> said (lit ''Describe'') (format_describe_close t n)
      | Execute x \<Rightarrow> said (lit ''Execute'') (format_execute x)
      | Close t n \<Rightarrow> said (lit ''Close'') (format_describe_close t n)
      | Sync \<Rightarrow> said (lit ''Sync'') []
      | Flush \<Rightarrow> said (lit ''Flush'') []
      | Terminate \<Rightarrow> said (lit ''Terminate'') []
      | PasswordMessageFamily pmf \<Rightarrow> said (lit ''AuthData'') (format_pmf pmf)
      | FCopyData d \<Rightarrow> said (lit ''CopyData'') (format_bytes d)
      | FCopyFail m \<Rightarrow> said (lit ''CopyFail'') m
      | FCopyDone \<Rightarrow> said (lit ''CopyDone'') []
      | FPortalSuspended \<Rightarrow> said (lit ''PortalSuspended'') [])"

definition handle_data_row :: "env \<Rightarrow> 'c direction \<Rightarrow> data_row \<Rightarrow> io \<Rightarrow> io run" where
  "handle_data_row e dir r i =
     map_option (\<lambda>columns.
       let text = format_columns columns (row_desc dir \<noteq> None)
       in if row_desc dir \<noteq> None then emit_rich e (role dir) (client dir) (lit ''DataRow'') text (DataRowDetail columns) i
          else emit e (role dir) (client dir) (lit ''DataRow'') text i)
       (data_row_columns r (row_desc dir))"

definition negotiated :: "env \<Rightarrow> 'c direction \<Rightarrow> drain_outcome \<Rightarrow> rstring \<Rightarrow> rstring \<Rightarrow> ssl_response \<Rightarrow> io \<Rightarrow> drain_outcome \<times> io" where
  "negotiated e dir outcome kind proto s i =
     (case s of
        Accept \<Rightarrow> (outcome\<lparr> encrypted := True \<rparr>,
          warn e (role dir) (client dir) (proto @ lit '' accepted '' @ [em_dash]
            @ lit '' connection is now encrypted, decoding stops here'') i)
      | Refuse \<Rightarrow> (outcome, emit e (role dir) (client dir) kind (lit ''refuse (continuing in cleartext)'') i)
      | Unknown \<Rightarrow> (outcome, emit e (role dir) (client dir) kind (lit ''unknown'') i))"

definition notify_text :: "env \<Rightarrow> rstring \<Rightarrow> rstring \<Rightarrow> rstring" where
  "notify_text e channel payload = lit ''channel='' @ debug_str e channel @ lit '' payload='' @ debug_str e payload"

definition handle_backend ::
    "env \<Rightarrow> 'c direction \<Rightarrow> bmsg \<Rightarrow> drain_outcome \<Rightarrow> u64 \<Rightarrow> io \<Rightarrow> ('c direction \<times> drain_outcome \<times> io) run" where
  "handle_backend e dir msg outcome consumed i =
     (let em = (\<lambda>kind text. emit e (role dir) (client dir) kind text i);
          outcome = count_message consumed outcome;
          said = (\<lambda>kind text. Some (dir, outcome, em kind text))
      in case msg of
        Authentication a \<Rightarrow> said (lit ''Authentication'') (format_auth a)
      | ParameterStatus n v \<Rightarrow> said (lit ''ParameterStatus'') (n @ [61] @ v)
      | BackendKeyData pid k \<Rightarrow> said (lit ''BackendKeyData'') (format_bkd pid k)
      | NegotiateProtocolVersion n us \<Rightarrow> said (lit ''NegotiateProtocolVersion'') (format_negotiate n us)
      | ReadyForQuery s \<Rightarrow> said (lit ''ReadyForQuery'') (lit ''txn='' @ txn_status s)
      | CommandComplete t \<Rightarrow> said (lit ''CommandComplete'') t
      | EmptyQueryResponse \<Rightarrow> said (lit ''EmptyQueryResponse'') []
      | ErrorResponse fs \<Rightarrow> said (lit ''ERROR'') (format_error_fields fs)
      | NoticeResponse fs \<Rightarrow> said (lit ''NOTICE'') (format_error_fields fs)
      | NotificationResponse channel payload \<Rightarrow> said (lit ''NOTIFY'') (notify_text e channel payload)
      | RowDescription fs \<Rightarrow>
          (let summ = map field_summary_of fs
           in Some (dir\<lparr> row_desc := Some summ \<rparr>, outcome,
                emit_rich e (role dir) (client dir) (lit ''RowDescription'') (format_row_desc summ)
                  (RowDescriptionDetail summ) i))
      | NoData \<Rightarrow> Some (dir\<lparr> row_desc := None \<rparr>, outcome, em (lit ''NoData'') [])
      | DataRow r \<Rightarrow> map_option (\<lambda>i. (dir, outcome, i)) (handle_data_row e dir r i)
      | ParameterDescription ts \<Rightarrow> said (lit ''ParameterDescription'') (format_oids ts)
      | ParseComplete \<Rightarrow> said (lit ''ParseComplete'') []
      | BindComplete \<Rightarrow> said (lit ''BindComplete'') []
      | CloseComplete \<Rightarrow> said (lit ''CloseComplete'') []
      | BPortalSuspended \<Rightarrow> said (lit ''PortalSuspended'') []
      | SslResponse s \<Rightarrow>
          (let (outcome, i) = negotiated e dir outcome (lit ''SslResponse'') (lit ''SSL'') s i
           in Some (dir\<lparr> ctx := (ctx dir)\<lparr> awaiting_backend_ssl_response := False \<rparr> \<rparr>, outcome, i))
      | GssEncResponse s \<Rightarrow>
          (let (outcome, i) = negotiated e dir outcome (lit ''GssEncResponse'') (lit ''GSS'') s i
           in Some (dir\<lparr> ctx := (ctx dir)\<lparr> awaiting_backend_gss_response := False \<rparr> \<rparr>, outcome, i))
      | CopyInResponse c \<Rightarrow> said (lit ''CopyInResponse'') (format_copy_response (lit ''in'') c)
      | CopyOutResponse c \<Rightarrow> said (lit ''CopyOutResponse'') (format_copy_response (lit ''out'') c)
      | CopyBothResponse c \<Rightarrow> said (lit ''CopyBothResponse'') (format_copy_response (lit ''both'') c)
      | BCopyData d \<Rightarrow> said (lit ''CopyData'') (format_bytes d)
      | BCopyFail m \<Rightarrow> said (lit ''CopyFail'') m
      | BCopyDone \<Rightarrow> said (lit ''CopyDone'') [])"

subsection \<open>Draining a buffer\<close>

datatype 'm decoded = NeedMore | Decoded 'm | DecodeError rstring

type_synonym ('c, 'm) decoder = "'c decode_context_scheme \<Rightarrow> u8 list \<Rightarrow> 'm decoded \<times> u8 list"

definition decode_error :: "role \<Rightarrow> rstring \<Rightarrow> 'c direction \<Rightarrow> io \<Rightarrow> 'c direction \<times> io" where
  "decode_error r err dir i =
     (dir\<lparr> rxbuf := [] \<rparr>,
      out (bracket (role_dbg r) @ [32] @ bracket (dir_tag r) @ [32, warn_sign] @ lit '' decode error (''
        @ show_nat (length (rxbuf dir)) @ lit '' lost bytes): '' @ err) i)"

text \<open>The loop of \<open>drain_direction\<close>, one for the two roles; \<open>None\<close> when it does not end (the
  panics of a handler are excluded by \<open>handle_backend_total\<close> below).\<close>

partial_function (option) drain_loop ::
    "('c, 'm) decoder \<Rightarrow> ('c direction \<Rightarrow> 'm \<Rightarrow> drain_outcome \<Rightarrow> u64 \<Rightarrow> io \<Rightarrow> 'c handled run)
      \<Rightarrow> role \<Rightarrow> 'c direction \<Rightarrow> drain_outcome \<Rightarrow> io \<Rightarrow> ('c direction \<times> drain_outcome \<times> io) option" where
  "drain_loop dec handle r dir outcome i =
     (let before = length (rxbuf dir); (result, buf) = dec (ctx dir) (rxbuf dir); dir = dir\<lparr> rxbuf := buf \<rparr>
      in case result of
        NeedMore \<Rightarrow> Some (dir, outcome, i)
      | Decoded msg \<Rightarrow>
          Option.bind (handle dir msg outcome (of_nat (before - length buf)) i)
            (\<lambda>(continue, dir, outcome, i).
               if continue then drain_loop dec handle r dir outcome i else Some (dir, outcome, i))
      | DecodeError err \<Rightarrow> (let (dir, i) = decode_error r err dir i in Some (dir, outcome, i)))"

definition drain_direction ::
    "('c, fmsg) decoder \<Rightarrow> ('c, bmsg) decoder \<Rightarrow> env \<Rightarrow> 'c direction \<Rightarrow> drain_outcome \<Rightarrow> io
      \<Rightarrow> ('c direction \<times> drain_outcome \<times> io) option" where
  "drain_direction fdec bdec e dir outcome i =
     (if encrypted outcome then Some (dir, outcome, i)
      else if role dir = Client
      then drain_loop fdec (\<lambda>d m o' n i. Some (handle_frontend e d m o' n i)) Client dir outcome i
      else drain_loop bdec (\<lambda>d m o' n i. map_option (Pair True) (handle_backend e d m o' n i)) Server dir outcome i)"

subsection \<open>Records reach whichever sink is active\<close>

text \<open>\<open>routes rs i j\<close>: from \<open>i\<close>, the records \<open>rs\<close> are delivered in that order and the clock may have been read.\<close>

definition routes :: "output_record list \<Rightarrow> io \<Rightarrow> io \<Rightarrow> bool" where
  "routes rs i j \<longleftrightarrow> (\<exists>n. j = (fold deliver rs i)\<lparr> clock_reads := n \<rparr>)"

lemma deliver_clock: "deliver r (i\<lparr> clock_reads := n \<rparr>) = (deliver r i)\<lparr> clock_reads := n \<rparr>"
  by (cases r) (auto simp: deliver_def split: option.split)

lemma fold_deliver_clock: "fold deliver rs (i\<lparr> clock_reads := n \<rparr>) = (fold deliver rs i)\<lparr> clock_reads := n \<rparr>"
  by (induction rs arbitrary: i) (simp_all add: deliver_clock)

lemma routes_refl: "routes [] i i"
  unfolding routes_def by (rule exI [of _ "clock_reads i"]) simp

lemma routes_trans: "routes as i j \<Longrightarrow> routes bs j k \<Longrightarrow> routes (as @ bs) i k"
  by (auto simp: routes_def fold_deliver_clock)

lemma routes_deliver: "routes [r] i (deliver r i)"
  unfolding routes_def by (rule exI [of _ "clock_reads (deliver r i)"]) simp

lemma routes_now: "routes [r] i (deliver r (i\<lparr> clock_reads := n \<rparr>))"
  by (auto simp: routes_def deliver_clock)

definition from_dir :: "role \<Rightarrow> socket_addr \<Rightarrow> rstring \<Rightarrow> output_record \<Rightarrow> bool" where
  "from_dir r cl kind rec \<longleftrightarrow> (\<exists>m d. rec = Message m d \<and> dm_client m = cl \<and> dm_direction m = direction_of r \<and> dm_kind m = kind)"

lemma emit_routes: "\<exists>rec. routes [rec] i (emit_with_detail e r cl kind tx d i) \<and> from_dir r cl kind rec"
  unfolding emit_with_detail_def now_def Let_def
  by (auto simp: split_beta from_dir_def intro!: exI routes_now)

lemma warn_routes: "\<exists>rec. routes [rec] i (warn e r cl tx i) \<and> from_dir r cl (lit ''Warning'') rec"
  unfolding warn_def now_def Let_def
  by (auto simp: split_beta from_dir_def intro!: exI routes_now)

subsection \<open>What a handler does\<close>

text \<open>The message is counted with its bytes and one record about it is emitted, or, for the peek
  that only clears a flag, neither; the buffer and the reassembly state are left alone; the
  outcome says that the stream is encrypted only if that is what the record warns of.\<close>

definition handled_ok ::
    "bool \<Rightarrow> 'c direction \<Rightarrow> drain_outcome \<Rightarrow> u64 \<Rightarrow> io \<Rightarrow> 'c direction \<times> drain_outcome \<times> io \<Rightarrow> bool" where
  "handled_ok counted dir r n i res =
     (case res of (dir', r', i') \<Rightarrow>
        rxbuf dir' = rxbuf dir \<and> role dir' = role dir \<and> client dir' = client dir
        \<and> next_seq dir' = next_seq dir \<and> ooo dir' = ooo dir
        \<and> (if counted
            then msgs r' = msgs r + 1 \<and> bytes r' = bytes r + n \<and>
              (\<exists>rec kind. routes [rec] i i' \<and> from_dir (role dir) (client dir) kind rec
                 \<and> (encrypted r' \<longrightarrow> encrypted r \<or> (role dir = Server \<and> kind = lit ''Warning'')))
            else msgs r' = msgs r \<and> bytes r' = bytes r \<and> i' = i \<and> encrypted r' = encrypted r))"

lemma handled_emit:
  assumes "rxbuf dir' = rxbuf dir" "role dir' = role dir" "client dir' = client dir" "next_seq dir' = next_seq dir"
    "ooo dir' = ooo dir" "msgs r' = msgs r + 1" "bytes r' = bytes r + n" "encrypted r' = encrypted r"
  shows "handled_ok True dir r n i (dir', r', emit e (role dir) (client dir) kind tx i)"
    and "handled_ok True dir r n i (dir', r', emit_rich e (role dir) (client dir) kind tx d i)"
  using assms emit_routes [of i e "role dir" "client dir" kind tx None]
    emit_routes [of i e "role dir" "client dir" kind tx "Some d"]
  by (auto simp: handled_ok_def emit_def emit_rich_def)

lemma handle_frontend_ok:
  fixes dir :: "'c direction"
  assumes "handle_frontend e dir msg r n i = (continue, dir', r', i')" "role dir = Client"
  shows "handled_ok (msg \<noteq> SslNegotiation SslNone) dir r n i (dir', r', i')"
    and "msg = SslNegotiation SslNone \<Longrightarrow> continue \<and> \<not> awaiting_frontend_ssl (ctx dir')"
    and "awaiting_frontend_ssl (ctx dir') \<Longrightarrow> awaiting_frontend_ssl (ctx dir)"
    and "encrypted r' = encrypted r"
proof -
  show "handled_ok (msg \<noteq> SslNegotiation SslNone) dir r n i (dir', r', i')"
    using assms(1)
    by (cases msg) (auto simp: handle_frontend_def Let_def count_message_def handled_ok_def [of False]
        split: ssl_negotiation.splits intro!: handled_emit(1))
  show "msg = SslNegotiation SslNone \<Longrightarrow> continue \<and> \<not> awaiting_frontend_ssl (ctx dir')"
    using assms(1) by (auto simp: handle_frontend_def)
  show "awaiting_frontend_ssl (ctx dir') \<Longrightarrow> awaiting_frontend_ssl (ctx dir)" "encrypted r' = encrypted r"
    using assms(1)
    by (cases msg; auto simp: handle_frontend_def Let_def count_message_def split: ssl_negotiation.splits if_splits)+
qed

lemma handle_data_row_ok: "\<exists>tx d. handle_data_row e dir row i = Some (emit_with_detail e (role dir) (client dir) (lit ''DataRow'') tx d i)"
proof -
  obtain cols where "data_row_columns row (row_desc dir) = Some cols"
    using columns_loop_total [of "row_desc dir" 0 "nat (max (dr_field_count row) 0)" "dr_data row"]
    by (auto simp: data_row_columns_def)
  then show ?thesis by (auto simp: handle_data_row_def Let_def emit_def emit_rich_def)
qed

lemma negotiated_ok:
  assumes "negotiated e dir r kind proto s i = (r', i')" "role dir = Server"
  shows "msgs r' = msgs r \<and> bytes r' = bytes r \<and> (\<exists>rec k. routes [rec] i i' \<and> from_dir (role dir) (client dir) k rec
    \<and> (encrypted r' \<longrightarrow> encrypted r \<or> role dir = Server \<and> k = lit ''Warning''))"
proof (cases s)
  case Accept
  then show ?thesis using assms warn_routes by (fastforce simp: negotiated_def)
next
  case Refuse
  then show ?thesis using assms emit_routes [of i e "role dir" "client dir" kind _ None] by (fastforce simp: negotiated_def emit_def)
next
  case Unknown
  then show ?thesis using assms emit_routes [of i e "role dir" "client dir" kind _ None] by (fastforce simp: negotiated_def emit_def)
qed

lemma handle_backend_total:
  fixes dir :: "'c direction"
  assumes "role dir = Server"
  shows "\<exists>dir' r' i'. handle_backend e dir msg r n i = Some (dir', r', i') \<and> handled_ok True dir r n i (dir', r', i')"
proof -
  let ?r = "count_message n r"
  have r: "msgs ?r = msgs r + 1" "bytes ?r = bytes r + n" "encrypted ?r = encrypted r" by (simp_all add: count_message_def)
  have said: "handled_ok True dir r n i (dir, ?r, emit e (role dir) (client dir) kind tx i)" for kind tx
    using r by (intro handled_emit(1)) simp_all
  have neg: "\<exists>dir' r' i'. (let (r', i') = negotiated e dir ?r kind proto s i in Some (f dir, r', i')) = Some (dir', r', i')
      \<and> handled_ok True dir r n i (dir', r', i')"
    if "rxbuf (f dir) = rxbuf dir" "role (f dir) = role dir" "client (f dir) = client dir"
      "next_seq (f dir) = next_seq dir" "ooo (f dir) = ooo dir" for f :: "'c direction \<Rightarrow> 'c direction" and kind proto s
  proof -
    obtain r' i' where "negotiated e dir ?r kind proto s i = (r', i')" by force
    then show ?thesis
      using negotiated_ok [OF _ assms, of e ?r kind proto s i] that r by (auto simp: handled_ok_def)
  qed
  show ?thesis
  proof (cases msg)
    case (RowDescription fs)
    then show ?thesis
      using handled_emit(2) [of "dir\<lparr> row_desc := Some (map field_summary_of fs) \<rparr>" dir ?r r n] r
      by (simp add: handle_backend_def Let_def)
  next
    case NoData
    then show ?thesis
      using handled_emit(1) [of "dir\<lparr> row_desc := None \<rparr>" dir ?r r n] r by (simp add: handle_backend_def Let_def)
  next
    case (DataRow row)
    obtain tx d where "handle_data_row e dir row i = Some (emit_with_detail e (role dir) (client dir) (lit ''DataRow'') tx d i)"
      using handle_data_row_ok [of e dir row i] by blast
    then show ?thesis
      using emit_routes [of i e "role dir" "client dir" "lit ''DataRow''" tx d] r
      by (auto simp: DataRow handle_backend_def handled_ok_def)
  next
    case (SslResponse s)
    then show ?thesis
      using neg [of "\<lambda>d. d\<lparr> ctx := (ctx d)\<lparr> awaiting_backend_ssl_response := False \<rparr> \<rparr>"]
      by (simp add: handle_backend_def Let_def)
  next
    case (GssEncResponse s)
    then show ?thesis
      using neg [of "\<lambda>d. d\<lparr> ctx := (ctx d)\<lparr> awaiting_backend_gss_response := False \<rparr> \<rparr>"]
      by (simp add: handle_backend_def Let_def)
  qed (use said in \<open>auto simp: handle_backend_def Let_def\<close>)
qed

subsection \<open>Draining ends, and accounts for every byte\<close>

text \<open>What the source relies on of a pgwire decoder: asking for more bytes leaves the buffer as it is, a
  decoded message takes at least one byte, except the peek that tells that no encryption was requested, which takes none and
  is answered only while the context awaits the request.\<close>

definition decoder_ok ::
    "('m \<Rightarrow> bool) \<Rightarrow> ('c decode_context_scheme \<Rightarrow> bool) \<Rightarrow> ('c, 'm) decoder \<Rightarrow> bool" where
  "decoder_ok pk armed dec \<longleftrightarrow> (\<forall>c buf. case dec c buf of
       (NeedMore, buf') \<Rightarrow> buf' = buf
     | (Decoded m, buf') \<Rightarrow> if pk m then armed c \<and> buf' = buf else length buf' < length buf
     | (DecodeError _, buf') \<Rightarrow> True)"

definition ssl_peek :: "fmsg \<Rightarrow> bool" where
  "ssl_peek m \<longleftrightarrow> m = SslNegotiation SslNone"

definition frontend_ok :: "('c, fmsg) decoder \<Rightarrow> bool" where
  "frontend_ok = decoder_ok ssl_peek awaiting_frontend_ssl"

definition backend_ok :: "('c, bmsg) decoder \<Rightarrow> bool" where
  "backend_ok = decoder_ok (\<lambda>m. False) (\<lambda>c. False)"

text \<open>\<open>drained\<close>: \<open>ms\<close> are the messages emitted, one for each message counted, \<open>consumed\<close> the bytes they
  took; what is left is still in the buffer, or was dropped after a decode error reported by a line.\<close>

definition drained ::
    "'c direction \<Rightarrow> drain_outcome \<Rightarrow> io \<Rightarrow> 'c direction \<times> drain_outcome \<times> io \<Rightarrow> bool" where
  "drained dir r i res =
     (case res of (dir', r', i') \<Rightarrow> \<exists>ms errs consumed.
        routes (ms @ errs) i i'
        \<and> (\<forall>m \<in> set ms. \<exists>kind. from_dir (role dir) (client dir) kind m)
        \<and> msgs r' = msgs r + of_nat (length ms) \<and> bytes r' = bytes r + of_nat consumed
        \<and> (errs = [] \<and> consumed + length (rxbuf dir') = length (rxbuf dir)
           \<or> (\<exists>l. errs = [Line l]) \<and> rxbuf dir' = [] \<and> consumed \<le> length (rxbuf dir))
        \<and> next_seq dir' = next_seq dir \<and> ooo dir' = ooo dir \<and> role dir' = role dir \<and> client dir' = client dir
        \<and> (encrypted r' \<longrightarrow> encrypted r
            \<or> role dir = Server \<and> (\<exists>m \<in> set ms. from_dir (role dir) (client dir) (lit ''Warning'') m)))"

lemma drained_step:
  assumes h: "handled_ok counted (dir\<lparr> rxbuf := buf \<rparr>) r (of_nat (length (rxbuf dir) - length buf)) i (d1, r1, i1)"
    and len: "if counted then length buf < length (rxbuf dir) else buf = rxbuf dir"
    and d: "drained d1 r1 i1 res"
  shows "drained dir r i res"
proof -
  obtain d' r' i' where res: "res = (d', r', i')" by (cases res)
  have same: "rxbuf d1 = buf" "role d1 = role dir" "client d1 = client dir" "next_seq d1 = next_seq dir" "ooo d1 = ooo dir"
    using h by (simp_all add: handled_ok_def)
  show ?thesis
  proof (cases counted)
    case False
    then have "msgs r1 = msgs r" "bytes r1 = bytes r" "i1 = i" "encrypted r1 = encrypted r" "buf = rxbuf dir"
      using h len by (simp_all add: handled_ok_def)
    then show ?thesis using d same by (simp add: drained_def)
  next
    case True
    then obtain rec kind where rec: "routes [rec] i i1" "from_dir (role dir) (client dir) kind rec"
        "encrypted r1 \<longrightarrow> encrypted r \<or> role dir = Server \<and> kind = lit ''Warning''"
      and cnt: "msgs r1 = msgs r + 1" "bytes r1 = bytes r + of_nat (length (rxbuf dir) - length buf)"
      using h by (auto simp: handled_ok_def)
    obtain ms errs consumed where ms: "routes (ms @ errs) i1 i'"
      "\<forall>m \<in> set ms. \<exists>kind. from_dir (role dir) (client dir) kind m"
      "msgs r' = msgs r1 + of_nat (length ms)" "bytes r' = bytes r1 + of_nat consumed"
      "errs = [] \<and> consumed + length (rxbuf d') = length buf
           \<or> (\<exists>l. errs = [Line l]) \<and> rxbuf d' = [] \<and> consumed \<le> length buf"
      "next_seq d' = next_seq dir \<and> ooo d' = ooo dir \<and> role d' = role dir \<and> client d' = client dir"
      "encrypted r' \<longrightarrow> encrypted r1 \<or> role dir = Server \<and> (\<exists>m \<in> set ms. from_dir (role dir) (client dir) (lit ''Warning'') m)"
      using d by (auto simp: drained_def res same)
    show ?thesis
      unfolding drained_def res prod.case
    proof (intro exI conjI)
      show "routes ((rec # ms) @ errs) i i'" using routes_trans [OF rec(1) ms(1)] by simp
      show "\<forall>m \<in> set (rec # ms). \<exists>kind. from_dir (role dir) (client dir) kind m" using rec(2) ms(2) by auto
      show "msgs r' = msgs r + of_nat (length (rec # ms))" using ms(3) cnt(1) by simp
      show "bytes r' = bytes r + of_nat (length (rxbuf dir) - length buf + consumed)" using ms(4) cnt(2) by simp
      show "errs = [] \<and> length (rxbuf dir) - length buf + consumed + length (rxbuf d') = length (rxbuf dir)
           \<or> (\<exists>l. errs = [Line l]) \<and> rxbuf d' = [] \<and> length (rxbuf dir) - length buf + consumed \<le> length (rxbuf dir)"
        using ms(5) len True by auto
      show "encrypted r' \<longrightarrow> encrypted r
            \<or> role dir = Server \<and> (\<exists>m \<in> set (rec # ms). from_dir (role dir) (client dir) (lit ''Warning'') m)"
        using ms(7) rec(2,3) by auto
    qed (use ms(6) in auto)
  qed
qed

text \<open>The drain ends here: there is nothing to decode, or it cannot be decoded.\<close>

lemma drained_here: "drained dir outcome i (dir, outcome, i)"
  unfolding drained_def prod.case by (intro exI [of _ "[]"] exI [of _ 0]) (simp add: routes_refl)

lemma drain_loop_dry:
  assumes "dec (ctx dir) (rxbuf dir) = (NeedMore, rxbuf dir)"
  shows "\<exists>res. drain_loop dec handle r dir outcome i = Some res \<and> drained dir outcome i res"
  using drained_here by (subst drain_loop.simps) (simp add: assms)

lemma drain_loop_error:
  assumes "dec (ctx dir) (rxbuf dir) = (DecodeError err, buf)"
  shows "\<exists>res. drain_loop dec handle r dir outcome i = Some res \<and> drained dir outcome i res"
proof -
  have "drain_loop dec handle r dir outcome i = Some (let (d', i') = decode_error r err (dir\<lparr> rxbuf := buf \<rparr>) i in (d', outcome, i'))"
    by (subst drain_loop.simps) (simp add: assms split_beta Let_def)
  moreover obtain l where "decode_error r err (dir\<lparr> rxbuf := buf \<rparr>) i = (dir\<lparr> rxbuf := [] \<rparr>, deliver (Line l) i)"
    by (simp add: decode_error_def out_def)
  moreover have "drained dir outcome i (dir\<lparr> rxbuf := [] \<rparr>, outcome, deliver (Line l) i)"
    unfolding drained_def prod.case
    by (intro exI [of _ "[]"] exI [of _ "[Line l]"] exI [of _ 0]) (simp add: routes_deliver)
  ultimately show ?thesis by simp
qed

lemma drain_loop_drains:
  fixes dec :: "('c, 'm) decoder" and dir :: "'c direction"
  assumes dec: "decoder_ok pk armed dec"
    and handle: "\<And>d m r' n i. role d = r \<Longrightarrow> \<exists>go d1 r1 i1. handle d m r' n i = Some (go, d1, r1, i1)
       \<and> handled_ok (\<not> pk m) d r' n i (d1, r1, i1)
       \<and> (pk m \<longrightarrow> \<not> armed (ctx d1)) \<and> (armed (ctx d1) \<longrightarrow> armed (ctx d))"
    and role: "role dir = r"
  shows "\<exists>res. drain_loop dec handle r dir outcome i = Some res \<and> drained dir outcome i res"
  using role
proof (induction "2 * length (rxbuf dir) + (if armed (ctx dir) then 1 else 0)" arbitrary: dir outcome i rule: less_induct)
  case less
  obtain result buf where d: "dec (ctx dir) (rxbuf dir) = (result, buf)" by force
  have ok: "case result of NeedMore \<Rightarrow> buf = rxbuf dir
     | Decoded m \<Rightarrow> if pk m then armed (ctx dir) \<and> buf = rxbuf dir else length buf < length (rxbuf dir)
     | DecodeError _ \<Rightarrow> True"
    using dec [unfolded decoder_ok_def, THEN spec [of _ "ctx dir"], THEN spec [of _ "rxbuf dir"]] by (simp add: d split: decoded.splits)
  show ?case
  proof (cases result)
    case NeedMore
    then show ?thesis using ok d by (intro drain_loop_dry) simp
  next
    case (DecodeError err)
    then show ?thesis using d by (intro drain_loop_error) simp
  next
    case (Decoded m)
    let ?n = "of_nat (length (rxbuf dir) - length buf)" and ?d = "dir\<lparr> rxbuf := buf \<rparr>"
    obtain go d1 r1 i1 where h: "handle ?d m outcome ?n i = Some (go, d1, r1, i1)"
      "handled_ok (\<not> pk m) ?d outcome ?n i (d1, r1, i1)"
      "pk m \<longrightarrow> \<not> armed (ctx d1)" "armed (ctx d1) \<longrightarrow> armed (ctx dir)"
      using handle [of ?d m outcome ?n i] less.prems by auto
    have len: "if \<not> pk m then length buf < length (rxbuf dir) else buf = rxbuf dir"
      using ok Decoded by (auto split: if_splits)
    have d1: "rxbuf d1 = buf" "role d1 = r" using h(2) less.prems by (simp_all add: handled_ok_def)
    have unf: "drain_loop dec handle r dir outcome i = (if go then drain_loop dec handle r d1 r1 i1 else Some (d1, r1, i1))"
      by (subst drain_loop.simps) (simp add: d Decoded h(1))
    show ?thesis
    proof (cases go)
      case True
      have "2 * length (rxbuf d1) + (if armed (ctx d1) then 1 else 0)
          < 2 * length (rxbuf dir) + (if armed (ctx dir) then 1 else 0)"
        using ok Decoded h(3,4) d1(1) by (auto split: if_splits)
      then obtain res where "drain_loop dec handle r d1 r1 i1 = Some res" "drained d1 r1 i1 res"
        using less.hyps d1(2) by blast
      then show ?thesis using drained_step [OF h(2) len] unf True by auto
    next
      case False
      then show ?thesis using drained_step [OF h(2) len drained_here] unf by auto
    qed
  qed
qed

lemma drain_direction_drains:
  assumes "frontend_ok fdec" "backend_ok bdec"
  shows "\<exists>res. drain_direction fdec bdec e dir outcome i = Some res \<and> drained dir outcome i res"
proof (cases "encrypted outcome")
  case True
  have "drained dir outcome i (dir, outcome, i)"
    unfolding drained_def prod.case
    by (intro exI [of _ "[]"] exI [of _ 0]) (simp add: routes_refl)
  then show ?thesis using True by (simp add: drain_direction_def)
next
  case False
  show ?thesis
  proof (cases "role dir")
    case Client
    have "\<exists>go d1 r1 i1. Some (handle_frontend e d m r' n i) = Some (go, d1, r1, i1)
       \<and> handled_ok (\<not> ssl_peek m) d r' n i (d1, r1, i1)
       \<and> (ssl_peek m \<longrightarrow> \<not> awaiting_frontend_ssl (ctx d1)) \<and> (awaiting_frontend_ssl (ctx d1) \<longrightarrow> awaiting_frontend_ssl (ctx d))"
      if "role d = Client" for d :: "'a direction" and m r' n i
    proof -
      obtain go d1 r1 i1 where h: "handle_frontend e d m r' n i = (go, d1, r1, i1)" by (metis prod_cases4)
      show ?thesis using handle_frontend_ok [OF h that] by (auto simp: h ssl_peek_def)
    qed
    then show ?thesis
      using drain_loop_drains [of ssl_peek awaiting_frontend_ssl fdec Client, OF assms(1) [unfolded frontend_ok_def]] Client False
      by (simp add: drain_direction_def)
  next
    case Server
    have "\<exists>go d1 r1 i1. map_option (Pair True) (handle_backend e d m r' n i) = Some (go, d1, r1, i1)
       \<and> handled_ok (\<not> False) d r' n i (d1, r1, i1)
       \<and> (False \<longrightarrow> \<not> False) \<and> (False \<longrightarrow> False)"
      if "role d = Server" for d :: "'a direction" and m r' n i
      using handle_backend_total [OF that, of e m r' n i] by auto
    then show ?thesis
      using drain_loop_drains [of "\<lambda>m. False" "\<lambda>c. False" bdec Server, OF assms(2) [unfolded backend_ok_def]] Server False
      by (simp add: drain_direction_def)
  qed
qed

subsection \<open>Properties\<close>

text \<open>C10. Draining a direction always ends. The messages it counts are the messages it emits, each once,
  labelled with the client and the direction of the stream; the bytes it counts are exactly those that left the
  buffer, unless a decode error, reported by one line after them, drops the rest; the reassembly state is not touched; and
  the outcome says \<open>encrypted\<close> only after a server message whose record warns of it.\<close>

theorem drain_direction_accounts:
  assumes "frontend_ok fdec" "backend_ok bdec"
  shows "\<exists>dir' r' i' ms errs consumed. drain_direction fdec bdec e dir r i = Some (dir', r', i')
    \<and> routes (ms @ errs) i i'
    \<and> (\<forall>m \<in> set ms. \<exists>kind. from_dir (role dir) (client dir) kind m)
    \<and> msgs r' = msgs r + of_nat (length ms) \<and> bytes r' = bytes r + of_nat consumed
    \<and> (errs = [] \<and> consumed + length (rxbuf dir') = length (rxbuf dir)
       \<or> (\<exists>l. errs = [Line l]) \<and> rxbuf dir' = [] \<and> consumed \<le> length (rxbuf dir))
    \<and> next_seq dir' = next_seq dir \<and> ooo dir' = ooo dir
    \<and> (encrypted r' \<longrightarrow> encrypted r
        \<or> role dir = Server \<and> (\<exists>m \<in> set ms. from_dir (role dir) (client dir) (lit ''Warning'') m))"
proof -
  obtain dir' r' i' where "drain_direction fdec bdec e dir r i = Some (dir', r', i')"
      "drained dir r i (dir', r', i')"
    using drain_direction_drains [OF assms] by (metis prod_cases3)
  then show ?thesis unfolding drained_def prod.case by (elim exE) blast
qed

text \<open>A decoder of typed messages in the shape of the protocol: a type byte and a four-byte length that counts itself;
  \<open>f\<close> gives the message of a type and a body.\<close>

definition typed_decoder :: "(u8 \<Rightarrow> u8 list \<Rightarrow> 'm) \<Rightarrow> ('c, 'm) decoder" where
  "typed_decoder f c buf =
     (if length buf < 5 then (NeedMore, buf)
      else let n = be_nat (take 4 (drop 1 buf)) in
        if n < 4 then (DecodeError (lit ''bad length''), buf)
        else if length buf < 1 + n then (NeedMore, buf)
        else (Decoded (f (hd buf) (take (n - 4) (drop 5 buf))), drop (1 + n) buf))"

definition sample_frontend :: "u8 \<Rightarrow> u8 list \<Rightarrow> fmsg" where
  "sample_frontend t body = (if t = 81 then Query (ascii_text (butlast body)) else if t = 83 then Sync else FCopyData body)"

definition sample_backend :: "u8 \<Rightarrow> u8 list \<Rightarrow> bmsg" where
  "sample_backend t body = (if t = 67 then CommandComplete (ascii_text (butlast body)) else BCopyData body)"

definition sample_env :: env where
  "sample_env = \<lparr> clock = (\<lambda>n. (show_nat n, show_nat n)), debug_str = (\<lambda>s. [34] @ s @ [34]) \<rparr>"

definition sample_io :: io where
  "sample_io = \<lparr> capture = None, output_tx = Some [], stdout = [], stderr = [], clock_reads = 0 \<rparr>"

lemma typed_decoder_ok: "decoder_ok (\<lambda>m. False) armed (typed_decoder f)"
  by (auto simp: decoder_ok_def typed_decoder_def Let_def split: decoded.splits if_splits)

lemma sample_frontend_ok: "frontend_ok (typed_decoder sample_frontend)"
  by (auto simp: frontend_ok_def decoder_ok_def typed_decoder_def ssl_peek_def sample_frontend_def Let_def
      split: decoded.splits if_splits)

lemma sample_backend_ok: "backend_ok (typed_decoder sample_backend)"
  unfolding backend_ok_def by (rule typed_decoder_ok)

theorem drain_direction_accounts_witness:
  "\<exists>dir' r' i' ms errs consumed.
    drain_direction (typed_decoder sample_frontend) (typed_decoder sample_backend) sample_env
      ((direction_new clear_ctx Client sample_client)\<lparr> rxbuf := [81, 0, 0, 0, 6, 65, 0, 83, 0, 0, 0, 4, 88] \<rparr>) default_outcome sample_io
      = Some (dir', r', i')
    \<and> routes (ms @ errs) sample_io i' \<and> msgs r' = of_nat (length ms) \<and> bytes r' = of_nat consumed
    \<and> \<not> encrypted r'"
  using drain_direction_accounts [OF sample_frontend_ok sample_backend_ok, of sample_env
      "(direction_new clear_ctx Client sample_client)\<lparr> rxbuf := [81, 0, 0, 0, 6, 65, 0, 83, 0, 0, 0, 4, 88] \<rparr>"
      default_outcome sample_io]
  by (elim exE conjE) (intro exI conjI, assumption+, auto simp: default_outcome_def direction_new_def)

text \<open>C25. A row is labelled with the columns described before it: after a \<open>RowDescription\<close>, a well-formed
  \<open>DataRow\<close> with as many fields is emitted with the described names, type OIDs and formats in order, and
  the description stays for the rows that follow.\<close>

theorem data_row_labelled_by_description:
  assumes "\<forall>v \<in> set vs. case v of None \<Rightarrow> True | Some b \<Rightarrow> length b < 2 ^ 31" "length vs = length fs"
    and "handle_backend e dir (RowDescription fs) r n i = Some (dir1, r1, i1)"
  shows "\<exists>r2 i2 cols tx. handle_backend e dir1 (DataRow \<lparr> dr_data = row_wire vs, dr_field_count = int (length vs) \<rparr>) r1 k i1
      = Some (dir1, r2, i2)
    \<and> i2 = emit_rich e (role dir) (client dir) (lit ''DataRow'') tx (DataRowDetail cols) i1
    \<and> map dc_name cols = map fd_name fs \<and> map dc_type_oid cols = map fd_type_id fs
    \<and> map dc_value cols = map (\<lambda>(f, v). render_field (Some (field_summary_of f)) (field_of v)) (zip fs vs)"
proof -
  let ?row = "\<lparr> dr_data = row_wire vs, dr_field_count = int (length vs) \<rparr>"
  let ?cols = "map (\<lambda>(j, v). column_of (desc_field (Some (map field_summary_of fs)) j) (field_of v)) (enumerate 0 vs)"
  have dir1: "dir1 = dir\<lparr> row_desc := Some (map field_summary_of fs) \<rparr>"
    using assms(3) by (simp add: handle_backend_def Let_def)
  have "data_row_columns ?row (row_desc dir1) = Some ?cols"
    using data_row_columns_wire [OF assms(1)] by (simp add: dir1)
  then have "handle_backend e dir1 (DataRow ?row) r1 k i1 = Some (dir1, count_message k r1,
      emit_rich e (role dir) (client dir) (lit ''DataRow'') (format_columns ?cols True) (DataRowDetail ?cols) i1)"
    by (simp add: handle_backend_def handle_data_row_def Let_def) (simp add: dir1)
  moreover have "map dc_name ?cols = map fd_name fs" "map dc_type_oid ?cols = map fd_type_id fs"
    "map dc_value ?cols = map (\<lambda>(f, v). render_field (Some (field_summary_of f)) (field_of v)) (zip fs vs)"
    using assms(2)
    by (auto intro!: nth_equalityI simp: nth_enumerate_eq column_of_def desc_field_def field_summary_of_def)
  ultimately show ?thesis by (intro exI conjI) (rule refl | assumption)+
qed

theorem data_row_labelled_by_description_witness:
  "\<exists>cols r2 i2 dir1 r1 i1 tx. handle_backend sample_env (direction_new clear_ctx Server sample_client)
       (RowDescription [\<lparr> fd_name = lit ''id'', fd_type_id = 23, fd_format_code = 0 \<rparr>]) default_outcome 30 sample_io
       = Some (dir1, r1, i1)
     \<and> handle_backend sample_env dir1 (DataRow \<lparr> dr_data = row_wire [Some [52, 50]], dr_field_count = 1 \<rparr>) r1 13 i1
       = Some (dir1, r2, i2)
     \<and> i2 = emit_rich sample_env Server sample_client (lit ''DataRow'') tx (DataRowDetail cols) i1
     \<and> map dc_name cols = [lit ''id'']"
proof -
  let ?fs = "[\<lparr> fd_name = lit ''id'', fd_type_id = 23, fd_format_code = 0 \<rparr>]"
  let ?dir = "direction_new clear_ctx Server sample_client"
  obtain dir1 r1 i1 where h: "handle_backend sample_env ?dir (RowDescription ?fs) default_outcome 30 sample_io = Some (dir1, r1, i1)"
    by (simp add: handle_backend_def Let_def)
  obtain r2 i2 cols tx where "handle_backend sample_env dir1 (DataRow \<lparr> dr_data = row_wire [Some [52, 50]],
        dr_field_count = int (length [Some [52, 50 :: u8]]) \<rparr>) r1 13 i1 = Some (dir1, r2, i2)"
    "i2 = emit_rich sample_env (role ?dir) (client ?dir) (lit ''DataRow'') tx (DataRowDetail cols) i1"
    "map dc_name cols = map fd_name ?fs"
    using data_row_labelled_by_description [OF _ _ h, of "[Some [52, 50]]" 13] by auto
  then show ?thesis using h by (auto simp: direction_new_def)
qed

end
