(* ===== verification/Address_Text.thy ===== *)
theory Address_Text
  imports Address
begin

text \<open>
  The text of an address is read back as the address it was printed from: \<open>Display\<close> and \<open>FromStr\<close> of
  \<open>IpAddr\<close> and \<open>SocketAddr\<close>, which session files and filters rely on (\<open>src/session.rs\<close>, \<open>src/filter.rs\<close>).
\<close>

subsection \<open>Hexadecimal groups\<close>

fun hex_values :: "nat \<Rightarrow> nat list" where
  "hex_values n = (if n < 16 then [n] else hex_values (n div 16) @ [n mod 16])"

declare hex_values.simps [simp del]

lemma show_hex_values: "show_hex n = map hex_digit (hex_values n)"
proof (induction n rule: show_hex.induct)
  case (1 n)
  then show ?case by (subst show_hex.simps, subst hex_values.simps) simp
qed

lemma hex_values_small: "\<forall>v \<in> set (hex_values n). v < 16"
proof (induction n rule: hex_values.induct)
  case (1 n)
  then show ?case by (subst hex_values.simps) auto
qed

lemma hex_values_not_Nil [simp]: "hex_values n \<noteq> []"
  by (subst hex_values.simps) simp

lemma hex_values_value: "foldl (\<lambda>a v. a * 16 + v) 0 (hex_values n) = n"
proof (induction n rule: hex_values.induct)
  case (1 n)
  then show ?case by (subst hex_values.simps) auto
qed

lemma hex_values_length: "n < 16 ^ Suc k \<Longrightarrow> length (hex_values n) \<le> Suc k"
proof (induction k arbitrary: n)
  case (Suc k)
  then have "n div 16 < 16 ^ Suc k" by (simp add: less_mult_imp_div_less mult.commute)
  then show ?case using Suc.IH [of "n div 16"] by (subst hex_values.simps) simp
qed (subst hex_values.simps, simp)

lemma to_digit_hex [simp]: "v < 16 \<Longrightarrow> to_digit 16 (hex_digit v) = Some v"
  by (auto simp: to_digit_def hex_digit_def is_dec_def Let_def)

lemma foldl_ge: "acc \<le> foldl (\<lambda>a v. a * 16 + v) acc vs" for acc :: nat
proof (induction vs arbitrary: acc)
  case (Cons v vs)
  have "acc \<le> acc * 16 + v" by simp
  then show ?case using Cons.IH [of "acc * 16 + v"] by (simp add: order_trans)
qed simp

lemma read_hex_digits:
  assumes "\<forall>v \<in> set vs. v < 16" "foldl (\<lambda>a v. a * 16 + v) acc vs < bound" "k + length vs \<le> m"
    and "t = [] \<or> to_digit 16 (hd t) = None"
  shows "read_num_digits 16 bound (Some m) k acc (map hex_digit vs @ t) = Some (foldl (\<lambda>a v. a * 16 + v) acc vs, k + length vs, t)"
  using assms(1-3)
proof (induction vs arbitrary: acc k)
  case Nil
  then show ?case using assms(4) by (cases t) auto
next
  case (Cons v vs)
  have "acc * 16 + v < bound" using foldl_ge [of "acc * 16 + v" vs] Cons.prems(2) by simp
  then show ?case using Cons.IH [of "acc * 16 + v" "Suc k"] Cons.prems by simp
qed

lemma read_group_show:
  assumes "g < 65536" "t = [] \<or> to_digit 16 (hd t) = None"
  shows "read_number 16 65536 (Some 4) True (show_hex g @ t) = Some (g, t)"
  using read_hex_digits [OF hex_values_small, of 0 g 65536 0 4 t] assms hex_values_length [of g 3]
  by (simp add: read_number_def show_hex_values hex_values_value)

text \<open>A group is not taken for the start of a dotted address: after its digits comes no dot.\<close>

lemma read_num_digits_rest:
  "read_num_digits radix bound maxd k acc s = Some (n, k', r) \<Longrightarrow>
     \<exists>p. s = p @ r \<and> (\<forall>c \<in> set p. to_digit radix c \<noteq> None) \<and> (r = [] \<or> to_digit radix (hd r) = None)"
proof (induction radix bound maxd k acc s rule: read_num_digits.induct)
  case (2 radix bound maxd k acc c s)
  show ?case
  proof (cases "to_digit radix c")
    case None
    then show ?thesis using "2.prems" by (intro exI [of _ "[]"]) auto
  next
    case (Some d)
    then obtain p where "s = p @ r" "\<forall>c \<in> set p. to_digit radix c \<noteq> None" "r = [] \<or> to_digit radix (hd r) = None"
      using "2.IH" [OF Some] "2.prems" by (auto split: if_splits)
    then show ?thesis using Some by (intro exI [of _ "c # p"]) auto
  qed
qed simp

lemma read_ipv4_needs_dot:
  assumes "46 \<notin> set h" "t = [] \<or> hd t = 58 \<or> hd t = 93"
  shows "read_ipv4 (h @ t) = None"
proof (cases "read_octet 0 (h @ t)")
  case (Some nr)
  obtain n r where nr: "nr = (n, r)" by (cases nr)
  obtain k' where "read_num_digits 10 256 (Some 3) 0 0 (h @ t) = Some (n, k', r)"
    using Some nr by (auto simp: read_octet_def read_separator_def read_number_def split: option.splits prod.splits if_splits)
  then obtain p where p: "h @ t = p @ r" "\<forall>c \<in> set p. to_digit 10 c \<noteq> None"
    using read_num_digits_rest by blast
  have "r = [] \<or> hd r \<noteq> 46"
  proof (rule ccontr)
    assume "\<not> (r = [] \<or> hd r \<noteq> 46)"
    then obtain r' where r: "r = 46 # r'" by (cases r) auto
    from p(1) [unfolded append_eq_append_conv2] obtain us where
      "h = p @ us \<and> us @ t = r \<or> h @ us = p \<and> t = us @ r" by blast
    then show False
    proof
      assume us: "h = p @ us \<and> us @ t = r"
      then show False using r assms by (cases us) auto
    next
      assume us: "h @ us = p \<and> t = us @ r"
      then show False using r assms p(2) by (cases us) auto
    qed
  qed
  then have "read_octet (Suc 0) r = None"
    by (cases r) (auto simp: read_octet_def read_separator_def read_char_def)
  then show ?thesis by (simp add: read_ipv4_def Some nr)
qed (simp add: read_ipv4_def)

lemma hex_no_dot: "46 \<notin> set (show_hex g)"
  using hex_values_small [of g] by (fastforce simp: show_hex_values hex_digit_def split: if_splits)

subsection \<open>Groups\<close>

text \<open>The text of groups from number \<open>i\<close> on, and what may follow it.\<close>

definition groups_text :: "nat \<Rightarrow> nat list \<Rightarrow> rstring" where
  "groups_text i gs = (if i = 0 then show_groups gs else concat (map (\<lambda>g. 58 # show_hex g) gs))"

lemma groups_text_Cons: "groups_text i (g # gs) = (if i = 0 then [] else [58]) @ show_hex g @ groups_text (Suc i) gs"
proof -
  have "join [58] (map show_hex (g # gs)) = show_hex g @ concat (map (\<lambda>g. 58 # show_hex g) gs)"
    by (induction gs arbitrary: g) simp_all
  then show ?thesis by (simp add: groups_text_def show_groups_def)
qed

lemma groups_text_Nil [simp]: "groups_text i [] = []"
  by (simp add: groups_text_def show_groups_def)

definition stops :: "rstring \<Rightarrow> bool" where
  "stops t \<longleftrightarrow> t = [] \<or> (\<exists>u. t = 93 # u) \<or> (\<exists>u. t = 58 # 58 # u)"

lemma no_digits: "t = [] \<or> to_digit radix (hd t) = None \<Longrightarrow> read_number radix bound maxd z t = None"
  by (cases t) (auto simp: read_number_def)

lemma digit_58 [simp]: "to_digit 16 58 = None" "to_digit 16 93 = None" "to_digit 16 91 = None" "to_digit 10 91 = None"
  by (simp_all add: to_digit_def is_dec_def Let_def)

lemma read_ipv4_colon: "read_ipv4 (58 # u) = None" "read_ipv4 (93 # u) = None" "read_ipv4 [] = None" "read_ipv4 (91 # u) = None"
  by (simp_all add: read_ipv4_def read_octet_def read_separator_def no_digits)

lemma read_groups_stop:
  assumes "stops t"
  shows "read_groups n i t = ([], False, t)"
proof -
  have "read_separator 58 i read_ipv4 t = None" "read_separator 58 i (read_number 16 65536 (Some 4) True) t = None"
    using assms unfolding stops_def by (elim disjE exE; simp add: read_separator_def read_char_def no_digits read_ipv4_colon)+
  then show ?thesis by (cases n) simp_all
qed

lemma read_groups_show:
  assumes "\<forall>g \<in> set gs. g < 65536" "length gs \<le> n" "stops t"
  shows "read_groups n i (groups_text i gs @ t) = (gs, False, t)"
  using assms(1,2)
proof (induction gs arbitrary: n i)
  case Nil
  then show ?case using read_groups_stop [OF assms(3)] by simp
next
  case (Cons g gs)
  obtain n' where n: "n = Suc n'" using Cons.prems(2) by (cases n) auto
  let ?r = "groups_text (Suc i) gs @ t"
  have r: "?r = [] \<or> hd ?r = 58 \<or> hd ?r = 93"
    using assms(3) by (cases gs) (auto simp: groups_text_Cons stops_def)
  have sep: "read_separator 58 i f (groups_text i (g # gs) @ t) = f (show_hex g @ ?r)" for f :: "rstring \<Rightarrow> 'b option"
    by (simp add: groups_text_Cons read_separator_def)
  have "read_ipv4 (show_hex g @ ?r) = None" by (rule read_ipv4_needs_dot [OF hex_no_dot r])
  moreover have "read_number 16 65536 (Some 4) True (show_hex g @ ?r) = Some (g, ?r)"
    using Cons.prems(1) r by (intro read_group_show) auto
  moreover have "read_groups n' (Suc i) ?r = (gs, False, t)"
    using Cons.prems n by (intro Cons.IH) auto
  ultimately show ?case unfolding n read_groups.simps sep by simp
qed

subsection \<open>The zeros left out\<close>

fun zeros_at :: "nat list \<Rightarrow> nat \<times> nat \<Rightarrow> bool" where
  "zeros_at gs (start, n) \<longleftrightarrow> start + n \<le> length gs \<and> (\<forall>j. start \<le> j \<and> j < start + n \<longrightarrow> gs ! j = 0)"

lemma zero_run_zeros:
  "length pre = i \<Longrightarrow> zeros_at (pre @ gs) longest \<Longrightarrow> zeros_at (pre @ gs) current \<Longrightarrow>
     snd current = 0 \<or> fst current + snd current = i \<Longrightarrow> zeros_at (pre @ gs) (zero_run i gs longest current)"
proof (induction gs arbitrary: pre i longest current)
  case (Cons g gs)
  let ?c = "if snd current = 0 then (i, 1) else (fst current, Suc (snd current))"
  note IH = Cons.IH [of "pre @ [g]" "Suc i"]
  show ?case
  proof (cases "g = 0")
    case True
    have all: "(pre @ g # gs) ! i = 0" using nth_append_length [of pre g gs] True Cons.prems(1) by simp
    have c: "zeros_at (pre @ g # gs) ?c"
      using all Cons.prems(1,3,4) by (cases current) (auto simp: less_Suc_eq)
    moreover have "zeros_at (pre @ g # gs) (if snd longest < snd ?c then ?c else longest)"
      using c Cons.prems(2) by simp
    ultimately have "zeros_at (pre @ g # gs) (zero_run (Suc i) gs (if snd longest < snd ?c then ?c else longest) ?c)"
      using IH [of "if snd longest < snd ?c then ?c else longest" ?c] Cons.prems(1,4) by auto
    then show ?thesis using True by (simp add: Let_def)
  next
    case False
    then show ?thesis using IH [of longest "(0, 0)"] Cons.prems by simp
  qed
qed simp

lemma zeros_split:
  assumes "zeros_at gs (start, n)"
  shows "take start gs @ replicate n 0 @ drop (start + n) gs = gs"
proof -
  have "take n (drop start gs) = replicate n 0"
    using assms by (auto simp: list_eq_iff_nth_eq)
  then have "take start gs @ replicate n 0 @ drop (start + n) gs = take start gs @ take n (drop start gs) @ drop n (drop start gs)"
    by (simp add: add.commute)
  then show ?thesis by (simp only: append_take_drop_id)
qed

lemma groups_value:
  "foldl (\<lambda>n g. 65536 * n + g) a (map (\<lambda>i. n div 65536 ^ i mod 65536) (rev [0..<k])) = a * 65536 ^ k + n mod (65536 ^ k :: nat)"
proof (induction k arbitrary: a)
  case (Suc k)
  have "n mod (65536 ^ k * 65536) = 65536 ^ k * (n div 65536 ^ k mod 65536) + n mod 65536 ^ k"
    by (rule mod_mult2_eq)
  then show ?case using Suc.IH [of "65536 * a + n div 65536 ^ k mod 65536"]
    by (simp add: algebra_simps)
qed simp

lemma groups_word_segments [simp]: "groups_word (segments w) = w"
proof -
  have "unat w < 65536 ^ 8" using unsigned_less [of w, where ?'a = nat] by simp
  then have "foldl (\<lambda>n g. 65536 * n + g) 0 (segments w) = unat w"
    unfolding segments_def by (subst groups_value) simp
  then show ?thesis by (simp add: groups_word_def)
qed

lemma segments_facts: "length (segments w) = 8" "\<forall>g \<in> set (segments w). g < 65536"
  by (auto simp: segments_def)

subsection \<open>Addresses\<close>

lemma read_groups_mapped:
  assumes "t = [] \<or> (\<exists>u. t = 93 # u)"
  shows "read_groups (Suc (Suc 5)) 0 (show_hex 65535 @ 58 # show_ipv4 v @ t) = (65535 # ipv4_groups v, True, t)"
proof -
  have "read_ipv4 (show_hex 65535 @ 58 # show_ipv4 v @ t) = None"
    by (rule read_ipv4_needs_dot [OF hex_no_dot]) simp
  moreover have "read_number 16 65536 (Some 4) True (show_hex 65535 @ 58 # show_ipv4 v @ t) = Some (65535, 58 # show_ipv4 v @ t)"
    by (rule read_group_show) simp_all
  moreover have "read_ipv4 (show_ipv4 v @ t) = Some (v, t)"
    using assms by (intro read_ipv4_show) auto
  ultimately show ?thesis
    unfolding read_groups.simps by (simp add: read_separator_def)
qed

lemma segments_mapped:
  assumes "take 6 (segments w) = [0, 0, 0, 0, 0, 0xFFFF]"
  shows "segments w = [0, 0, 0, 0, 0, 0xFFFF, segments w ! 6, segments w ! 7]"
proof -
  have "segments w ! 6 # drop (Suc 6) (segments w) = drop 6 (segments w)"
    by (rule Cons_nth_drop_Suc) (simp add: segments_facts)
  moreover have "segments w ! Suc 6 # drop (Suc (Suc 6)) (segments w) = drop (Suc 6) (segments w)"
    by (rule Cons_nth_drop_Suc) (simp add: segments_facts)
  moreover have "drop (Suc (Suc 6)) (segments w) = []" by (simp add: segments_facts)
  ultimately have "drop 6 (segments w) = [segments w ! 6, segments w ! Suc 6]" by metis
  then have "take 6 (segments w) @ drop 6 (segments w) = [0, 0, 0, 0, 0, 0xFFFF, segments w ! 6, segments w ! Suc 6]"
    unfolding assms by simp
  then show ?thesis by (simp only: append_take_drop_id) simp
qed

lemma ipv4_groups_of: "a < 65536 \<Longrightarrow> b < 65536 \<Longrightarrow> ipv4_groups (of_nat (a * 65536 + b)) = [a, b]"
proof -
  assume lt: "a < 65536" "b < 65536"
  have "unat (of_nat (a * 65536 + b) :: u32) = a * 65536 + b"
    using lt by (intro unat_of_nat_u32) simp
  then show ?thesis using lt by (simp add: ipv4_groups_def)
qed

lemma mapped_prefix: "lit ''::ffff:'' = 58 # 58 # show_hex 65535 @ [58]"
  by (simp add: str_simps show_hex.simps hex_digit_def)

lemma replicate_5: "replicate 5 x = [x, x, x, x, x]"
  by (simp add: eval_nat_numeral)

lemma read_ipv6_mapped:
  assumes t: "t = [] \<or> (\<exists>u. t = 93 # u)" and mapped: "take 6 (segments w) = [0, 0, 0, 0, 0, 0xFFFF]"
  shows "read_ipv6 (show_ipv6 w @ t) = Some (w, t)"
proof -
  define a b where ab: "a = segments w ! 6" "b = segments w ! 7"
  have gs: "segments w = [0, 0, 0, 0, 0, 0xFFFF, a, b]"
    unfolding ab by (rule segments_mapped [OF mapped])
  have lt: "a < 65536" "b < 65536" using segments_facts(2) [of w] by (simp_all add: gs)
  let ?v = "of_nat (a * 65536 + b) :: u32"
  have tx: "show_ipv6 w @ t = 58 # 58 # show_hex 65535 @ 58 # show_ipv4 ?v @ t"
    unfolding show_ipv6_def Let_def if_P [OF mapped] ab mapped_prefix by simp
  have head: "read_groups 8 0 (show_ipv6 w @ t) = ([], False, show_ipv6 w @ t)"
    by (rule read_groups_stop) (simp add: stops_def tx)
  have tail: "read_groups 7 0 (show_hex 65535 @ 58 # show_ipv4 ?v @ t) = ([65535, a, b], True, t)"
    using read_groups_mapped [OF t, of ?v] unfolding ipv4_groups_of [OF lt] by simp
  have "replicate 5 (0 :: nat) @ [65535, a, b] = segments w"
    unfolding gs replicate_5 by simp
  then have "groups_word (replicate 5 0 @ [65535, a, b]) = w" by simp
  moreover have "read_ipv6 (show_ipv6 w @ t) = Some (groups_word (replicate 5 0 @ [65535, a, b]), t)"
    unfolding read_ipv6_def head prod.case unfolding tx using tail by simp
  ultimately show ?thesis by simp
qed

lemma read_ipv6_show:
  assumes t: "t = [] \<or> (\<exists>u. t = 93 # u)"
  shows "read_ipv6 (show_ipv6 w @ t) = Some (w, t)"
proof -
  let ?gs = "segments w"
  have stops: "stops t" "stops (58 # 58 # u)" for u using t by (auto simp: stops_def)
  consider (mapped) "take 6 ?gs = [0, 0, 0, 0, 0, 0xFFFF]"
    | (other) "take 6 ?gs \<noteq> [0, 0, 0, 0, 0, 0xFFFF]" by blast
  then show ?thesis
  proof cases
    case mapped
    then show ?thesis by (rule read_ipv6_mapped [OF t])
  next
  case other
    obtain start n where run: "zero_run 0 ?gs (0, 0) (0, 0) = (start, n)" by fastforce
    have z: "zeros_at ?gs (start, n)"
      using zero_run_zeros [of "[]" 0 ?gs "(0, 0)" "(0, 0)"] run by simp
    show ?thesis
    proof (cases "1 < n")
      case True
      have le: "start + n \<le> 8" using z segments_facts(1) [of w] by simp
      have tx: "show_ipv6 w @ t = groups_text 0 (take start ?gs) @ 58 # 58 # groups_text 0 (drop (start + n) ?gs) @ t"
        using other True by (simp add: show_ipv6_def run groups_text_def Let_def)
      have "read_groups 8 0 (show_ipv6 w @ t) = (take start ?gs, False, 58 # 58 # groups_text 0 (drop (start + n) ?gs) @ t)"
        unfolding tx using segments_facts [of w] by (intro read_groups_show stops) (auto dest: in_set_takeD)
      moreover have "length (take start ?gs) = start" "length (drop (start + n) ?gs) = 8 - start - n"
        using segments_facts(1) [of w] le by simp_all
      moreover have "read_groups (7 - start) 0 (groups_text 0 (drop (start + n) ?gs) @ t) = (drop (start + n) ?gs, False, t)"
        using segments_facts [of w] le True by (intro read_groups_show stops) (auto dest: in_set_dropD)
      moreover have "8 - start - (8 - start - n) = n" "start \<noteq> 8" using le True by simp_all
      ultimately show ?thesis
        using zeros_split [OF z] by (simp add: read_ipv6_def)
    next
      case False
      have "show_ipv6 w @ t = groups_text 0 ?gs @ t"
        using other False by (simp add: show_ipv6_def run groups_text_def)
      then have "read_groups 8 0 (show_ipv6 w @ t) = (?gs, False, t)"
        using segments_facts [of w] stops(1) by (simp add: read_groups_show)
      then show ?thesis using segments_facts(1) [of w] by (simp add: read_ipv6_def)
    qed
  qed
qed

lemma socket_addr_text_roundtrip: "parse_socket_addr (show_socket_addr a) = Some a"
proof (cases a rule: show_socket_addr.cases)
  case (1 w p)
  then show ?thesis using ipv4_text_roundtrip by simp
next
  case (2 w p)
  have "read_socket_v4 (show_socket_addr a) = None"
    by (simp add: 2 read_socket_v4_def read_ipv4_colon)
  moreover have "read_ipv6 (show_ipv6 w @ 93 # 58 # show_nat (unat p)) = Some (w, 93 # 58 # show_nat (unat p))"
    by (rule read_ipv6_show) simp
  then have "read_socket_v6 (show_socket_addr a) = Some (a, [])"
    using read_port_show [of p] by (simp add: 2 read_socket_v6_def)
  ultimately show ?thesis by (simp add: parse_socket_addr_def)
qed

lemma ip_addr_text_roundtrip: "parse_ip_addr (show_ip a) = Some a"
proof (cases a)
  case (IpV4 w)
  then show ?thesis using ipv4_text_roundtrip by blast
next
  case (IpV6 w)
  have "read_ipv4 (show_ipv6 w) = None"
  proof -
    have groups: "read_ipv4 (groups_text 0 gs @ t) = None" if "t = [] \<or> hd t = 58" for gs t
    proof (cases gs)
      case Nil
      then show ?thesis using that by (cases t) (auto simp: read_ipv4_colon)
    next
      case (Cons g gs')
      have "groups_text (Suc 0) gs' @ t = [] \<or> hd (groups_text (Suc 0) gs' @ t) = 58"
        using that by (cases gs') (auto simp: groups_text_Cons)
      then have "read_ipv4 (show_hex g @ groups_text (Suc 0) gs' @ t) = None"
        by (intro read_ipv4_needs_dot [OF hex_no_dot]) auto
      then show ?thesis by (simp add: Cons groups_text_Cons)
    qed
    have "lit ''::ffff:'' = 58 # lit '':ffff:''" by (simp add: str_simps)
    then show ?thesis
      using groups [of "[58, 58] @ t" for t] groups [of "[]"]
      by (auto simp: show_ipv6_def Let_def read_ipv4_colon groups_text_def split: prod.splits)
  qed
  then show ?thesis
    using read_ipv6_show [of "[]" w] IpV6 by (simp add: parse_ip_addr_def read_ip_addr_def)
qed

end
