(* ===== verification/Session.thy ===== *)
theory Session
  imports Decode Address_Text
begin

text \<open>
  Session files (\<open>src/session.rs\<close>): the writer of one JSON record per line and the validating reader.

  A file is its text; the file system is the record \<open>disk\<close>, whose fault functions say which operations fail and
  with what error. The \<open>serde_json\<close> crate with the code derived by \<open>serde\<close> is the parameter \<open>serde\<close>: printing a
  record, parsing a line into a value, the value's \<open>schema_version\<close> as an unsigned number, and
  converting a value into a record; \<open>rfc3339\<close> is \<open>chrono\<close>'s check of a timestamp, with the text of its error.
\<close>

subsection \<open>Stored records\<close>

definition SCHEMA_VERSION :: nat where "SCHEMA_VERSION = 1"

datatype stored_direction = F2b | B2f

record stored_field_summary =
  sfs_name :: rstring
  sfs_type_oid :: u32
  sfs_format_code :: "16 word"

record stored_data_column =
  sdc_name :: rstring
  sdc_type_oid :: u32
  sdc_value :: rstring

datatype stored_detail = StoredRowDescription "stored_field_summary list" | StoredDataRow "stored_data_column list"

record stored_message =
  sm_direction :: stored_direction
  sm_message_type :: rstring
  sm_text :: rstring
  sm_rendered :: rstring
  sm_client :: rstring
  sm_detail :: "stored_detail option"

datatype stored_payload = StoredMessage stored_message | StoredLine rstring | StoredStatus rstring

record stored_record =
  schema_version :: nat
  timestamp :: rstring
  payload :: stored_payload

fun stored_direction_of :: "message_direction \<Rightarrow> stored_direction" where
  "stored_direction_of FrontendToBackend = F2b"
| "stored_direction_of BackendToFrontend = B2f"

fun direction_of_stored :: "stored_direction \<Rightarrow> message_direction" where
  "direction_of_stored F2b = FrontendToBackend"
| "direction_of_stored B2f = BackendToFrontend"

definition stored_field_of :: "field_summary \<Rightarrow> stored_field_summary" where
  "stored_field_of f = \<lparr> sfs_name = fs_name f, sfs_type_oid = fs_type_oid f, sfs_format_code = fs_format_code f \<rparr>"

definition field_of_stored :: "stored_field_summary \<Rightarrow> field_summary" where
  "field_of_stored f = \<lparr> fs_name = sfs_name f, fs_type_oid = sfs_type_oid f, fs_format_code = sfs_format_code f \<rparr>"

definition stored_column_of :: "data_column \<Rightarrow> stored_data_column" where
  "stored_column_of c = \<lparr> sdc_name = dc_name c, sdc_type_oid = dc_type_oid c, sdc_value = dc_value c \<rparr>"

definition column_of_stored :: "stored_data_column \<Rightarrow> data_column" where
  "column_of_stored c = \<lparr> dc_name = sdc_name c, dc_type_oid = sdc_type_oid c, dc_value = sdc_value c \<rparr>"

fun stored_detail_of :: "event_detail \<Rightarrow> stored_detail" where
  "stored_detail_of (RowDescriptionDetail cs) = StoredRowDescription (map stored_field_of cs)"
| "stored_detail_of (DataRowDetail cs) = StoredDataRow (map stored_column_of cs)"

fun detail_of_stored :: "stored_detail \<Rightarrow> event_detail" where
  "detail_of_stored (StoredRowDescription cs) = RowDescriptionDetail (map field_of_stored cs)"
| "detail_of_stored (StoredDataRow cs) = DataRowDetail (map column_of_stored cs)"

text \<open>\<open>from_output\<close>; \<open>at\<close> is the reading of the clock, used for lines and statuses.\<close>

fun from_output :: "rstring \<Rightarrow> output_record \<Rightarrow> stored_record" where
  "from_output at (Message m d) = \<lparr> schema_version = SCHEMA_VERSION, timestamp = dm_timestamp m,
     payload = StoredMessage \<lparr> sm_direction = stored_direction_of (dm_direction m), sm_message_type = dm_kind m,
       sm_text = dm_text m, sm_rendered = dm_rendered m, sm_client = show_socket_addr (dm_client m),
       sm_detail = map_option stored_detail_of d \<rparr> \<rparr>"
| "from_output at (Line tx) = \<lparr> schema_version = SCHEMA_VERSION, timestamp = at, payload = StoredLine tx \<rparr>"
| "from_output at (Status tx) = \<lparr> schema_version = SCHEMA_VERSION, timestamp = at, payload = StoredStatus tx \<rparr>"

subsection \<open>Errors\<close>

datatype session_error =
    IoError rstring rstring
  | InvalidRecord rstring nat rstring
  | UnsupportedSchema rstring nat nat
  | EncodeError rstring rstring

fun show_session_error :: "session_error \<Rightarrow> rstring" where
  "show_session_error (IoError path source) = path @ lit '': '' @ source"
| "show_session_error (InvalidRecord path line msg) =
     path @ lit '': invalid JSONL record at line '' @ show_nat line @ lit '': '' @ msg"
| "show_session_error (UnsupportedSchema path line found) =
     path @ lit '': unsupported schema version '' @ show_nat found @ lit '' at line '' @ show_nat line
     @ lit '' (supported: '' @ show_nat SCHEMA_VERSION @ lit '')''"
| "show_session_error (EncodeError path source) = path @ lit '': could not encode JSONL record: '' @ source"

subsection \<open>The environment\<close>

record 'v serde =
  encode_record :: "stored_record \<Rightarrow> rstring + rstring"
  value_of_line :: "rstring \<Rightarrow> rstring + 'v"
  version_number :: "'v \<Rightarrow> nat option"
  record_of_value :: "'v \<Rightarrow> rstring + stored_record"
  rfc3339 :: "rstring \<Rightarrow> rstring option"
  debug_string :: "rstring \<Rightarrow> rstring"

text \<open>A failing write gives the error and the text it leaves in the file.\<close>

record disk =
  files :: "rstring \<rightharpoonup> rstring"
  create_fault :: "rstring \<Rightarrow> rstring option"
  open_fault :: "rstring \<Rightarrow> rstring option"
  missing_error :: rstring
  read_fault :: "rstring \<Rightarrow> nat \<Rightarrow> rstring option"
  write_fault :: "rstring \<Rightarrow> rstring \<Rightarrow> rstring \<Rightarrow> (rstring \<times> rstring) option"
  flush_fault :: "rstring \<Rightarrow> rstring option"

definition file_text :: "disk \<Rightarrow> rstring \<Rightarrow> rstring" where
  "file_text fs p = (case files fs p of None \<Rightarrow> [] | Some s \<Rightarrow> s)"

definition put_file :: "rstring \<Rightarrow> rstring \<Rightarrow> disk \<Rightarrow> disk" where
  "put_file p s fs = fs\<lparr> files := (files fs)(p \<mapsto> s) \<rparr>"

lemma put_file_simps [simp]:
  "files (put_file p s fs) p = Some s" "file_text (put_file p s fs) p = s" "put_file p s (put_file p t fs) = put_file p s fs"
  "create_fault (put_file p s fs) = create_fault fs" "open_fault (put_file p s fs) = open_fault fs"
  "read_fault (put_file p s fs) = read_fault fs" "write_fault (put_file p s fs) = write_fault fs"
  "flush_fault (put_file p s fs) = flush_fault fs" "missing_error (put_file p s fs) = missing_error fs"
  "q \<noteq> p \<Longrightarrow> files (put_file p s fs) q = files fs q"
  by (simp_all add: put_file_def file_text_def)

definition append_text :: "rstring \<Rightarrow> rstring \<Rightarrow> disk \<Rightarrow> (rstring + unit) \<times> disk" where
  "append_text p s fs =
     (case write_fault fs p (file_text fs p) s of
        Some (err, left) \<Rightarrow> (Inl err, put_file p left fs)
      | None \<Rightarrow> (Inr (), put_file p (file_text fs p @ s) fs))"

subsection \<open>Writing\<close>

record session_writer =
  sw_path :: rstring

definition session_create :: "rstring \<Rightarrow> disk \<Rightarrow> (session_error + session_writer) \<times> disk" where
  "session_create path fs =
     (case create_fault fs path of
        Some err \<Rightarrow> (Inl (IoError path err), fs)
      | None \<Rightarrow> (Inr \<lparr> sw_path = path \<rparr>, put_file path [] fs))"

text \<open>The record's text and the newline are two writes: a failure of the first is reported as an encoding
  error, of the second as an input-output error.\<close>

definition session_write ::
    "'v serde \<Rightarrow> rstring \<Rightarrow> output_record \<Rightarrow> session_writer \<Rightarrow> disk \<Rightarrow> (session_error + unit) \<times> disk" where
  "session_write sd at output w fs =
     (case encode_record sd (from_output at output) of
        Inl err \<Rightarrow> (Inl (EncodeError (sw_path w) err), fs)
      | Inr line \<Rightarrow>
          (case append_text (sw_path w) line fs of
             (Inl err, fs) \<Rightarrow> (Inl (EncodeError (sw_path w) err), fs)
           | (Inr _, fs) \<Rightarrow>
               (case append_text (sw_path w) [10] fs of
                  (Inl err, fs) \<Rightarrow> (Inl (IoError (sw_path w) err), fs)
                | (Inr _, fs) \<Rightarrow> (Inr (), fs))))"

text \<open>Writing the retained records, as a recording begins: the first error ends it.\<close>

fun write_outputs ::
    "'v serde \<Rightarrow> (rstring \<times> output_record) list \<Rightarrow> session_writer \<Rightarrow> disk \<Rightarrow> (session_error + unit) \<times> disk" where
  "write_outputs sd [] w fs = (Inr (), fs)"
| "write_outputs sd ((at, output) # ars) w fs =
     (case session_write sd at output w fs of
        (Inl err, fs) \<Rightarrow> (Inl err, fs)
      | (Inr _, fs) \<Rightarrow> write_outputs sd ars w fs)"

definition session_flush :: "session_writer \<Rightarrow> disk \<Rightarrow> session_error + unit" where
  "session_flush w fs = (case flush_fault fs (sw_path w) of Some err \<Rightarrow> Inl (IoError (sw_path w) err) | None \<Rightarrow> Inr ())"

subsection \<open>Reading\<close>

text \<open>\<open>BufRead::lines\<close>: the newline and one carriage return before it are dropped; a last line without a newline
  is a line.\<close>

definition strip_cr :: "rstring \<Rightarrow> rstring" where
  "strip_cr l = (if l \<noteq> [] \<and> last l = 13 then butlast l else l)"

fun lines_from :: "rstring \<Rightarrow> rstring \<Rightarrow> rstring list" where
  "lines_from l [] = (if l = [] then [] else [l])"
| "lines_from l (c # s) = (if c = 10 then strip_cr l # lines_from [] s else lines_from (l @ [c]) s)"

definition text_lines :: "rstring \<Rightarrow> rstring list" where
  "text_lines s = lines_from [] s"

definition U32_SPACE :: nat where "U32_SPACE = 2 ^ 32"

definition into_output :: "'v serde \<Rightarrow> rstring \<Rightarrow> nat \<Rightarrow> stored_record \<Rightarrow> session_error + output_record" where
  "into_output sd path line r =
     (case rfc3339 sd (timestamp r) of
        Some err \<Rightarrow> Inl (InvalidRecord path line (lit ''timestamp must be RFC 3339: '' @ err))
      | None \<Rightarrow>
          (case payload r of
             StoredMessage m \<Rightarrow>
               (case parse_socket_addr (sm_client m) of
                  None \<Rightarrow> Inl (InvalidRecord path line (lit ''invalid client address '' @ debug_string sd (sm_client m)
                            @ lit '': invalid socket address syntax''))
                | Some cl \<Rightarrow> Inr (Message \<lparr> dm_timestamp = timestamp r, dm_rendered = sm_rendered m, dm_client = cl,
                     dm_direction = direction_of_stored (sm_direction m), dm_kind = sm_message_type m, dm_text = sm_text m \<rparr>
                     (map_option detail_of_stored (sm_detail m))))
           | StoredLine tx \<Rightarrow> Inr (Line tx)
           | StoredStatus tx \<Rightarrow> Inr (Status tx)))"

text \<open>One line: nothing for a blank one, otherwise the record it holds.\<close>

definition read_line :: "'v serde \<Rightarrow> rstring \<Rightarrow> nat \<Rightarrow> rstring \<Rightarrow> session_error + output_record option" where
  "read_line sd path n line =
     (if trim line = [] then Inr None
      else case value_of_line sd line of
        Inl err \<Rightarrow> Inl (InvalidRecord path n err)
      | Inr v \<Rightarrow>
          (case Option.bind (version_number sd v) (\<lambda>x. if x < U32_SPACE then Some x else None) of
             None \<Rightarrow> Inl (InvalidRecord path n (lit ''schema_version must be an unsigned 32-bit integer''))
           | Some found \<Rightarrow>
               if found \<noteq> SCHEMA_VERSION then Inl (UnsupportedSchema path n found)
               else (case record_of_value sd v of
                  Inl err \<Rightarrow> Inl (InvalidRecord path n err)
                | Inr r \<Rightarrow> map_sum id Some (into_output sd path n r))))"

text \<open>\<open>read_with\<close>: the consumer is run on each record as it is read, so its state is there even after an error.\<close>

fun read_lines :: "'v serde \<Rightarrow> disk \<Rightarrow> rstring \<Rightarrow> nat \<Rightarrow> rstring list \<Rightarrow> (output_record \<Rightarrow> 'a \<Rightarrow> 'a) \<Rightarrow> 'a
    \<Rightarrow> (session_error + unit) \<times> 'a" where
  "read_lines sd fs path i [] consume a = (Inr (), a)"
| "read_lines sd fs path i (line # ls) consume a =
     (case read_fault fs path i of
        Some err \<Rightarrow> (Inl (IoError path err), a)
      | None \<Rightarrow>
          (case read_line sd path (i + 1) line of
             Inl err \<Rightarrow> (Inl err, a)
           | Inr None \<Rightarrow> read_lines sd fs path (Suc i) ls consume a
           | Inr (Some output) \<Rightarrow> read_lines sd fs path (Suc i) ls consume (consume output a)))"

definition read_with :: "'v serde \<Rightarrow> disk \<Rightarrow> rstring \<Rightarrow> (output_record \<Rightarrow> 'a \<Rightarrow> 'a) \<Rightarrow> 'a \<Rightarrow> (session_error + unit) \<times> 'a" where
  "read_with sd fs path consume a =
     (case open_fault fs path of
        Some err \<Rightarrow> (Inl (IoError path err), a)
      | None \<Rightarrow>
          (case files fs path of
             None \<Rightarrow> (Inl (IoError path (missing_error fs)), a)
           | Some s \<Rightarrow> read_lines sd fs path 0 (text_lines s) consume a))"

definition read_all :: "'v serde \<Rightarrow> disk \<Rightarrow> rstring \<Rightarrow> session_error + output_record list" where
  "read_all sd fs path =
     (case read_with sd fs path (\<lambda>r outs. outs @ [r]) [] of (Inl err, _) \<Rightarrow> Inl err | (Inr _, outs) \<Rightarrow> Inr outs)"

definition USIZE_MAX :: nat where "USIZE_MAX = 2 ^ 64 - 1"

definition saturating_add :: "nat \<Rightarrow> nat \<Rightarrow> nat" where
  "saturating_add a b = min USIZE_MAX (a + b)"

definition tail_push :: "nat \<Rightarrow> output_record \<Rightarrow> output_record list \<times> nat \<Rightarrow> output_record list \<times> nat" where
  "tail_push cap r = (\<lambda>(outs, dropped).
     if cap = 0 then (outs, saturating_add dropped 1)
     else let (outs, dropped) = (if length outs = cap then (tl outs, saturating_add dropped 1) else (outs, dropped))
          in (outs @ [r], dropped))"

definition read_tail :: "'v serde \<Rightarrow> disk \<Rightarrow> rstring \<Rightarrow> nat \<Rightarrow> session_error + output_record list \<times> nat" where
  "read_tail sd fs path cap =
     (case read_with sd fs path (tail_push cap) ([], 0) of (Inl err, _) \<Rightarrow> Inl err | (Inr _, q) \<Rightarrow> Inr q)"

subsection \<open>A record comes back as it was\<close>

lemma stored_round [simp]:
  "direction_of_stored (stored_direction_of d) = d" "field_of_stored (stored_field_of f) = f"
  "column_of_stored (stored_column_of c) = c"
  by (cases d) (simp_all add: field_of_stored_def stored_field_of_def column_of_stored_def stored_column_of_def)

lemma stored_detail_round [simp]: "detail_of_stored (stored_detail_of d) = d"
  by (cases d) (simp_all add: comp_def)

lemma into_from_output:
  "rfc3339 sd (timestamp (from_output at r)) = None \<Longrightarrow> into_output sd path n (from_output at r) = Inr r"
  by (cases r) (simp_all add: into_output_def socket_addr_text_roundtrip option.map_comp comp_def option.map_ident)

text \<open>What is relied on of \<open>serde_json\<close> for a record: it prints one line without newline, not blank and not ending in a carriage
  return, that parses back to a value with the record's version and contents.\<close>

definition serde_ok :: "'v serde \<Rightarrow> stored_record \<Rightarrow> bool" where
  "serde_ok sd r \<longleftrightarrow> (case encode_record sd r of
       Inl err \<Rightarrow> False
     | Inr l \<Rightarrow> 10 \<notin> set l \<and> trim l \<noteq> [] \<and> last l \<noteq> 13 \<and>
         (case value_of_line sd l of
            Inl err \<Rightarrow> False
          | Inr v \<Rightarrow> version_number sd v = Some (schema_version r) \<and> record_of_value sd v = Inr r))"

definition storable :: "'v serde \<Rightarrow> rstring \<times> output_record \<Rightarrow> bool" where
  "storable sd = (\<lambda>(at, r). serde_ok sd (from_output at r) \<and> rfc3339 sd (timestamp (from_output at r)) = None)"

definition line_of :: "'v serde \<Rightarrow> rstring \<times> output_record \<Rightarrow> rstring" where
  "line_of sd = (\<lambda>(at, r). case encode_record sd (from_output at r) of Inl _ \<Rightarrow> [] | Inr l \<Rightarrow> l)"

lemma from_output_version [simp]: "schema_version (from_output at r) = SCHEMA_VERSION"
  by (cases r) simp_all

lemma storable_line:
  assumes "storable sd ar"
  shows "encode_record sd (from_output (fst ar) (snd ar)) = Inr (line_of sd ar)"
    "10 \<notin> set (line_of sd ar)" "line_of sd ar \<noteq> []" "last (line_of sd ar) \<noteq> 13"
    "read_line sd path n (line_of sd ar) = Inr (Some (snd ar))"
proof -
  obtain at r where ar: "ar = (at, r)" by (cases ar)
  obtain l v where "encode_record sd (from_output at r) = Inr l" "value_of_line sd l = Inr v"
    "10 \<notin> set l" "trim l \<noteq> []" "last l \<noteq> 13" "version_number sd v = Some SCHEMA_VERSION"
    "record_of_value sd v = Inr (from_output at r)" "rfc3339 sd (timestamp (from_output at r)) = None"
    using assms by (auto simp: storable_def serde_ok_def ar split: sum.splits)
  moreover have "SCHEMA_VERSION < U32_SPACE" by (simp add: SCHEMA_VERSION_def U32_SPACE_def)
  moreover have "l \<noteq> []" using \<open>trim l \<noteq> []\<close> by (auto simp: trim_def)
  ultimately show "encode_record sd (from_output (fst ar) (snd ar)) = Inr (line_of sd ar)"
    "10 \<notin> set (line_of sd ar)" "line_of sd ar \<noteq> []" "last (line_of sd ar) \<noteq> 13"
    "read_line sd path n (line_of sd ar) = Inr (Some (snd ar))"
    by (simp_all add: ar line_of_def read_line_def into_from_output)
qed

lemma lines_from_line: "10 \<notin> set l \<Longrightarrow> lines_from a (l @ 10 # s) = strip_cr (a @ l) # lines_from [] s"
  by (induction l arbitrary: a) auto

lemma text_lines_written:
  "\<forall>l \<in> set ls. 10 \<notin> set l \<and> (l = [] \<or> last l \<noteq> 13) \<Longrightarrow> text_lines (concat (map (\<lambda>l. l @ [10]) ls)) = ls"
  by (induction ls) (auto simp: text_lines_def lines_from_line strip_cr_def)

subsection \<open>The reader as a scan\<close>

text \<open>The records before the first bad line, and its error.\<close>

fun scan_lines :: "'v serde \<Rightarrow> disk \<Rightarrow> rstring \<Rightarrow> nat \<Rightarrow> rstring list \<Rightarrow> output_record list \<times> session_error option" where
  "scan_lines sd fs path i [] = ([], None)"
| "scan_lines sd fs path i (line # ls) =
     (case read_fault fs path i of
        Some err \<Rightarrow> ([], Some (IoError path err))
      | None \<Rightarrow>
          (case read_line sd path (i + 1) line of
             Inl err \<Rightarrow> ([], Some err)
           | Inr None \<Rightarrow> scan_lines sd fs path (Suc i) ls
           | Inr (Some output) \<Rightarrow> apfst ((#) output) (scan_lines sd fs path (Suc i) ls)))"

definition scan_file :: "'v serde \<Rightarrow> disk \<Rightarrow> rstring \<Rightarrow> output_record list \<times> session_error option" where
  "scan_file sd fs path =
     (case open_fault fs path of
        Some err \<Rightarrow> ([], Some (IoError path err))
      | None \<Rightarrow> (case files fs path of None \<Rightarrow> ([], Some (IoError path (missing_error fs)))
          | Some s \<Rightarrow> scan_lines sd fs path 0 (text_lines s)))"

definition verdict :: "'e option \<Rightarrow> 'e + unit" where
  "verdict err = (case err of None \<Rightarrow> Inr () | Some e \<Rightarrow> Inl e)"

lemma read_lines_scan:
  "read_lines sd fs path i ls consume a =
     (verdict (snd (scan_lines sd fs path i ls)), fold consume (fst (scan_lines sd fs path i ls)) a)"
  by (induction ls arbitrary: i a) (auto simp: verdict_def split: option.splits sum.splits)

lemma read_with_scan:
  "read_with sd fs path consume a = (verdict (snd (scan_file sd fs path)), fold consume (fst (scan_file sd fs path)) a)"
  by (auto simp: read_with_def scan_file_def read_lines_scan verdict_def split: option.splits)

lemma fold_snoc: "fold (\<lambda>r outs. outs @ [r]) rs outs = outs @ rs"
  by (induction rs arbitrary: outs) simp_all

lemma read_all_scan:
  "read_all sd fs path = (case scan_file sd fs path of (outs, None) \<Rightarrow> Inr outs | (outs, Some err) \<Rightarrow> Inl err)"
  by (auto simp: read_all_def read_with_scan verdict_def fold_snoc split: prod.splits option.splits)

interpretation session_tail: bounded_history "tail_push cap" fst cap for cap
proof
  fix q :: "output_record list \<times> nat" and x :: output_record and cap
  assume "length (fst q) \<le> cap"
  then show "fst (tail_push cap x q) = lastn cap (fst q @ [x])"
    by (cases q) (auto simp: tail_push_def lastn_def Let_def drop_Suc split: if_splits)
qed

lemma tail_push_dropped:
  "length (fst q) \<le> cap \<Longrightarrow> snd q \<le> USIZE_MAX \<Longrightarrow>
     snd (fold (tail_push cap) rs q) = min USIZE_MAX (snd q + (length (fst q) + length rs - cap))"
proof (induction rs arbitrary: q)
  case (Cons r rs)
  have "length (fst (tail_push cap r q)) \<le> cap"
    using Cons.prems session_tail.contents_push [of q cap r] by simp
  moreover have "snd (tail_push cap r q) = min USIZE_MAX (snd q + (Suc (length (fst q)) - cap))"
    using Cons.prems by (cases q) (auto simp: tail_push_def saturating_add_def Let_def)
  moreover have "length (fst (tail_push cap r q)) = min cap (Suc (length (fst q)))"
    using Cons.prems session_tail.contents_push [of q cap r] by simp
  moreover have "min USIZE_MAX (min USIZE_MAX (n + (Suc k - c)) + (min c (Suc k) + j - c)) = min USIZE_MAX (n + (Suc (k + j) - c))"
    if "k \<le> c" for n k j c
    using that by (cases "k = c") (auto simp: min_def)
  ultimately show ?case
    using Cons.IH [of "tail_push cap r q"] Cons.prems by auto
qed simp

subsection \<open>What was written is read\<close>

text \<open>No operation on the file fails.\<close>

definition reliable :: "disk \<Rightarrow> rstring \<Rightarrow> bool" where
  "reliable fs path \<longleftrightarrow> create_fault fs path = None \<and> open_fault fs path = None \<and> (\<forall>n. read_fault fs path n = None)
     \<and> (\<forall>t s. write_fault fs path t s = None) \<and> flush_fault fs path = None"

lemma reliable_put [simp]: "reliable (put_file p s fs) path = reliable fs path"
  by (simp add: reliable_def)

definition lines_text :: "'v serde \<Rightarrow> (rstring \<times> output_record) list \<Rightarrow> rstring" where
  "lines_text sd ars = concat (map (\<lambda>l. l @ [10]) (map (line_of sd) ars))"

lemma lines_text_simps [simp]:
  "lines_text sd [] = []" "lines_text sd (ar # ars) = line_of sd ar @ 10 # lines_text sd ars"
  "lines_text sd (as @ bs) = lines_text sd as @ lines_text sd bs"
  by (simp_all add: lines_text_def)

lemma session_write_reliable:
  assumes "storable sd (at, r)" "reliable fs path"
  shows "session_write sd at r \<lparr> sw_path = path \<rparr> (put_file path t fs) = (Inr (), put_file path (t @ lines_text sd [(at, r)]) fs)"
  using storable_line(1) [OF assms(1)] assms(2) by (simp add: session_write_def append_text_def reliable_def)

lemma write_outputs_reliable:
  assumes "reliable fs path"
  shows "\<forall>ar \<in> set ars. storable sd ar \<Longrightarrow> write_outputs sd ars \<lparr> sw_path = path \<rparr> (put_file path t fs)
    = (Inr (), put_file path (t @ lines_text sd ars) fs)"
proof (induction ars arbitrary: t)
  case (Cons ar ars)
  then show ?case
    using session_write_reliable [OF _ assms, of sd "fst ar" "snd ar" t] Cons.IH [of "t @ lines_text sd [ar]"]
    by (cases ar) simp
qed simp

lemma read_all_written:
  assumes "reliable fs path" "\<forall>ar \<in> set ars. storable sd ar"
  shows "read_all sd (put_file path (lines_text sd ars) fs) path = Inr (map snd ars)"
proof -
  let ?fs = "put_file path (lines_text sd ars) fs"
  have "10 \<notin> set (line_of sd ar) \<and> (line_of sd ar = [] \<or> last (line_of sd ar) \<noteq> 13)" if "ar \<in> set ars" for ar
    using storable_line(2,4) [of sd ar] that assms(2) by blast
  then have "text_lines (lines_text sd ars) = map (line_of sd) ars"
    unfolding lines_text_def by (intro text_lines_written) simp
  moreover have "scan_lines sd ?fs path i (map (line_of sd) as) = (map snd as, None)" if "\<forall>ar \<in> set as. storable sd ar" for i as
    using that assms(1) by (induction as arbitrary: i) (simp_all add: storable_line(5) reliable_def)
  ultimately have "scan_file sd ?fs path = (map snd ars, None)"
    using assms by (simp add: scan_file_def reliable_def)
  then show ?thesis by (simp add: read_all_scan)
qed

subsection \<open>Properties\<close>

text \<open>C15. What a recorder wrote is what a replay reads: records written to a new file, when no operation fails, come back in
  order, each exactly as it was, whatever the clock gave for the lines and statuses.\<close>

theorem session_roundtrip:
  assumes "reliable fs path" "\<forall>ar \<in> set ars. storable sd ar"
  shows "\<exists>w fs1 fs2. session_create path fs = (Inr w, fs1) \<and> write_outputs sd ars w fs1 = (Inr (), fs2)
    \<and> session_flush w fs2 = Inr () \<and> read_all sd fs2 path = Inr (map snd ars)"
  using write_outputs_reliable [OF assms, of "[]"] read_all_written [OF assms] assms(1)
  by (simp add: session_create_def session_flush_def reliable_def)

lemma read_tail_all:
  "read_tail sd fs path cap = (case read_all sd fs path of Inl err \<Rightarrow> Inl err
     | Inr outs \<Rightarrow> Inr (lastn cap outs, min USIZE_MAX (length outs - cap)))"
proof -
  have "fst (fold (tail_push cap) outs ([], 0)) = lastn cap outs" for outs
    using session_tail.contents_pushes [of "([], 0)" cap outs] by (simp add: session_tail.pushes_def)
  moreover have "snd (fold (tail_push cap) outs ([], 0)) = min USIZE_MAX (length outs - cap)" for outs
    using tail_push_dropped [of "([], 0)" cap outs] by simp
  ultimately show ?thesis
    by (auto simp: read_tail_def read_all_scan read_with_scan verdict_def prod_eq_iff split: prod.splits option.splits)
qed

text \<open>C16. The bounded reader agrees with the complete one: it fails exactly when that fails, with the same error, and
  otherwise gives the newest \<open>cap\<close> records in order and the number of those before them, capped at the largest \<open>usize\<close>.\<close>

theorem read_tail_is_tail_of_read_all:
  "read_tail sd fs path cap = (case read_all sd fs path of Inl err \<Rightarrow> Inl err
     | Inr outs \<Rightarrow> Inr (lastn cap outs, min USIZE_MAX (length outs - cap)))"
  by (rule read_tail_all)

text \<open>C29. A bad line is reported where it is: reading fails with the error of the first line that is bad, under its number
  counted from one, and a streaming consumer has then been given exactly the records before it, in order.\<close>

theorem read_all_reports_first_bad_line:
  assumes "open_fault fs path = None" "files fs path = Some s" "\<forall>n. read_fault fs path n = None"
    and "text_lines s = good @ bad # rest" "\<forall>i < length good. \<exists>r. read_line sd path (i + 1) (good ! i) = Inr r"
    and "read_line sd path (length good + 1) bad = Inl err"
  shows "read_all sd fs path = Inl err
    \<and> read_with sd fs path consume a = (Inl err, fold consume
        (List.map_filter (\<lambda>(i, l). case read_line sd path (i + 1) l of Inr r \<Rightarrow> r | Inl _ \<Rightarrow> None) (enumerate 0 good)) a)"
proof -
  let ?out = "\<lambda>(i, l). case read_line sd path (i + 1) l of Inr r \<Rightarrow> r | Inl _ \<Rightarrow> None"
  have "scan_lines sd fs path k (good @ bad # rest) = (List.map_filter ?out (enumerate k good), Some err)"
    if "\<forall>i < length good. \<exists>r. read_line sd path (k + i + 1) (good ! i) = Inr r" "read_line sd path (k + length good + 1) bad = Inl err" for k
    using that
  proof (induction good arbitrary: k)
    case (Cons l good)
    have "\<forall>i < length good. \<exists>r. read_line sd path (Suc k + i + 1) (good ! i) = Inr r"
      using Cons.prems(1) by fastforce
    then have "scan_lines sd fs path (Suc k) (good @ bad # rest) = (List.map_filter ?out (enumerate (Suc k) good), Some err)"
      using Cons.prems(2) by (intro Cons.IH) simp_all
    moreover obtain r where "read_line sd path (k + 1) l = Inr r" using Cons.prems(1) by force
    ultimately show ?case using assms(3) by (cases r) simp_all
  qed (simp add: assms(3))
  from this [of 0] have "scan_file sd fs path = (List.map_filter ?out (enumerate 0 good), Some err)"
    using assms by (simp add: scan_file_def)
  then show ?thesis by (simp add: read_all_scan read_with_scan verdict_def)
qed

text \<open>Nothing of another schema is ever replayed: a file is read without error only if every line that is not blank holds a
  record of exactly the supported version, with a valid timestamp.\<close>

lemma read_all_only_supported_schema:
  assumes "read_all sd fs path = Inr outs"
  shows "\<exists>s. files fs path = Some s \<and> (\<forall>l \<in> set (text_lines s). trim l = [] \<or>
    (\<exists>v r. value_of_line sd l = Inr v \<and> version_number sd v = Some SCHEMA_VERSION \<and> record_of_value sd v = Inr r
       \<and> rfc3339 sd (timestamp r) = None))"
proof -
  have line: "trim l = [] \<or> (\<exists>v r. value_of_line sd l = Inr v \<and> version_number sd v = Some SCHEMA_VERSION
      \<and> record_of_value sd v = Inr r \<and> rfc3339 sd (timestamp r) = None)" if "read_line sd path n l = Inr o'" for n l o'
    using that by (auto simp: read_line_def into_output_def bind_eq_Some_conv split: if_splits sum.splits option.splits)
  have "\<forall>l \<in> set ls. \<exists>n o'. read_line sd path n l = Inr o'" if "snd (scan_lines sd fs path i ls) = None" for i ls
    using that
  proof (induction ls arbitrary: i)
    case (Cons l ls)
    then obtain o' where "read_line sd path (i + 1) l = Inr o'" "snd (scan_lines sd fs path (Suc i) ls) = None"
      by (auto split: option.splits sum.splits)
    then show ?case using Cons.IH [of "Suc i"] by auto
  qed simp
  moreover obtain s where "files fs path = Some s" "snd (scan_lines sd fs path 0 (text_lines s)) = None"
    using assms by (auto simp: read_all_scan scan_file_def split: prod.splits option.splits)
  ultimately show ?thesis using line by blast
qed

subsection \<open>Witnesses\<close>

definition sample_message :: display_message where
  "sample_message = \<lparr> dm_timestamp = lit ''2024-01-01T00:00:00.000Z'', dm_rendered = lit ''Sync'', dm_client = sample_client,
     dm_direction = FrontendToBackend, dm_kind = lit ''Sync'', dm_text = [] \<rparr>"

text \<open>A sample of the library: it knows how to store the sample message and, at one instant, any line.\<close>

definition sample_serde :: "stored_record serde" where
  "sample_serde = \<lparr>
     encode_record = (\<lambda>r. if r = from_output [] (Message sample_message None) then Inr [77]
        else case payload r of StoredLine tx \<Rightarrow> Inr ([76] @ tx @ [46]) | StoredStatus tx \<Rightarrow> Inr ([83] @ tx @ [46]) | _ \<Rightarrow> Inl (lit ''unsupported'')),
     value_of_line = (\<lambda>l. if l = [77] then Inr (from_output [] (Message sample_message None))
        else if take 1 l = [76] then Inr (from_output [] (Line (butlast (drop 1 l))))
        else if take 1 l = [83] then Inr (from_output [] (Status (butlast (drop 1 l)))) else Inl (lit ''expected value'')),
     version_number = (\<lambda>r. Some (schema_version r)), record_of_value = Inr, rfc3339 = (\<lambda>t. None), debug_string = (\<lambda>t. t) \<rparr>"

definition sample_disk :: disk where
  "sample_disk = \<lparr> files = (\<lambda>p. None), create_fault = (\<lambda>p. None), open_fault = (\<lambda>p. None), missing_error = lit ''No such file'',
     read_fault = (\<lambda>p n. None), write_fault = (\<lambda>p t s. None), flush_fault = (\<lambda>p. None) \<rparr>"

lemma sample_reliable: "reliable sample_disk p"
  by (simp add: sample_disk_def reliable_def)

definition sample_records :: "(rstring \<times> output_record) list" where
  "sample_records = [([], Line (lit ''opened'')), ([], Message sample_message None)]"

lemma sample_storable: "\<forall>ar \<in> set sample_records. storable sample_serde ar"
proof -
  have "storable sample_serde ([], Line (lit ''opened''))"
    by (simp add: storable_def serde_ok_def sample_serde_def SCHEMA_VERSION_def trim_def is_ws_def str_simps)
  moreover have "storable sample_serde ([], Message sample_message None)"
    by (simp add: storable_def serde_ok_def sample_serde_def SCHEMA_VERSION_def trim_def is_ws_def sample_message_def)
  ultimately show ?thesis by (simp add: sample_records_def)
qed

theorem session_roundtrip_witness:
  "\<exists>w fs1 fs2. session_create (lit ''a.jsonl'') sample_disk = (Inr w, fs1)
    \<and> write_outputs sample_serde sample_records w fs1 = (Inr (), fs2)
    \<and> read_all sample_serde fs2 (lit ''a.jsonl'') = Inr [Line (lit ''opened''), Message sample_message None]"
proof -
  have "map snd sample_records = [Line (lit ''opened''), Message sample_message None]" by (simp add: sample_records_def)
  then show ?thesis
    using session_roundtrip [OF sample_reliable [of "lit ''a.jsonl''"] sample_storable] by auto
qed

theorem read_all_reports_first_bad_line_witness:
  "read_all sample_serde (put_file [112] ([77, 10, 10] @ [123]) sample_disk) [112] = Inl (InvalidRecord [112] 3 (lit ''expected value''))"
proof -
  let ?s = "[77, 10, 10] @ [123 :: rchar]"
  have good: "read_line sample_serde [112] n [77] = Inr (Some (Message sample_message None))" "read_line sample_serde [112] n [] = Inr None" for n
    by (simp_all add: read_line_def trim_def is_ws_def sample_serde_def U32_SPACE_def SCHEMA_VERSION_def into_output_def sample_message_def socket_addr_text_roundtrip)
  have "\<exists>r. read_line sample_serde [112] (i + 1) ([[77], []] ! i) = Inr r" if "i < length [[77], [] :: rstring]" for i
    using that by (auto simp: less_Suc_eq good)
  moreover have "read_line sample_serde [112] (length [[77], [] :: rstring] + 1) [123] = Inl (InvalidRecord [112] 3 (lit ''expected value''))"
    by (simp add: read_line_def trim_def is_ws_def sample_serde_def)
  moreover have "text_lines ?s = [[77], []] @ [123] # []" by (simp add: text_lines_def strip_cr_def)
  moreover have "open_fault (put_file [112] ?s sample_disk) [112] = None" "\<forall>n. read_fault (put_file [112] ?s sample_disk) [112] n = None"
    "files (put_file [112] ?s sample_disk) [112] = Some ?s"
    by (simp_all add: sample_disk_def)
  ultimately show ?thesis
    using read_all_reports_first_bad_line [where consume = "\<lambda>r (n :: nat). Suc n" and a = 0, of "put_file [112] ?s sample_disk" "[112]" ?s
        "[[77], []]" "[123]" "[]" sample_serde "InvalidRecord [112] 3 (lit ''expected value'')"]
    by blast
qed

theorem read_all_only_supported_schema_witness:
  "\<exists>s. files (put_file [112] [77, 10] sample_disk) [112] = Some s \<and> (\<forall>l \<in> set (text_lines s). trim l = [] \<or>
    (\<exists>v r. value_of_line sample_serde l = Inr v \<and> version_number sample_serde v = Some SCHEMA_VERSION
       \<and> record_of_value sample_serde v = Inr r \<and> rfc3339 sample_serde (timestamp r) = None))"
proof (rule read_all_only_supported_schema)
  show "read_all sample_serde (put_file [112] [77, 10] sample_disk) [112] = Inr [Message sample_message None]"
    by (simp add: read_all_def read_with_def sample_disk_def text_lines_def strip_cr_def read_line_def trim_def is_ws_def
        sample_serde_def U32_SPACE_def SCHEMA_VERSION_def into_output_def sample_message_def
        socket_addr_text_roundtrip)
qed

end
