(* ===== verification/Flow.thy ===== *)
theory Flow
  imports Decode
begin

text \<open>
  Connections and the connection table (\<open>src/flow.rs\<close>): each captured segment is classified, its
  connection found or opened, its direction fed and drained, and the metrics updated. The
  \<open>HashMap\<close> is an association list with distinct keys; the state of \<open>handle\<close> is the table, the
  metrics and the sinks. The readings of the clock for the metrics are the parameter \<open>now_m\<close>
  (the lifecycles' instants are not otherwise used here).
\<close>

subsection \<open>State\<close>

record conn_key =
  ck_client :: endpoint
  ck_server :: endpoint

record 'c connection =
  cn_client :: "'c direction"
  cn_server :: "'c direction"
  cn_encrypted :: bool
  metrics_closed :: bool
  cn_stats :: conn_ref

type_synonym 'c conn_map = "(conn_key \<times> 'c connection) list"

text \<open>The parameters of a capture: the decoders, the environment, the default context and the instants.\<close>

record 'c capture_env =
  fdec :: "('c, fmsg) decoder"
  bdec :: "('c, bmsg) decoder"
  cenv :: env
  default_ctx :: "'c decode_context_scheme"
  instant :: "metrics \<Rightarrow> nat"

record 'c flow_state =
  fl_map :: "'c conn_map"
  fl_metrics :: metrics
  fl_io :: io

definition connection_new :: "'c capture_env \<Rightarrow> metrics \<Rightarrow> conn_ref \<Rightarrow> 'c connection" where
  "connection_new ce m stats =
     (let cl = cs_client (heap m ! stats)
      in \<lparr> cn_client = direction_new (default_ctx ce) Client cl,
           cn_server = direction_new (default_ctx ce) Server cl,
           cn_encrypted = False, metrics_closed = False, cn_stats = stats \<rparr>)"

definition conn_table_with_metrics :: "metrics \<Rightarrow> io \<Rightarrow> 'c flow_state" where
  "conn_table_with_metrics m i = \<lparr> fl_map = [], fl_metrics = m, fl_io = i \<rparr>"

definition conn_table_new :: "io \<Rightarrow> 'c flow_state" where
  "conn_table_new i = conn_table_with_metrics new_metrics i"

subsection \<open>A segment of a connection\<close>

definition arm_server :: "negotiation_wait \<Rightarrow> 'c direction \<Rightarrow> 'c direction" where
  "arm_server w d =
     (case w of
        WaitSsl \<Rightarrow> d\<lparr> ctx := (ctx d)\<lparr> awaiting_backend_ssl_response := True \<rparr> \<rparr>
      | WaitGss \<Rightarrow> d\<lparr> ctx := (ctx d)\<lparr> awaiting_backend_gss_response := True \<rparr> \<rparr>
      | NoWait \<Rightarrow> d)"

definition connection_handle ::
    "'c capture_env \<Rightarrow> tcp_segment \<Rightarrow> u16 \<Rightarrow> 'c connection \<Rightarrow> metrics \<Rightarrow> io
      \<Rightarrow> ('c connection \<times> metrics \<times> io) option" where
  "connection_handle ce seg pg_port conn m i =
     (if cn_encrypted conn then Some (conn, m, i)
      else
        let is_client_dir = (seg_dst_port seg = pg_port);
            conn = (if is_client_dir
              then conn\<lparr> cn_client := feed (seg_seq seg) (seg_syn seg) (seg_payload seg) (cn_client conn) \<rparr>
              else conn\<lparr> cn_server := feed (seg_seq seg) (seg_syn seg) (seg_payload seg) (cn_server conn) \<rparr>)
        in do {
          (conn, outcome, i) \<leftarrow>
            (if is_client_dir
             then map_option (\<lambda>(d, outcome, i).
                    (conn\<lparr> cn_client := d, cn_server := arm_server (server_negotiation_wait outcome) (cn_server conn) \<rparr>,
                     outcome, i))
                  (drain_direction (fdec ce) (bdec ce) (cenv ce) (cn_client conn) default_outcome i)
             else map_option (\<lambda>(d, outcome, i). (conn\<lparr> cn_server := d \<rparr>, outcome, i))
                  (drain_direction (fdec ce) (bdec ce) (cenv ce) (cn_server conn) default_outcome i));
          let (conn, m) = (if encrypted outcome
                then (conn\<lparr> cn_encrypted := True \<rparr>, set_encrypted (cn_stats conn) True m) else (conn, m));
          let m = (if 0 < msgs outcome
                then record_messages (cn_stats conn) (if is_client_dir then In else Out) (msgs outcome) (bytes outcome) m
                else m);
          Some (conn, m, i) })"

subsection \<open>The table\<close>

definition out_ts :: "env \<Rightarrow> rstring \<Rightarrow> io \<Rightarrow> io" where
  "out_ts e line i = (let (t, i) = ts_now e i in out (bracket t @ [32] @ line) i)"

definition new_connection_line :: "endpoint \<Rightarrow> endpoint \<Rightarrow> u16 \<Rightarrow> rstring" where
  "new_connection_line cl sv pg_port =
     lit ''=== new connection  '' @ show_ip (fst cl) @ [58] @ show_nat (unat (snd cl))
     @ lit ''  ->  '' @ show_ip (fst sv) @ [58] @ show_nat (unat (snd sv))
     @ lit ''  (port '' @ show_nat (unat pg_port) @ lit '') ===''"

definition classify :: "tcp_segment \<Rightarrow> u16 \<Rightarrow> conn_key option" where
  "classify seg pg_port =
     (if seg_dst_port seg = pg_port
      then Some \<lparr> ck_client = (seg_src seg, seg_src_port seg), ck_server = (seg_dst seg, seg_dst_port seg) \<rparr>
      else if seg_src_port seg = pg_port
      then Some \<lparr> ck_client = (seg_dst seg, seg_dst_port seg), ck_server = (seg_src seg, seg_src_port seg) \<rparr>
      else None)"

definition should_open :: "'c conn_map \<Rightarrow> conn_key \<Rightarrow> tcp_segment \<Rightarrow> bool" where
  "should_open mp k seg = (case map_of mp k of None \<Rightarrow> True | Some conn \<Rightarrow> seg_syn seg \<and> metrics_closed conn)"

definition open_flow :: "'c capture_env \<Rightarrow> conn_key \<Rightarrow> u16 \<Rightarrow> 'c flow_state \<Rightarrow> 'c flow_state" where
  "open_flow ce k pg_port st =
     (let i = out_ts (cenv ce) (new_connection_line (ck_client k) (ck_server k) pg_port) (fl_io st);
          (stats, m) = open_connection (instant ce (fl_metrics st)) (ck_client k) (ck_server k) False (fl_metrics st)
      in \<lparr> fl_map = AList.update k (connection_new ce m stats) (fl_map st), fl_metrics = m, fl_io = i \<rparr>)"

definition table_handle :: "'c capture_env \<Rightarrow> tcp_segment \<Rightarrow> u16 \<Rightarrow> 'c flow_state \<Rightarrow> 'c flow_state option" where
  "table_handle ce seg pg_port st =
     (case classify seg pg_port of
        None \<Rightarrow> Some st
      | Some k \<Rightarrow>
          let st = (if should_open (fl_map st) k seg then open_flow ce k pg_port st else st) in
          (case map_of (fl_map st) k of
             None \<Rightarrow> Some (if seg_rst seg then st\<lparr> fl_io := out_ts (cenv ce) (lit ''=== connection reset (RST) ==='') (fl_io st) \<rparr> else st)
           | Some conn \<Rightarrow> do {
               (conn, m, i) \<leftarrow> connection_handle ce seg pg_port conn (fl_metrics st) (fl_io st);
               if seg_rst seg
               then Some \<lparr> fl_map = AList.delete k (fl_map st),
                           fl_metrics = close_connection (instant ce m) (cn_stats conn) m,
                           fl_io = out_ts (cenv ce) (lit ''=== connection reset (RST) ==='') i \<rparr>
               else if seg_fin seg \<and> \<not> metrics_closed conn
               then Some \<lparr> fl_map = AList.update k (conn\<lparr> metrics_closed := True \<rparr>) (fl_map st),
                           fl_metrics = close_connection (instant ce m) (cn_stats conn) m,
                           fl_io = out_ts (cenv ce) (lit ''=== connection closed (FIN) ==='') i \<rparr>
               else Some \<lparr> fl_map = AList.update k conn (fl_map st), fl_metrics = m, fl_io = i \<rparr> }))"

fun capture_run :: "'c capture_env \<Rightarrow> u16 \<Rightarrow> tcp_segment list \<Rightarrow> 'c flow_state \<Rightarrow> 'c flow_state option" where
  "capture_run ce pg_port [] st = Some st"
| "capture_run ce pg_port (seg # segs) st = Option.bind (table_handle ce seg pg_port st) (capture_run ce pg_port segs)"

subsection \<open>The table and the registry\<close>

text \<open>What the registry has to know of an entry: its handle and whether it was closed.\<close>

definition table_view :: "'c conn_map \<Rightarrow> conn_key \<rightharpoonup> conn_ref \<times> bool" where
  "table_view mp k = map_option (\<lambda>c. (cn_stats c, metrics_closed c)) (map_of mp k)"

definition flow_inv :: "'c flow_state \<Rightarrow> bool" where
  "flow_inv st = registry.tracks (table_view (fl_map st)) (fl_metrics st)"

lemma table_view_update: "table_view (AList.update k c mp) = (table_view mp)(k \<mapsto> (cn_stats c, metrics_closed c))"
  by (auto simp: table_view_def update_conv')

lemma table_view_delete: "table_view (AList.delete k mp) = (table_view mp)(k := None)"
  by (auto simp: table_view_def delete_conv')

lemma table_view_Some: "map_of mp k = Some c \<Longrightarrow> table_view mp k = Some (cn_stats c, metrics_closed c)"
  by (simp add: table_view_def)

lemma tracks_notes:
  "registry.tracks tbl m \<Longrightarrow> tbl k = Some (r, c) \<Longrightarrow> registry.tracks tbl (fold (\<lambda>n. note_connection n r) ns m)"
  by (induction ns arbitrary: m) (auto dest: registry.tracks_note)

lemma note_connection_heap: "length (heap (note_connection n r m)) = length (heap m)"
proof (cases n)
  case (Traffic_Note d a b)
  then show ?thesis by (cases d) (simp_all add: record_messages_def)
qed (simp add: set_encrypted_def)

lemma notes_heap: "length (heap (fold (\<lambda>n. note_connection n r) ns m)) = length (heap m)"
  by (induction ns arbitrary: m) (simp_all add: note_connection_heap)

text \<open>What a connection does with a segment: it always returns, keeps its handle and its mark, and tells
  the registry at most of traffic and encryption.\<close>

lemma connection_handle_total:
  assumes "frontend_ok (fdec ce)" "backend_ok (bdec ce)"
  shows "\<exists>conn' i' ns. connection_handle ce seg pg_port conn m i
      = Some (conn', fold (\<lambda>n. note_connection n (cn_stats conn)) ns m, i')
    \<and> cn_stats conn' = cn_stats conn \<and> metrics_closed conn' = metrics_closed conn
    \<and> (cn_encrypted conn \<longrightarrow> conn' = conn \<and> ns = [] \<and> i' = i)"
proof (cases "cn_encrypted conn")
  case True
  then show ?thesis by (intro exI [of _ conn] exI [of _ i] exI [of _ "[]"]) (simp add: connection_handle_def)
next
  case False
  note drains = drain_direction_drains [OF assms, of "cenv ce" _ default_outcome i]
  have noted: "\<exists>ns. (if 0 < msgs out then record_messages r d (msgs out) (bytes out) (if encrypted out then set_encrypted r True m else m)
      else if encrypted out then set_encrypted r True m else m) = fold (\<lambda>n. note_connection n r) ns m" for out r d
    by (rule exI [of _ "(if encrypted out then [Encryption_Note True] else [])
        @ (if 0 < msgs out then [Traffic_Note d (msgs out) (bytes out)] else [])"]) simp
  show ?thesis
  proof (cases "seg_dst_port seg = pg_port")
    case True
    obtain d out i' where dr: "drain_direction (fdec ce) (bdec ce) (cenv ce)
        (feed (seg_seq seg) (seg_syn seg) (seg_payload seg) (cn_client conn)) default_outcome i = Some (d, out, i')"
      using drains [of "feed (seg_seq seg) (seg_syn seg) (seg_payload seg) (cn_client conn)"] by (metis prod_cases3)
    obtain ns where "(if 0 < msgs out then record_messages (cn_stats conn) In (msgs out) (bytes out) (if encrypted out then set_encrypted (cn_stats conn) True m else m)
      else if encrypted out then set_encrypted (cn_stats conn) True m else m) = fold (\<lambda>n. note_connection n (cn_stats conn)) ns m"
      using noted by blast
    then show ?thesis
      using False True by (auto simp: connection_handle_def Let_def dr split: if_splits)
  next
    case other: False
    obtain d out i' where dr: "drain_direction (fdec ce) (bdec ce) (cenv ce)
        (feed (seg_seq seg) (seg_syn seg) (seg_payload seg) (cn_server conn)) default_outcome i = Some (d, out, i')"
      using drains [of "feed (seg_seq seg) (seg_syn seg) (seg_payload seg) (cn_server conn)"] by (metis prod_cases3)
    obtain ns where "(if 0 < msgs out then record_messages (cn_stats conn) Out (msgs out) (bytes out) (if encrypted out then set_encrypted (cn_stats conn) True m else m)
      else if encrypted out then set_encrypted (cn_stats conn) True m else m) = fold (\<lambda>n. note_connection n (cn_stats conn)) ns m"
      using noted by blast
    then show ?thesis
      using False other by (auto simp: connection_handle_def Let_def dr split: if_splits)
  qed
qed

lemma open_flow_inv:
  assumes "flow_inv st" "room (fl_metrics st)" "should_open (fl_map st) k seg"
  shows "flow_inv (open_flow ce k pg_port st)
    \<and> length (heap (fl_metrics (open_flow ce k pg_port st))) = Suc (length (heap (fl_metrics st)))
    \<and> (\<exists>conn. map_of (fl_map (open_flow ce k pg_port st)) k = Some conn \<and> \<not> cn_encrypted conn \<and> \<not> metrics_closed conn)"
proof -
  obtain r m where o: "open_connection (instant ce (fl_metrics st)) (ck_client k) (ck_server k) False (fl_metrics st) = (r, m)"
    by (cases "open_connection (instant ce (fl_metrics st)) (ck_client k) (ck_server k) False (fl_metrics st)")
  have new: "\<forall>q c. table_view (fl_map st) k = Some (q, c) \<longrightarrow> c"
    using assms(3) by (auto simp: should_open_def table_view_def split: option.splits)
  have t: "registry.tracks ((table_view (fl_map st))(k \<mapsto> (r, False))) m"
    by (rule registry.tracks_open [where a = "(instant ce (fl_metrics st), ck_client k, ck_server k, False)" and s = "fl_metrics st"])
      (use assms(1,2) o new in \<open>simp_all add: flow_inv_def\<close>)
  have m: "length (heap m) = Suc (length (heap (fl_metrics st)))"
    using o by (auto simp: open_connection_def Let_def)
  show ?thesis
    using t m by (simp add: flow_inv_def open_flow_def Let_def o table_view_update connection_new_def update_conv' split_beta)
qed

lemma table_handle_inv:
  assumes dec: "frontend_ok (fdec ce)" "backend_ok (bdec ce)" and inv: "flow_inv st" and room: "room (fl_metrics st)"
  shows "\<exists>st'. table_handle ce seg pg_port st = Some st' \<and> flow_inv st'
    \<and> length (heap (fl_metrics st')) \<le> Suc (length (heap (fl_metrics st)))"
proof (cases "classify seg pg_port")
  case None
  then show ?thesis using inv by (simp add: table_handle_def)
next
  case (Some k)
  define st1 where "st1 = (if should_open (fl_map st) k seg then open_flow ce k pg_port st else st)"
  have st1: "flow_inv st1" "length (heap (fl_metrics st1)) \<le> Suc (length (heap (fl_metrics st)))"
    using open_flow_inv [OF inv room, of k seg] inv by (auto simp: st1_def)
  have "map_of (fl_map st1) k \<noteq> None"
    using open_flow_inv [OF inv room, of k seg ce pg_port] by (auto simp: st1_def should_open_def split: option.splits)
  then obtain conn where conn: "map_of (fl_map st1) k = Some conn" by auto
  obtain conn' i' ns where h: "connection_handle ce seg pg_port conn (fl_metrics st1) (fl_io st1)
      = Some (conn', fold (\<lambda>n. note_connection n (cn_stats conn)) ns (fl_metrics st1), i')"
    "cn_stats conn' = cn_stats conn" "metrics_closed conn' = metrics_closed conn"
    using connection_handle_total [OF dec, of seg pg_port conn "fl_metrics st1" "fl_io st1"] by blast
  let ?m = "fold (\<lambda>n. note_connection n (cn_stats conn)) ns (fl_metrics st1)"
  have view: "table_view (fl_map st1) k = Some (cn_stats conn, metrics_closed conn)"
    by (rule table_view_Some [OF conn])
  have t: "registry.tracks (table_view (fl_map st1)) ?m"
    by (rule tracks_notes [OF st1(1) [unfolded flow_inv_def] view])
  have closed: "registry.tracks ((table_view (fl_map st1))(k := new)) (close_connection now (cn_stats conn) ?m)"
    if "new = None \<or> new = Some (cn_stats conn, True)" for new now
    by (rule registry.tracks_close [OF t view that])
  have same: "(table_view (fl_map st1))(k \<mapsto> (cn_stats conn, metrics_closed conn)) = table_view (fl_map st1)"
    using view by auto
  show ?thesis
    using Some h t closed st1(2)
    by (simp add: table_handle_def st1_def [symmetric] conn flow_inv_def table_view_update table_view_delete
        notes_heap close_connection_heap same)
qed

lemma capture_run_inv:
  assumes "frontend_ok (fdec ce)" "backend_ok (bdec ce)"
  shows "flow_inv st \<Longrightarrow> Suc (length segs + length (heap (fl_metrics st))) < ID_SPACE \<Longrightarrow>
    \<exists>st'. capture_run ce pg_port segs st = Some st' \<and> flow_inv st'"
proof (induction segs arbitrary: st)
  case (Cons seg segs)
  obtain st1 where st1: "table_handle ce seg pg_port st = Some st1" "flow_inv st1"
      "length (heap (fl_metrics st1)) \<le> Suc (length (heap (fl_metrics st)))"
    using table_handle_inv [OF assms Cons.prems(1), of seg pg_port] Cons.prems(2) by (auto simp: room_def)
  then show ?case using Cons.IH [of st1] Cons.prems by auto
qed simp

lemma new_table_inv: "flow_inv (conn_table_with_metrics (with_limits cap hist) i)"
  unfolding flow_inv_def conn_table_with_metrics_def flow_state.simps table_view_def map_of.simps option.map
  by (rule registry.tracks_empty [OF with_limits_inv]) (simp add: open_refs_def with_limits_def)

subsection \<open>Encrypted connections\<close>

lemma close_connection_totals: "m_totals (close_connection t r m) = m_totals m"
  by (simp add: close_connection_def Let_def split: connection_lifecycle.splits prod.splits)

lemma routes_line: "\<exists>l. routes [Line l] i (out_ts e tx i)"
  unfolding out_ts_def ts_now_def now_def out_def Let_def by (auto simp: split_beta intro!: exI routes_now)

text \<open>One more segment of an encrypted connection, neither a SYN nor a reset: at most the mark of its closing changes.\<close>

lemma encrypted_step:
  assumes "map_of (fl_map st) k = Some c" "cn_encrypted c" "classify seg pg_port = Some k" "\<not> seg_syn seg" "\<not> seg_rst seg"
  shows "\<exists>st' ls b. table_handle ce seg pg_port st = Some st' \<and> routes (map Line ls) (fl_io st) (fl_io st')
    \<and> m_totals (fl_metrics st') = m_totals (fl_metrics st) \<and> map_of (fl_map st') k = Some (c\<lparr> metrics_closed := b \<rparr>)"
proof -
  have "\<not> should_open (fl_map st) k seg" using assms by (simp add: should_open_def)
  moreover have "connection_handle ce seg pg_port c m i = Some (c, m, i)" for m i
    using assms(2) by (simp add: connection_handle_def)
  ultimately have eq: "table_handle ce seg pg_port st =
      (if seg_fin seg \<and> \<not> metrics_closed c
       then Some \<lparr> fl_map = AList.update k (c\<lparr> metrics_closed := True \<rparr>) (fl_map st),
             fl_metrics = close_connection (instant ce (fl_metrics st)) (cn_stats c) (fl_metrics st),
             fl_io = out_ts (cenv ce) (lit ''=== connection closed (FIN) ==='') (fl_io st) \<rparr>
       else Some \<lparr> fl_map = AList.update k c (fl_map st), fl_metrics = fl_metrics st, fl_io = fl_io st \<rparr>)"
    using assms by (simp add: table_handle_def)
  show ?thesis
  proof (cases "seg_fin seg \<and> \<not> metrics_closed c")
    case True
    obtain l where "routes [Line l] (fl_io st) (out_ts (cenv ce) (lit ''=== connection closed (FIN) ==='') (fl_io st))"
      using routes_line by blast
    then show ?thesis
      unfolding eq using True
      by (simp add: close_connection_totals update_conv')
        (intro conjI exI [of _ "[l]"] exI [of _ True], simp_all)
  next
    case False
    have "c\<lparr> metrics_closed := metrics_closed c \<rparr> = c" by simp
    then show ?thesis
      unfolding eq using False
      by (auto simp: update_conv' routes_refl intro!: exI [of _ "[]"] exI [of _ "metrics_closed c"])
  qed
qed

lemma feed_in_order:
  "next_seq d = Some n \<Longrightarrow> ooo d = [] \<Longrightarrow> data \<noteq> [] \<Longrightarrow>
     feed n False data d = d\<lparr> rxbuf := rxbuf d @ data, next_seq := Some (n + of_nat (length data)) \<rparr>"
  by (simp add: feed_next append_chunk_def drain_ooo.simps)

text \<open>A data segment of a live connection, and the two halves of a negotiation.\<close>

lemma table_handle_data:
  assumes "map_of (fl_map st) k = Some c" "classify seg pg_port = Some k" "\<not> seg_syn seg" "\<not> seg_fin seg" "\<not> seg_rst seg"
    and "connection_handle ce seg pg_port c (fl_metrics st) (fl_io st) = Some (c', m, i)"
  shows "table_handle ce seg pg_port st = Some \<lparr> fl_map = AList.update k c' (fl_map st), fl_metrics = m, fl_io = i \<rparr>"
  using assms by (simp add: table_handle_def should_open_def)

lemma rxbuf_emptied: "rxbuf d = [] \<Longrightarrow> d\<lparr> rxbuf := [] \<rparr> = d"
  by (cases d) simp

lemma ssl_request_handled:
  assumes "\<not> cn_encrypted c" "role (cn_client c) = Client" "rxbuf (cn_client c) = []" "ooo (cn_client c) = []" "next_seq (cn_client c) = Some (seg_seq seg)"
    and "seg_dst_port seg = pg_port" "seg_payload seg \<noteq> []" "\<not> seg_syn seg"
    and "fdec ce (ctx (cn_client c)) (seg_payload seg) = (Decoded (SslNegotiation PostgresSsl), [])"
  shows "\<exists>i'. connection_handle ce seg pg_port c m i = Some (c\<lparr>
      cn_client := (cn_client c)\<lparr> next_seq := Some (seg_seq seg + of_nat (length (seg_payload seg))), ctx := (ctx (cn_client c))\<lparr> awaiting_frontend_ssl := False \<rparr> \<rparr>,
      cn_server := (cn_server c)\<lparr> ctx := (ctx (cn_server c))\<lparr> awaiting_backend_ssl_response := True \<rparr> \<rparr> \<rparr>,
    record_messages (cn_stats c) In 1 (of_nat (length (seg_payload seg))) m, i')"
proof -
  have "feed (seg_seq seg) False (seg_payload seg) (cn_client c)
      = (cn_client c)\<lparr> rxbuf := seg_payload seg, next_seq := Some (seg_seq seg + of_nat (length (seg_payload seg))) \<rparr>"
    using feed_in_order [OF assms(5,4,7)] assms(3) by simp
  moreover have "(cn_client c)\<lparr> rxbuf := [] \<rparr> = cn_client c" using assms(3) by (rule rxbuf_emptied)
  ultimately show ?thesis
    using assms
    by (simp add: connection_handle_def Let_def drain_direction_def drain_loop.simps default_outcome_def
        handle_frontend_def count_message_def arm_server_def)
qed

lemma ssl_reply_handled:
  assumes "\<not> cn_encrypted c" "role (cn_server c) = Server" "rxbuf (cn_server c) = []" "ooo (cn_server c) = []" "next_seq (cn_server c) = Some (seg_seq seg)"
    and "seg_dst_port seg \<noteq> pg_port" "seg_payload seg = [reply]" "\<not> seg_syn seg"
    and "bdec ce (ctx (cn_server c)) [reply] = (Decoded (SslResponse s), [])"
    and "bdec ce ((ctx (cn_server c))\<lparr> awaiting_backend_ssl_response := False \<rparr>) [] = (NeedMore, [])"
  shows "\<exists>i'. connection_handle ce seg pg_port c m i = Some (c\<lparr> cn_server := (cn_server c)\<lparr> next_seq := Some (seg_seq seg + 1),
        ctx := (ctx (cn_server c))\<lparr> awaiting_backend_ssl_response := False \<rparr> \<rparr>, cn_encrypted := s = Accept \<rparr>,
    record_messages (cn_stats c) Out 1 1 (if s = Accept then set_encrypted (cn_stats c) True m else m), i')"
proof -
  define d where "d = (cn_server c)\<lparr> rxbuf := [reply], next_seq := Some (seg_seq seg + 1) \<rparr>"
  define dr where "dr = (cn_server c)\<lparr> next_seq := Some (seg_seq seg + 1), ctx := (ctx (cn_server c))\<lparr> awaiting_backend_ssl_response := False \<rparr> \<rparr>"
  have fed: "feed (seg_seq seg) False [reply] (cn_server c) = d"
    using feed_in_order [OF assms(5,4), of "[reply]"] assms(3) by (simp add: d_def)
  have empty: "d\<lparr> rxbuf := [], ctx := (ctx d)\<lparr> awaiting_backend_ssl_response := False \<rparr> \<rparr> = dr" "dr\<lparr> rxbuf := [] \<rparr> = dr"
    using assms(3) by (simp_all add: d_def dr_def)
  obtain r2 i2 where neg: "negotiated (cenv ce) (d\<lparr> rxbuf := [] \<rparr>) (count_message 1 default_outcome) (lit ''SslResponse'') (lit ''SSL'') s i = (r2, i2)"
    by fastforce
  have r2: "encrypted r2 \<longleftrightarrow> s = Accept" "msgs r2 = 1" "bytes r2 = 1"
    using neg by (cases s; auto simp: negotiated_def count_message_def default_outcome_def)+
  have "handle_backend (cenv ce) (d\<lparr> rxbuf := [] \<rparr>) (SslResponse s) default_outcome 1 i = Some (dr, r2, i2)"
    using neg empty(1) by (simp add: handle_backend_def)
  moreover have "bdec ce (ctx d) (rxbuf d) = (Decoded (SslResponse s), [])" "bdec ce (ctx dr) (rxbuf dr) = (NeedMore, [])"
    "role d = Server" "\<not> encrypted default_outcome" "length (rxbuf d) = 1"
    using assms(2,3,9,10) by (simp_all add: d_def dr_def default_outcome_def)
  ultimately have "drain_direction (fdec ce) (bdec ce) (cenv ce) d default_outcome i = Some (dr, r2, i2)"
    using empty(2) by (simp add: drain_direction_def drain_loop.simps [of "bdec ce" _ Server d] drain_loop.simps [of "bdec ce" _ Server dr])
  then show ?thesis
    using assms(1,6-8) fed r2 by (simp add: connection_handle_def Let_def dr_def)
qed

subsection \<open>Properties\<close>

text \<open>C6. The table is a faithful view of the registry: whatever segments are captured, handling them returns, no two entries
  share a registry record, an entry is marked closed exactly when its record is, and the number of
  live connections shown to the user is the number of entries not yet closed.\<close>

theorem capture_run_refines_registry:
  assumes "frontend_ok (fdec ce)" "backend_ok (bdec ce)" "Suc (length segs) < ID_SPACE"
  shows "\<exists>st'. capture_run ce pg_port segs (conn_table_with_metrics (with_limits cap hist) i) = Some st'
    \<and> (\<forall>k c. map_of (fl_map st') k = Some c \<longrightarrow>
          cn_stats c < length (heap (fl_metrics st'))
          \<and> (metrics_closed c \<longleftrightarrow> \<not> is_open (heap (fl_metrics st') ! cn_stats c)))
    \<and> (\<forall>k k' c c'. map_of (fl_map st') k = Some c \<longrightarrow> map_of (fl_map st') k' = Some c' \<longrightarrow>
          cn_stats c = cn_stats c' \<longrightarrow> k = k')
    \<and> sum_conns_live (summary (fl_metrics st')) = of_nat (card {k. \<exists>c. map_of (fl_map st') k = Some c \<and> \<not> metrics_closed c})"
proof -
  obtain st' where run: "capture_run ce pg_port segs (conn_table_with_metrics (with_limits cap hist) i) = Some st'"
    and inv: "registry.tracks (table_view (fl_map st')) (fl_metrics st')"
    using capture_run_inv [OF assms(1,2) new_table_inv, of segs cap hist i] assms(3)
    by (auto simp: flow_inv_def conn_table_with_metrics_def with_limits_def)
  note d = registry.tracksD [OF inv]
  have entry: "cn_stats c < length (heap (fl_metrics st')) \<and> (metrics_closed c \<longleftrightarrow> \<not> is_open (heap (fl_metrics st') ! cn_stats c))"
    if k: "map_of (fl_map st') k = Some c" for k c
  proof -
    have "cn_stats c \<in> known_refs (fl_metrics st')" using d(2) table_view_Some [OF k] by blast
    moreover have "\<not> metrics_closed c \<longleftrightarrow> cn_stats c \<in> open_refs (fl_metrics st')"
      unfolding d(4) using table_view_Some [OF k] d(3) [OF table_view_Some [OF k]] by fastforce
    ultimately show ?thesis by (auto simp: known_refs_def open_refs_def)
  qed
  have "{k. \<exists>r. table_view (fl_map st') k = Some (r, False)} = {k. \<exists>c. map_of (fl_map st') k = Some c \<and> \<not> metrics_closed c}"
    by (auto simp: table_view_def)
  then have "sum_conns_live (summary (fl_metrics st')) = of_nat (card {k. \<exists>c. map_of (fl_map st') k = Some c \<and> \<not> metrics_closed c})"
    using d(1) registry.tracks_count [OF inv] by (simp add: summary_def metrics_inv_def)
  moreover have "k = k'" if "map_of (fl_map st') k = Some c" "map_of (fl_map st') k' = Some c'" "cn_stats c = cn_stats c'" for k k' c c'
    using d(3) [OF table_view_Some [OF that(1)]] table_view_Some [OF that(2)] that(3) by auto
  ultimately show ?thesis using run entry by blast
qed

text \<open>C11. Once a connection is encrypted, nothing of it is decoded again: whatever segments of it arrive, short of a SYN
  or a reset, both directions stay as they are, no message is counted and only lifecycle lines are written.\<close>

theorem encrypted_connection_is_opaque:
  assumes "map_of (fl_map st) k = Some c" "cn_encrypted c"
    and "\<forall>seg \<in> set segs. classify seg pg_port = Some k \<and> \<not> seg_syn seg \<and> \<not> seg_rst seg"
  shows "\<exists>st' ls b. capture_run ce pg_port segs st = Some st'
    \<and> map_of (fl_map st') k = Some (c\<lparr> metrics_closed := b \<rparr>)
    \<and> m_totals (fl_metrics st') = m_totals (fl_metrics st)
    \<and> routes (map Line ls) (fl_io st) (fl_io st')"
  using assms
proof (induction segs arbitrary: st c)
  case Nil
  then show ?case
    by (intro exI [of _ st] exI [of _ "[]"] exI [of _ "metrics_closed c"]) (simp add: routes_refl)
next
  case (Cons seg segs)
  obtain st1 ls b where st1: "table_handle ce seg pg_port st = Some st1" "routes (map Line ls) (fl_io st) (fl_io st1)"
    "m_totals (fl_metrics st1) = m_totals (fl_metrics st)" "map_of (fl_map st1) k = Some (c\<lparr> metrics_closed := b \<rparr>)"
    using encrypted_step [of st k c seg pg_port ce] Cons.prems by auto
  obtain st' ls' b' where st': "capture_run ce pg_port segs st1 = Some st'" "map_of (fl_map st') k = Some (c\<lparr> metrics_closed := b' \<rparr>)"
    "m_totals (fl_metrics st') = m_totals (fl_metrics st1)" "routes (map Line ls') (fl_io st1) (fl_io st')"
    using Cons.IH [OF st1(4)] Cons.prems by auto
  have "routes (map Line (ls @ ls')) (fl_io st) (fl_io st')"
    unfolding map_append by (rule routes_trans [OF st1(2) st'(4)])
  then show ?case
    using st1 st' by (intro exI [of _ st'] exI [of _ "ls @ ls'"] exI [of _ b']) simp
qed

text \<open>The sample capture: typed messages, and the negotiation of SSL before them.\<close>

definition ssl_request :: "u8 list" where "ssl_request = [0, 0, 0, 8, 4, 0xd2, 0x16, 0x2f]"

definition negotiating_frontend :: "('c, fmsg) decoder" where
  "negotiating_frontend c buf =
     (if \<not> awaiting_frontend_ssl c then typed_decoder sample_frontend c buf
      else if length buf < 8 then (NeedMore, buf)
      else if take 8 buf = ssl_request then (Decoded (SslNegotiation PostgresSsl), drop 8 buf)
      else (Decoded (SslNegotiation SslNone), buf))"

definition negotiating_backend :: "('c, bmsg) decoder" where
  "negotiating_backend c buf =
     (if \<not> awaiting_backend_ssl_response c then typed_decoder sample_backend c buf
      else case buf of [] \<Rightarrow> (NeedMore, []) | b # bs \<Rightarrow> (Decoded (SslResponse (if b = 83 then Accept else Refuse)), bs))"

lemma decoder_ok_switch:
  assumes "decoder_ok pk armed dec" "\<And>c buf. \<not> w c \<Longrightarrow> dec' c buf = dec c buf"
    and "\<And>c buf. w c \<Longrightarrow> case dec' c buf of
       (NeedMore, buf') \<Rightarrow> buf' = buf
     | (Decoded m, buf') \<Rightarrow> if pk m then armed c \<and> buf' = buf else length buf' < length buf
     | (DecodeError _, buf') \<Rightarrow> True"
  shows "decoder_ok pk armed dec'"
  unfolding decoder_ok_def
proof (intro allI)
  fix c buf
  show "case dec' c buf of
       (NeedMore, buf') \<Rightarrow> buf' = buf
     | (Decoded m, buf') \<Rightarrow> if pk m then armed c \<and> buf' = buf else length buf' < length buf
     | (DecodeError _, buf') \<Rightarrow> True"
    using assms(3) [of c buf] assms(2) [of c buf] assms(1) [unfolded decoder_ok_def, THEN spec [of _ c], THEN spec [of _ buf]]
    by (cases "w c") simp_all
qed

lemma negotiating_frontend_ok: "frontend_ok negotiating_frontend"
  unfolding frontend_ok_def
  by (rule decoder_ok_switch [OF sample_frontend_ok [unfolded frontend_ok_def], where w = awaiting_frontend_ssl])
    (auto simp: negotiating_frontend_def ssl_peek_def)

lemma negotiating_backend_ok: "backend_ok negotiating_backend"
  unfolding backend_ok_def
  by (rule decoder_ok_switch [OF sample_backend_ok [unfolded backend_ok_def], where w = awaiting_backend_ssl_response])
    (simp_all add: negotiating_backend_def split: list.split)

definition sample_capture :: "unit capture_env" where
  "sample_capture = \<lparr> fdec = negotiating_frontend, bdec = negotiating_backend, cenv = sample_env,
     default_ctx = clear_ctx, instant = (\<lambda>m. length (heap m)) \<rparr>"

definition sample_key :: conn_key where
  "sample_key = \<lparr> ck_client = sample_client, ck_server = (IpV4 0x7F000001, 5432) \<rparr>"

definition from_client :: "u32 \<Rightarrow> u8 list \<Rightarrow> tcp_segment" where
  "from_client seq data = \<lparr> seg_src = IpV4 0x7F000001, seg_dst = IpV4 0x7F000001, seg_src_port = 50000, seg_dst_port = 5432,
     seg_seq = seq, seg_ack = 0, seg_syn = False, seg_fin = False, seg_rst = False, seg_payload = data \<rparr>"

definition from_server :: "u32 \<Rightarrow> u8 list \<Rightarrow> tcp_segment" where
  "from_server seq data = \<lparr> seg_src = IpV4 0x7F000001, seg_dst = IpV4 0x7F000001, seg_src_port = 5432, seg_dst_port = 50000,
     seg_seq = seq, seg_ack = 0, seg_syn = False, seg_fin = False, seg_rst = False, seg_payload = data \<rparr>"

definition sample_connection :: "unit connection" where
  "sample_connection = \<lparr> cn_client = after_syn clear_ctx Client sample_client 99, cn_server = after_syn clear_ctx Server sample_client 499,
     cn_encrypted = False, metrics_closed = False, cn_stats = 0 \<rparr>"

definition sample_table :: "unit flow_state" where
  "sample_table = \<lparr> fl_map = [(sample_key, sample_connection)],
     fl_metrics = snd (open_connection 0 sample_client (IpV4 0x7F000001, 5432) False new_metrics), fl_io = sample_io \<rparr>"

lemma classify_sample [simp]:
  "classify (from_client n d) 5432 = Some sample_key" "classify (from_server n d) 5432 = Some sample_key"
  by (simp_all add: classify_def from_client_def from_server_def sample_key_def sample_client_def)

lemma sample_segment [simp]:
  "\<not> seg_syn (from_client n d)" "\<not> seg_rst (from_client n d)" "\<not> seg_fin (from_client n d)"
  "\<not> seg_syn (from_server n d)" "\<not> seg_rst (from_server n d)" "\<not> seg_fin (from_server n d)"
  "seg_seq (from_client n d) = n" "seg_payload (from_client n d) = d" "seg_dst_port (from_client n d) = 5432"
  "seg_seq (from_server n d) = n" "seg_payload (from_server n d) = d" "seg_dst_port (from_server n d) = 50000"
  by (simp_all add: from_client_def from_server_def)

theorem capture_run_refines_registry_witness:
  "\<exists>st'. capture_run sample_capture 5432 [from_client 0 [1], from_server 0 [2]] (conn_table_with_metrics (with_limits 1 1) sample_io) = Some st'
    \<and> sum_conns_live (summary (fl_metrics st')) = of_nat (card {k. \<exists>c. map_of (fl_map st') k = Some c \<and> \<not> metrics_closed c})"
proof -
  have "frontend_ok (fdec sample_capture)" "backend_ok (bdec sample_capture)"
    by (simp_all add: sample_capture_def negotiating_frontend_ok negotiating_backend_ok)
  from capture_run_refines_registry [OF this, of "[from_client 0 [1], from_server 0 [2]]" 5432 1 1 sample_io]
  show ?thesis by (auto simp: ID_SPACE_def)
qed

theorem encrypted_connection_is_opaque_witness:
  "let st = sample_table\<lparr> fl_map := [(sample_key, sample_connection\<lparr> cn_encrypted := True \<rparr>)] \<rparr>
   in \<exists>st'. capture_run sample_capture 5432 [from_client 0 [22, 3, 1], (from_server 0 [23, 3, 3])\<lparr> seg_fin := True \<rparr>] st = Some st'
        \<and> m_totals (fl_metrics st') = m_totals (fl_metrics st)"
proof -
  let ?st = "sample_table\<lparr> fl_map := [(sample_key, sample_connection\<lparr> cn_encrypted := True \<rparr>)] \<rparr>"
  let ?segs = "[from_client 0 [22, 3, 1], (from_server 0 [23, 3, 3])\<lparr> seg_fin := True \<rparr>]"
  have "classify ((from_server 0 [23, 3, 3])\<lparr> seg_fin := True \<rparr>) 5432 = Some sample_key"
    by (simp add: classify_def from_server_def sample_key_def sample_client_def)
  then have "\<forall>seg \<in> set ?segs. classify seg 5432 = Some sample_key \<and> \<not> seg_syn seg \<and> \<not> seg_rst seg" by simp
  with encrypted_connection_is_opaque [where st = ?st and segs = ?segs and ce = sample_capture,
      of sample_key "sample_connection\<lparr> cn_encrypted := True \<rparr>" 5432]
  show ?thesis unfolding Let_def by auto
qed

text \<open>C27. The SSL handshake: the client's request, once decoded, makes the one-byte reply of the server be read as such;
  the connection is taken as encrypted exactly when the server accepts, and after either answer neither direction
  waits any more, with one message counted each way.\<close>

theorem ssl_handshake_decides:
  assumes conn: "map_of (fl_map st) k = Some c" "\<not> cn_encrypted c" "\<not> metrics_closed c"
    and dirs: "role (cn_client c) = Client" "rxbuf (cn_client c) = []" "ooo (cn_client c) = []" "next_seq (cn_client c) = Some a"
      "role (cn_server c) = Server" "rxbuf (cn_server c) = []" "ooo (cn_server c) = []" "next_seq (cn_server c) = Some b"
    and req: "classify req pg_port = Some k" "seg_dst_port req = pg_port" "seg_seq req = a" "seg_payload req \<noteq> []"
      "\<not> seg_syn req" "\<not> seg_fin req" "\<not> seg_rst req"
    and rep: "classify rep pg_port = Some k" "seg_dst_port rep \<noteq> pg_port" "seg_seq rep = b" "seg_payload rep = [reply]"
      "\<not> seg_syn rep" "\<not> seg_fin rep" "\<not> seg_rst rep"
    and fdec: "fdec ce (ctx (cn_client c)) (seg_payload req) = (Decoded (SslNegotiation PostgresSsl), [])"
    and bdec: "bdec ce ((ctx (cn_server c))\<lparr> awaiting_backend_ssl_response := True \<rparr>) [reply] = (Decoded (SslResponse s), [])"
      "bdec ce ((ctx (cn_server c))\<lparr> awaiting_backend_ssl_response := False \<rparr>) [] = (NeedMore, [])"
  shows "\<exists>st' c'. capture_run ce pg_port [req, rep] st = Some st' \<and> map_of (fl_map st') k = Some c'
    \<and> (cn_encrypted c' \<longleftrightarrow> s = Accept)
    \<and> \<not> awaiting_frontend_ssl (ctx (cn_client c')) \<and> \<not> awaiting_backend_ssl_response (ctx (cn_server c'))
    \<and> m_totals (fl_metrics st') = m_totals (fl_metrics st) + Traffic 1 1 (of_nat (length (seg_payload req))) 1"
proof -
  let ?n = "of_nat (length (seg_payload req))"
  let ?c1 = "c\<lparr> cn_client := (cn_client c)\<lparr> next_seq := Some (a + ?n), ctx := (ctx (cn_client c))\<lparr> awaiting_frontend_ssl := False \<rparr> \<rparr>,
    cn_server := (cn_server c)\<lparr> ctx := (ctx (cn_server c))\<lparr> awaiting_backend_ssl_response := True \<rparr> \<rparr> \<rparr>"
  let ?c2 = "?c1\<lparr> cn_server := (cn_server c)\<lparr> next_seq := Some (b + 1), ctx := (ctx (cn_server c))\<lparr> awaiting_backend_ssl_response := False \<rparr> \<rparr>,
    cn_encrypted := s = Accept \<rparr>"
  let ?m1 = "record_messages (cn_stats c) In 1 ?n (fl_metrics st)"
  let ?m2 = "record_messages (cn_stats c) Out 1 1 (if s = Accept then set_encrypted (cn_stats c) True ?m1 else ?m1)"
  obtain i1 where h1: "connection_handle ce req pg_port c (fl_metrics st) (fl_io st) = Some (?c1, ?m1, i1)"
    using ssl_request_handled [of c req pg_port ce "fl_metrics st" "fl_io st"] conn(2) dirs req fdec by auto
  let ?st1 = "\<lparr> fl_map = AList.update k ?c1 (fl_map st), fl_metrics = ?m1, fl_io = i1 \<rparr>"
  have st1: "table_handle ce req pg_port st = Some ?st1"
    by (rule table_handle_data [OF conn(1) req(1,5,6,7) h1])
  obtain i2 where h2: "connection_handle ce rep pg_port ?c1 ?m1 i1 = Some (?c2, ?m2, i2)"
    using ssl_reply_handled [of ?c1 rep pg_port reply ce s ?m1 i1] conn(2) dirs rep bdec by auto
  let ?st2 = "\<lparr> fl_map = AList.update k ?c2 (fl_map ?st1), fl_metrics = ?m2, fl_io = i2 \<rparr>"
  have st2: "table_handle ce rep pg_port ?st1 = Some ?st2"
    by (rule table_handle_data [OF _ rep(1,5,6,7)]) (use h2 in \<open>simp_all add: update_conv'\<close>)
  have "m_totals ?m2 = m_totals (fl_metrics st) + Traffic 1 1 ?n 1"
    by (simp add: record_messages_def set_encrypted_def plus_traffic_def)
  then show ?thesis
    using st1 st2 by (intro exI [of _ ?st2] exI [of _ ?c2]) (simp add: update_conv')
qed

theorem ssl_handshake_decides_witness:
  "\<exists>st' c'. capture_run sample_capture 5432 [from_client 100 ssl_request, from_server 500 [83]] sample_table = Some st'
    \<and> map_of (fl_map st') sample_key = Some c' \<and> cn_encrypted c'"
proof -
  have "\<exists>st' c'. capture_run sample_capture 5432 [from_client 100 ssl_request, from_server 500 [83]] sample_table = Some st'
    \<and> map_of (fl_map st') sample_key = Some c' \<and> (cn_encrypted c' \<longleftrightarrow> Accept = Accept)
    \<and> \<not> awaiting_frontend_ssl (ctx (cn_client c')) \<and> \<not> awaiting_backend_ssl_response (ctx (cn_server c'))
    \<and> m_totals (fl_metrics st') = m_totals (fl_metrics sample_table)
        + Traffic 1 1 (of_nat (length (seg_payload (from_client 100 ssl_request)))) 1"
    by (rule ssl_handshake_decides [where c = sample_connection and a = 100 and b = 500 and reply = 83])
      (simp_all add: sample_table_def sample_connection_def sample_capture_def ssl_request_def after_syn_def feed_def
        direction_new_def negotiating_frontend_def negotiating_backend_def clear_ctx_def typed_decoder_def)
  then show ?thesis by blast
qed

lemma note_connection_counts:
  "conns_opened (note_connection n r m) = conns_opened m" "conns_live (note_connection n r m) = conns_live m"
proof (atomize (full), cases n)
  case (Traffic_Note d a b)
  then show "conns_opened (note_connection n r m) = conns_opened m \<and> conns_live (note_connection n r m) = conns_live m"
    by (cases d) (simp_all add: record_messages_def)
qed (simp add: set_encrypted_def)

lemma notes_counts:
  "conns_opened (fold (\<lambda>n. note_connection n r) ns m) = conns_opened m"
  "conns_live (fold (\<lambda>n. note_connection n r) ns m) = conns_live m"
  by (induction ns arbitrary: m) (simp_all add: note_connection_counts)

lemma close_connection_opened: "conns_opened (close_connection t r m) = conns_opened m"
  by (simp add: close_connection_def Let_def split: connection_lifecycle.splits prod.splits)

text \<open>C28. After the first FIN the entry stays and absorbs the rest of the close: further segments of the connection open
  nothing, close nothing and leave both connection counts alone, until a SYN on the same endpoints starts a new connection
  with fresh streams and a registry record of its own.\<close>

theorem closed_entry_absorbs_until_syn:
  assumes "frontend_ok (fdec ce)" "backend_ok (bdec ce)"
    and "map_of (fl_map st) k = Some c" "metrics_closed c" "classify seg pg_port = Some k" "\<not> seg_rst seg"
  shows "\<exists>st' c'. table_handle ce seg pg_port st = Some st' \<and> map_of (fl_map st') k = Some c'
    \<and> (if seg_syn seg
       then cn_stats c' = length (heap (fl_metrics st)) \<and> conns_opened (fl_metrics st') = conns_opened (fl_metrics st) + 1
         \<and> metrics_closed c' = seg_fin seg
       else cn_stats c' = cn_stats c \<and> metrics_closed c'
         \<and> conns_opened (fl_metrics st') = conns_opened (fl_metrics st) \<and> conns_live (fl_metrics st') = conns_live (fl_metrics st))"
proof (cases "seg_syn seg")
  case False
  obtain c' i' ns where h: "connection_handle ce seg pg_port c (fl_metrics st) (fl_io st)
      = Some (c', fold (\<lambda>n. note_connection n (cn_stats c)) ns (fl_metrics st), i')"
    "cn_stats c' = cn_stats c" "metrics_closed c' = metrics_closed c"
    using connection_handle_total [OF assms(1,2), of seg pg_port c "fl_metrics st" "fl_io st"] by blast
  then show ?thesis
    using assms(3-6) False by (simp add: table_handle_def should_open_def update_conv' notes_counts)
next
  case True
  let ?o = "open_flow ce k pg_port st"
  have o: "conns_opened (fl_metrics ?o) = conns_opened (fl_metrics st) + 1"
    "\<exists>c1. map_of (fl_map ?o) k = Some c1 \<and> cn_stats c1 = length (heap (fl_metrics st)) \<and> \<not> metrics_closed c1"
    by (simp_all add: open_flow_def Let_def open_connection_def connection_new_def update_conv')
  then obtain c1 where c1: "map_of (fl_map ?o) k = Some c1" "cn_stats c1 = length (heap (fl_metrics st))" "\<not> metrics_closed c1"
    by blast
  obtain c' i' ns where h: "connection_handle ce seg pg_port c1 (fl_metrics ?o) (fl_io ?o)
      = Some (c', fold (\<lambda>n. note_connection n (cn_stats c1)) ns (fl_metrics ?o), i')"
    "cn_stats c' = cn_stats c1" "metrics_closed c' = metrics_closed c1"
    using connection_handle_total [OF assms(1,2), of seg pg_port c1 "fl_metrics ?o" "fl_io ?o"] by blast
  then show ?thesis
    using assms(3-6) True o(1) c1
    by (cases "seg_fin seg") (simp_all add: table_handle_def should_open_def Let_def update_conv' notes_counts close_connection_opened)
qed

theorem closed_entry_absorbs_until_syn_witness:
  "\<exists>st' c'. table_handle sample_capture (from_client 100 []) 5432
      (sample_table\<lparr> fl_map := [(sample_key, sample_connection\<lparr> metrics_closed := True \<rparr>)] \<rparr>) = Some st'
    \<and> map_of (fl_map st') sample_key = Some c' \<and> metrics_closed c' \<and> conns_opened (fl_metrics st') = 1"
proof -
  let ?st = "sample_table\<lparr> fl_map := [(sample_key, sample_connection\<lparr> metrics_closed := True \<rparr>)] \<rparr>"
  have "frontend_ok (fdec sample_capture)" "backend_ok (bdec sample_capture)"
    by (simp_all add: sample_capture_def negotiating_frontend_ok negotiating_backend_ok)
  moreover have "conns_opened (fl_metrics ?st) = 1"
    by (simp add: sample_table_def open_connection_def new_metrics_def with_limits_def)
  ultimately show ?thesis
    using closed_entry_absorbs_until_syn [of sample_capture ?st sample_key "sample_connection\<lparr> metrics_closed := True \<rparr>" "from_client 100 []" 5432]
    by auto
qed

text \<open>A reset forgets the entry at once, so that the next segment of the same endpoints that is still on its way, even a
  bare acknowledgement, is taken for a new connection, announced, counted and left live.\<close>

theorem late_segment_after_reset_opens_connection:
  assumes "frontend_ok (fdec ce)" "backend_ok (bdec ce)"
    and "map_of (fl_map st) k = Some c" "\<not> metrics_closed c"
    and "classify rst pg_port = Some k" "seg_rst rst" "\<not> seg_syn rst"
    and "classify late pg_port = Some k" "\<not> seg_syn late" "\<not> seg_rst late" "\<not> seg_fin late"
  shows "\<exists>st' c'. capture_run ce pg_port [rst, late] st = Some st' \<and> map_of (fl_map st') k = Some c' \<and> \<not> metrics_closed c'
    \<and> cn_stats c' = length (heap (fl_metrics st)) \<and> conns_opened (fl_metrics st') = conns_opened (fl_metrics st) + 1"
proof -
  obtain c1 i1 ns where h: "connection_handle ce rst pg_port c (fl_metrics st) (fl_io st)
      = Some (c1, fold (\<lambda>n. note_connection n (cn_stats c)) ns (fl_metrics st), i1)" "cn_stats c1 = cn_stats c"
    using connection_handle_total [OF assms(1,2), of rst pg_port c "fl_metrics st" "fl_io st"] by blast
  let ?m1 = "fold (\<lambda>n. note_connection n (cn_stats c)) ns (fl_metrics st)"
  define st1 where "st1 = \<lparr> fl_map = AList.delete k (fl_map st), fl_metrics = close_connection (instant ce ?m1) (cn_stats c) ?m1,
    fl_io = out_ts (cenv ce) (lit ''=== connection reset (RST) ==='') i1 \<rparr>"
  have st1: "table_handle ce rst pg_port st = Some st1"
    using assms h by (simp add: table_handle_def should_open_def st1_def)
  have m1: "length (heap (fl_metrics st1)) = length (heap (fl_metrics st))" "conns_opened (fl_metrics st1) = conns_opened (fl_metrics st)"
    by (simp_all add: st1_def close_connection_heap notes_heap close_connection_opened notes_counts)
  have gone: "map_of (fl_map st1) k = None" by (simp add: st1_def delete_conv')
  let ?o = "open_flow ce k pg_port st1"
  obtain c2 where c2: "map_of (fl_map ?o) k = Some c2" "cn_stats c2 = length (heap (fl_metrics st1))" "\<not> metrics_closed c2"
    "conns_opened (fl_metrics ?o) = conns_opened (fl_metrics st1) + 1"
    by (simp add: open_flow_def Let_def open_connection_def connection_new_def update_conv')
  obtain c3 i3 ns3 where "connection_handle ce late pg_port c2 (fl_metrics ?o) (fl_io ?o)
      = Some (c3, fold (\<lambda>n. note_connection n (cn_stats c2)) ns3 (fl_metrics ?o), i3)"
    "cn_stats c3 = cn_stats c2" "metrics_closed c3 = metrics_closed c2"
    using connection_handle_total [OF assms(1,2), of late pg_port c2 "fl_metrics ?o" "fl_io ?o"] by blast
  then have "\<exists>st' c'. table_handle ce late pg_port st1 = Some st' \<and> map_of (fl_map st') k = Some c' \<and> \<not> metrics_closed c'
      \<and> cn_stats c' = length (heap (fl_metrics st1)) \<and> conns_opened (fl_metrics st') = conns_opened (fl_metrics st1) + 1"
    using assms(8-11) gone c2 by (simp add: table_handle_def should_open_def Let_def update_conv' notes_counts)
  then show ?thesis using st1 m1 by auto
qed

theorem late_segment_after_reset_opens_connection_witness:
  "\<exists>st'. capture_run sample_capture 5432 [(from_server 500 [])\<lparr> seg_rst := True \<rparr>, from_client 100 []] sample_table = Some st'
    \<and> conns_opened (fl_metrics st') = 2"
proof -
  have "frontend_ok (fdec sample_capture)" "backend_ok (bdec sample_capture)"
    by (simp_all add: sample_capture_def negotiating_frontend_ok negotiating_backend_ok)
  moreover have "classify ((from_server 500 [])\<lparr> seg_rst := True \<rparr>) 5432 = Some sample_key"
    by (simp add: classify_def from_server_def sample_key_def sample_client_def)
  moreover have "conns_opened (fl_metrics sample_table) = 1" "map_of (fl_map sample_table) sample_key = Some sample_connection"
    "\<not> metrics_closed sample_connection"
    by (simp_all add: sample_table_def sample_connection_def open_connection_def new_metrics_def with_limits_def)
  ultimately show ?thesis
    using late_segment_after_reset_opens_connection [of sample_capture sample_table sample_key sample_connection
        "(from_server 500 [])\<lparr> seg_rst := True \<rparr>" 5432 "from_client 100 []"]
    by auto
qed

end
