(* ===== verification/Tui_App.thy ===== *)
theory Tui_App
  imports Session Flow
begin

text \<open>
  The state of the interactive view and its operations (\<open>src/tui.rs\<close>, \<open>App\<close>, \<open>app_loop\<close> and \<open>handle_key\<close>):
  the retained history, the indices that match the display filter, scrolling, the editors, recording and opening of
  session files.

  The environment \<open>tui_env\<close> holds the parameters: the regex crate (\<open>build\<close>, \<open>is_match\<close>), the storage library and the clock of
  the recorder (its \<open>n\<close>-th reading). The channel from the source is the list of records sent and not yet received; the world is
  the file system with the number of readings of the clock. A step of the loop takes what the terminal gives: its
  height and the keys pressed.
\<close>

subsection \<open>State\<close>

definition HISTORY_CAP :: nat where "HISTORY_CAP = 50000"
definition HISTORY_TRIM_CHUNK :: nat where "HISTORY_TRIM_CHUNK = 1024"

record ('re, 'v) tui_env =
  build :: "rstring \<Rightarrow> rstring + 're"
  is_match :: "'re \<Rightarrow> rstring \<Rightarrow> bool"
  storage :: "'v serde"
  stamp :: "nat \<Rightarrow> rstring"

record world =
  w_disk :: disk
  w_readings :: nat

record 're app =
  rx :: "output_record list"
  events :: "output_record list"
  visible :: "nat list"
  scroll :: nat
  follow :: bool
  wrap :: bool
  rich :: bool
  mode :: rstring
  app_metrics :: metrics
  peak_msgs_in :: u64
  peak_msgs_out :: u64
  display :: "'re display_filter"
  filter_text :: rstring
  filter_notice :: "rstring option"
  filter_editing :: bool
  command_editing :: bool
  command_text :: rstring
  command_notice :: "(rstring \<times> bool) option"
  accept_source_records :: bool
  dropped_events :: nat
  splash_lines :: "rstring list"
  show_splash :: bool
  recorder :: "session_writer option"

definition app_new :: "output_record list \<Rightarrow> rstring \<Rightarrow> metrics \<Rightarrow> bool \<Rightarrow> 're display_filter \<Rightarrow> rstring list \<Rightarrow> 're app" where
  "app_new chan md m is_rich f splash =
     \<lparr> rx = chan, events = [], visible = [], scroll = 0, follow = True, wrap = False, rich = is_rich, mode = md,
       app_metrics = m, peak_msgs_in = 0, peak_msgs_out = 0, display = f, filter_text = df_expression f,
       filter_notice = None, filter_editing = False, command_editing = False, command_text = [], command_notice = None,
       accept_source_records = True, dropped_events = 0, splash_lines = splash, show_splash = splash \<noteq> [],
       recorder = None \<rparr>"

subsection \<open>History\<close>

definition app_matches :: "('re, 'v) tui_env \<Rightarrow> 're app \<Rightarrow> output_record \<Rightarrow> bool" where
  "app_matches te a = output_matches (is_match te) (display a)"

definition matching :: "('re, 'v) tui_env \<Rightarrow> 're app \<Rightarrow> nat list" where
  "matching te a = filter (\<lambda>i. app_matches te a (events a ! i)) [0..<length (events a)]"

definition rebuild_visible :: "('re, 'v) tui_env \<Rightarrow> 're app \<Rightarrow> 're app" where
  "rebuild_visible te a = a\<lparr> visible := matching te a, scroll := 0 \<rparr>"

definition trim_history :: "('re, 'v) tui_env \<Rightarrow> 're app \<Rightarrow> 're app" where
  "trim_history te a =
     (if length (events a) \<le> HISTORY_CAP then a
      else let drop_n = length (events a) - HISTORY_CAP
           in rebuild_visible te (a\<lparr> events := drop drop_n (events a),
                dropped_events := saturating_add (dropped_events a) drop_n \<rparr>))"

text \<open>The recorder gets a record before the history does; its first failure ends the recording.\<close>

definition record_output :: "('re, 'v) tui_env \<Rightarrow> output_record \<Rightarrow> 're app \<times> world \<Rightarrow> 're app \<times> world" where
  "record_output te output = (\<lambda>(a, w).
     case recorder a of
       None \<Rightarrow> (a, w)
     | Some rec \<Rightarrow>
         (case session_write (storage te) (stamp te (w_readings w)) output rec (w_disk w) of
            (Inl err, fs) \<Rightarrow> (a\<lparr> recorder := None,
                command_notice := Some (lit ''recording stopped: '' @ show_session_error err, True) \<rparr>,
                \<lparr> w_disk = fs, w_readings = Suc (w_readings w) \<rparr>)
          | (Inr _, fs) \<Rightarrow> (a, \<lparr> w_disk = fs, w_readings = Suc (w_readings w) \<rparr>)))"

definition push_event :: "('re, 'v) tui_env \<Rightarrow> output_record \<Rightarrow> 're app \<Rightarrow> 're app" where
  "push_event te output a =
     (let index = length (events a);
          a = (if app_matches te a output then a\<lparr> visible := visible a @ [index] \<rparr> else a);
          a = a\<lparr> events := events a @ [output] \<rparr>
      in if HISTORY_CAP + HISTORY_TRIM_CHUNK \<le> length (events a) then trim_history te a else a)"

definition push_output :: "('re, 'v) tui_env \<Rightarrow> output_record \<Rightarrow> 're app \<times> world \<Rightarrow> 're app \<times> world" where
  "push_output te output aw = (let (a, w) = record_output te output aw in (push_event te output a, w))"

subsection \<open>The display filter\<close>

definition update_filter :: "('re, 'v) tui_env \<Rightarrow> 're app \<Rightarrow> 're app run" where
  "update_filter te a =
     (if trim (filter_text a) = [] then Some (rebuild_visible te (a\<lparr> display := default_filter, filter_notice := None \<rparr>))
      else map_option (\<lambda>r. case r of
             Inr f \<Rightarrow> rebuild_visible te (a\<lparr> display := f, filter_notice := None \<rparr>)
           | Inl err \<Rightarrow> a\<lparr> filter_notice := Some (show_filter_error err) \<rparr>)
           (filter_parse (build te) (filter_text a)))"

definition clear_filter :: "('re, 'v) tui_env \<Rightarrow> 're app \<Rightarrow> 're app" where
  "clear_filter te a = rebuild_visible te (a\<lparr> filter_text := [], display := default_filter, filter_notice := None \<rparr>)"

subsection \<open>Commands\<close>

text \<open>\<open>:save\<close>: the retained events are written to the new file, then the recorder takes it over.\<close>

definition start_recording ::
    "('re, 'v) tui_env \<Rightarrow> rstring \<Rightarrow> 're app \<times> world \<Rightarrow> (rstring + rstring) \<times> 're app \<times> world" where
  "start_recording te argument = (\<lambda>(a, w).
     if argument = [] then (Inl (lit ''usage: :save FILE''), a, w)
     else case session_create argument (w_disk w) of
       (Inl err, fs) \<Rightarrow> (Inl (show_session_error err), a, w\<lparr> w_disk := fs \<rparr>)
     | (Inr rec, fs) \<Rightarrow>
         (let n = length (events a); times = map (stamp te) [w_readings w..<w_readings w + n] in
          case write_outputs (storage te) (zip times (events a)) rec fs of
            (Inl err, fs) \<Rightarrow> (Inl (show_session_error err), a, \<lparr> w_disk = fs, w_readings = w_readings w + n \<rparr>)
          | (Inr _, fs) \<Rightarrow>
              (let w = \<lparr> w_disk = fs, w_readings = w_readings w + n \<rparr> in
               case session_flush rec fs of
                 Inl err \<Rightarrow> (Inl (show_session_error err), a, w)
               | Inr _ \<Rightarrow>
                   (let action = (if accept_source_records a
                        then lit ''recording '' @ show_nat n @ lit '' retained events + future traffic''
                        else lit ''saved '' @ show_nat n @ lit '' retained replay events'');
                        msg = action @ lit '' to '' @ argument @
                          (if dropped_events a = 0 then []
                           else lit ''; '' @ show_nat (dropped_events a) @ lit '' earlier events were outside history'')
                    in (Inr msg, a\<lparr> recorder := Some rec \<rparr>, w)))))"

text \<open>\<open>:open\<close>: nothing changes unless the whole file was read and the recorder flushed.\<close>

definition open_session ::
    "('re, 'v) tui_env \<Rightarrow> rstring \<Rightarrow> 're app \<times> world \<Rightarrow> (rstring + rstring) \<times> 're app \<times> world" where
  "open_session te argument = (\<lambda>(a, w).
     if argument = [] then (Inl (lit ''usage: :open FILE''), a, w)
     else case read_tail (storage te) (w_disk w) argument HISTORY_CAP of
       Inl err \<Rightarrow> (Inl (show_session_error err), a, w)
     | Inr (outputs, dropped) \<Rightarrow>
         (case (case recorder a of Some rec \<Rightarrow> session_flush rec (w_disk w) | None \<Rightarrow> Inr ()) of
            Inl err \<Rightarrow> (Inl (show_session_error err), a, w)
          | Inr _ \<Rightarrow>
              (let count = length outputs;
                   a = a\<lparr> recorder := None, events := outputs, visible := [] \<rparr>;
                   a = (rebuild_visible te a)\<lparr> follow := True, mode := lit ''replay'', app_metrics := new_metrics,
                         peak_msgs_in := 0, peak_msgs_out := 0, show_splash := False, accept_source_records := False,
                         dropped_events := dropped \<rparr>;
                   msg = (if dropped = 0 then lit ''opened '' @ show_nat count @ lit '' events from '' @ argument
                          else lit ''opened newest '' @ show_nat count @ lit '' events from '' @ argument @ lit ''; ''
                            @ show_nat dropped @ lit '' earlier events are outside history'')
               in (Inr msg, a, w))))"

text \<open>\<open>split_once(char::is_whitespace)\<close>.\<close>

definition split_command :: "rstring \<Rightarrow> rstring \<times> rstring" where
  "split_command s =
     (case dropWhile (\<lambda>c. \<not> is_ws c) s of
        [] \<Rightarrow> (s, [])
      | c # rest \<Rightarrow> (takeWhile (\<lambda>c. \<not> is_ws c) s, trim rest))"

definition command_input :: "rstring \<Rightarrow> rstring" where
  "command_input s = trim (dropWhile (\<lambda>c. c = 58 \<or> c = 47) (trim s))"

definition execute_command :: "('re, 'v) tui_env \<Rightarrow> 're app \<times> world \<Rightarrow> 're app \<times> world" where
  "execute_command te = (\<lambda>(a, w).
     let (nm, argument) = split_command (command_input (command_text a));
         (result, a, w) =
           (if nm = lit ''w'' \<or> nm = lit ''write'' \<or> nm = lit ''save'' then start_recording te argument (a, w)
            else if nm = lit ''o'' \<or> nm = lit ''open'' then open_session te argument (a, w)
            else if nm = [] then (Inl (lit ''command is empty''), a, w)
            else (Inl (lit ''unknown command: '' @ nm), a, w))
     in (a\<lparr> command_notice := Some (case result of Inr msg \<Rightarrow> (msg, False) | Inl msg \<Rightarrow> (msg, True)),
            command_editing := False \<rparr>, w))"

subsection \<open>Keys\<close>

datatype key_code = KeyChar rchar | KeyEsc | KeyEnter | KeyBackspace | KeyUp | KeyDown | KeyPageUp | KeyPageDown
  | KeyHome | KeyEnd | KeyOther

record key_event =
  code :: key_code
  ctrl :: bool

definition open_command_bar :: "'re app \<Rightarrow> 're app" where
  "open_command_bar a = a\<lparr> command_editing := True, command_text := [], command_notice := None \<rparr>"

fun command_key :: "('re, 'v) tui_env \<Rightarrow> key_event \<Rightarrow> 're app \<times> world \<Rightarrow> 're app \<times> world" where
  "command_key te k (a, w) =
     (case code k of
        KeyEsc \<Rightarrow> (a\<lparr> command_editing := False, command_text := [] \<rparr>, w)
      | KeyEnter \<Rightarrow> execute_command te (a, w)
      | KeyBackspace \<Rightarrow> (a\<lparr> command_text := butlast (command_text a) \<rparr>, w)
      | KeyChar ch \<Rightarrow> (if ctrl k then (a, w) else (a\<lparr> command_text := command_text a @ [ch] \<rparr>, w))
      | _ \<Rightarrow> (a, w))"

definition filter_key :: "('re, 'v) tui_env \<Rightarrow> key_event \<Rightarrow> 're app \<Rightarrow> 're app run" where
  "filter_key te k a =
     (case code k of
        KeyEsc \<Rightarrow> Some ((clear_filter te a)\<lparr> filter_editing := False \<rparr>)
      | KeyEnter \<Rightarrow> Some (if filter_notice a = None then a\<lparr> filter_editing := False \<rparr> else a)
      | KeyBackspace \<Rightarrow> update_filter te (a\<lparr> filter_text := butlast (filter_text a) \<rparr>)
      | KeyChar ch \<Rightarrow> (if ctrl k then Some a else update_filter te (a\<lparr> filter_text := filter_text a @ [ch] \<rparr>))
      | _ \<Rightarrow> Some a)"

definition scroll_by :: "(nat \<Rightarrow> nat) \<Rightarrow> 're app \<Rightarrow> 're app" where
  "scroll_by f a = a\<lparr> follow := False, scroll := f (scroll a) \<rparr>"

definition view_key :: "('re, 'v) tui_env \<Rightarrow> nat \<Rightarrow> key_event \<Rightarrow> 're app \<Rightarrow> bool \<times> 're app" where
  "view_key te log_h k a =
     (let c = code k in
      if c = KeyChar 113 then (True, a)
      else if c = KeyChar 106 \<or> c = KeyDown then (False, scroll_by (\<lambda>s. saturating_add s 1) a)
      else if c = KeyChar 107 \<or> c = KeyUp then (False, scroll_by (\<lambda>s. s - 1) a)
      else if c = KeyPageDown then (False, scroll_by (\<lambda>s. saturating_add s log_h) a)
      else if c = KeyPageUp then (False, scroll_by (\<lambda>s. s - log_h) a)
      else if c = KeyChar 71 \<or> c = KeyEnd then (False, a\<lparr> follow := True \<rparr>)
      else if c = KeyChar 103 \<or> c = KeyHome then (False, scroll_by (\<lambda>s. 0) a)
      else if c = KeyChar 102 then (False, a\<lparr> follow := \<not> follow a \<rparr>)
      else if c = KeyChar 119 then (False, a\<lparr> wrap := \<not> wrap a \<rparr>)
      else if c = KeyChar 114 then (False, a\<lparr> rich := \<not> rich a \<rparr>)
      else if c = KeyChar 99 then (False, a\<lparr> events := [], visible := [] \<rparr>)
      else if c = KeyChar 121 then (False, a\<lparr> filter_editing := True \<rparr>)
      else if c = KeyChar 47 \<or> c = KeyChar 58 then (False, open_command_bar a)
      else if c = KeyEsc \<and> \<not> filter_is_empty (display a) then (False, clear_filter te a)
      else (False, a))"

definition handle_key ::
    "('re, 'v) tui_env \<Rightarrow> nat \<Rightarrow> key_event \<Rightarrow> 're app \<times> world \<Rightarrow> (bool \<times> 're app \<times> world) run" where
  "handle_key te log_h k = (\<lambda>(a, w).
     if code k = KeyChar 99 \<and> ctrl k then Some (True, a, w)
     else if command_editing a then Some (False, command_key te k (a, w))
     else if show_splash a then
       (if code k = KeyChar 113 then Some (True, a, w)
        else if code k = KeyChar 47 \<or> code k = KeyChar 58 then Some (False, open_command_bar a, w)
        else Some (False, a, w))
     else if filter_editing a then map_option (\<lambda>a. (False, a, w)) (filter_key te k a)
     else Some (case view_key te log_h k a of (quit, a) \<Rightarrow> (quit, a, w)))"

subsection \<open>The loop\<close>

fun drain_channel :: "('re, 'v) tui_env \<Rightarrow> output_record list \<Rightarrow> 're app \<times> world \<Rightarrow> 're app \<times> world" where
  "drain_channel te [] aw = aw"
| "drain_channel te (r # rs) aw =
     drain_channel te rs (if accept_source_records (fst aw) then push_output te r aw else aw)"

definition leave_splash_if_traffic :: "'re app \<Rightarrow> 're app" where
  "leave_splash_if_traffic a =
     (if show_splash a \<and> 0 < sum_conns_opened (summary (app_metrics a)) then a\<lparr> show_splash := False \<rparr> else a)"

definition log_height :: "nat \<Rightarrow> nat" where "log_height term_h = max (term_h - 10) 1"

definition max_scroll :: "nat \<Rightarrow> 're app \<Rightarrow> nat" where
  "max_scroll log_h a = (if wrap a \<or> rich a then length (visible a) - 1 else length (visible a) - log_h)"

definition clamp_scroll :: "nat \<Rightarrow> 're app \<Rightarrow> 're app" where
  "clamp_scroll log_h a =
     (let a = (if follow a then a\<lparr> scroll := max_scroll log_h a \<rparr> else a)
      in a\<lparr> scroll := min (scroll a) (max_scroll log_h a) \<rparr>)"

definition track_peaks :: "'re app \<Rightarrow> 're app" where
  "track_peaks a =
     (let rs = sum_rates (summary (app_metrics a)) in
      a\<lparr> peak_msgs_in := fold max (map t_msgs_in rs) (peak_msgs_in a),
         peak_msgs_out := fold max (map t_msgs_out rs) (peak_msgs_out a) \<rparr>)"

text \<open>What precedes a drawing: the channel is drained, the history trimmed and the scroll position settled.\<close>

definition prepare_frame :: "('re, 'v) tui_env \<Rightarrow> nat \<Rightarrow> 're app \<times> world \<Rightarrow> 're app \<times> world" where
  "prepare_frame te term_h = (\<lambda>(a, w).
     let (a, w) = drain_channel te (rx a) (a\<lparr> rx := [] \<rparr>, w);
         a = trim_history te (leave_splash_if_traffic a)
     in (track_peaks (clamp_scroll (log_height term_h) a), w))"

fun handle_keys :: "('re, 'v) tui_env \<Rightarrow> nat \<Rightarrow> key_event list \<Rightarrow> 're app \<times> world \<Rightarrow> (bool \<times> 're app \<times> world) run" where
  "handle_keys te log_h [] aw = Some (False, aw)"
| "handle_keys te log_h (k # ks) aw = do {
     (quit, aw) \<leftarrow> handle_key te log_h k aw;
     if quit then Some (True, aw) else handle_keys te log_h ks aw }"

text \<open>The turn of the loop, which draws between the two, is \<open>loop_turn\<close> of \<open>Tui_View\<close>.\<close>

subsection \<open>What every operation keeps\<close>

text \<open>The visible indices are those of the events that match the filter, the history is bounded, and the filter line tells
  the truth: without a notice the filter in force is the text's, with one the text does not parse and the notice says why.\<close>

definition filter_synced :: "('re, 'v) tui_env \<Rightarrow> 're app \<Rightarrow> bool" where
  "filter_synced te a \<longleftrightarrow> (case filter_notice a of
       None \<Rightarrow> filter_parse (build te) (filter_text a) = Some (Inr (display a))
     | Some msg \<Rightarrow> (\<exists>err. filter_parse (build te) (filter_text a) = Some (Inl err) \<and> msg = show_filter_error err))"

definition app_ok :: "('re, 'v) tui_env \<Rightarrow> 're app \<Rightarrow> bool" where
  "app_ok te a \<longleftrightarrow> visible a = matching te a \<and> length (events a) < HISTORY_CAP + HISTORY_TRIM_CHUNK \<and> filter_synced te a"

lemma blank_parses: "trim t = [] \<Longrightarrow> filter_parse b t = Some (Inr default_filter)"
  by (simp add: filter_parse_def)

lemma filter_synced_cong:
  "filter_synced te a \<Longrightarrow> display b = display a \<Longrightarrow> filter_text b = filter_text a \<Longrightarrow> filter_notice b = filter_notice a
   \<Longrightarrow> filter_synced te b"
  by (cases "filter_notice a") (simp_all add: filter_synced_def)

lemma matching_cong: "events a = events b \<Longrightarrow> display a = display b \<Longrightarrow> matching te a = matching te b"
  by (simp add: matching_def app_matches_def)

lemma matching_rebuild: "matching te (rebuild_visible te a) = matching te a"
  by (rule matching_cong) (simp_all add: rebuild_visible_def)

lemma app_ok_cong:
  "app_ok te a \<Longrightarrow> events b = events a \<Longrightarrow> display b = display a \<Longrightarrow> visible b = visible a \<Longrightarrow> filter_text b = filter_text a
   \<Longrightarrow> filter_notice b = filter_notice a \<Longrightarrow> app_ok te b"
  using matching_cong [of a b] filter_synced_cong [of te a b] by (simp add: app_ok_def)

lemma matching_range: "\<forall>i \<in> set (matching te a). i < length (events a)"
  by (simp add: matching_def)

lemma rebuild_simps [simp]: "events (rebuild_visible te a) = events a" "display (rebuild_visible te a) = display a"
  "filter_text (rebuild_visible te a) = filter_text a" "filter_notice (rebuild_visible te a) = filter_notice a"
  by (simp_all add: rebuild_visible_def)

lemma rebuild_ok:
  assumes "length (events a) < HISTORY_CAP + HISTORY_TRIM_CHUNK" "filter_synced te a"
  shows "app_ok te (rebuild_visible te a)"
proof -
  have "filter_synced te (rebuild_visible te a)" by (rule filter_synced_cong [OF assms(2)]) simp_all
  moreover have "visible (rebuild_visible te a) = matching te a" by (simp add: rebuild_visible_def)
  ultimately show ?thesis using assms(1) by (simp add: app_ok_def matching_rebuild)
qed

lemma trim_bound: "length (events (trim_history te a)) \<le> HISTORY_CAP"
  by (simp add: trim_history_def Let_def)



lemma matching_snoc:
  assumes "events b = events a @ [r]" "display b = display a"
  shows "matching te b = matching te a @ (if app_matches te a r then [length (events a)] else [])"
proof -
  have "filter (\<lambda>i. app_matches te b ((events a @ [r]) ! i)) [0..<length (events a)] = matching te a"
    unfolding matching_def by (rule filter_cong) (simp_all add: nth_append app_matches_def assms)
  moreover have "app_matches te b r = app_matches te a r" by (simp add: app_matches_def assms)
  ultimately show ?thesis by (simp add: matching_def [of te b] assms)
qed

lemma trim_rebuilds:
  assumes "HISTORY_CAP < length (events b)" "filter_synced te b"
  shows "app_ok te (trim_history te b)"
proof -
  have "app_ok te (rebuild_visible te (b\<lparr> events := drop (length (events b) - HISTORY_CAP) (events b),
          dropped_events := saturating_add (dropped_events b) (length (events b) - HISTORY_CAP) \<rparr>))"
    using assms(1) by (intro rebuild_ok filter_synced_cong [OF assms(2)]) (simp_all add: HISTORY_TRIM_CHUNK_def)
  then show ?thesis using assms(1) by (simp add: trim_history_def Let_def)
qed

lemma push_event_ok:
  assumes "app_ok te a"
  shows "app_ok te (push_event te r a)"
proof -
  define b where "b = (if app_matches te a r then a\<lparr> visible := visible a @ [length (events a)] \<rparr> else a)\<lparr> events := events a @ [r] \<rparr>"
  have b: "push_event te r a = (if HISTORY_CAP + HISTORY_TRIM_CHUNK \<le> length (events b) then trim_history te b else b)"
    by (simp add: push_event_def b_def Let_def)
  have "matching te b = matching te a @ (if app_matches te a r then [length (events a)] else [])"
    by (rule matching_snoc) (simp_all add: b_def)
  then have v: "visible b = matching te b"
    using assms by (simp add: app_ok_def b_def)
  have sync: "filter_synced te b"
    by (rule filter_synced_cong [of te a]) (use assms in \<open>simp_all add: app_ok_def b_def\<close>)
  show ?thesis
  proof (cases "HISTORY_CAP + HISTORY_TRIM_CHUNK \<le> length (events b)")
    case True
    then have "HISTORY_CAP < length (events b)" by (simp add: HISTORY_TRIM_CHUNK_def)
    then show ?thesis using True sync by (simp add: b trim_rebuilds)
  next
    case False
    then show ?thesis using v sync by (simp add: b app_ok_def)
  qed
qed

lemma record_output_view:
  "events (fst (record_output te r aw)) = events (fst aw) \<and> display (fst (record_output te r aw)) = display (fst aw)
   \<and> visible (fst (record_output te r aw)) = visible (fst aw) \<and> filter_text (fst (record_output te r aw)) = filter_text (fst aw)
   \<and> filter_notice (fst (record_output te r aw)) = filter_notice (fst aw)"
  by (auto simp: record_output_def split_beta split: option.split sum.split prod.split)

lemma trim_ok: "app_ok te a \<Longrightarrow> app_ok te (trim_history te a)"
  using trim_rebuilds [of a te] by (cases "length (events a) \<le> HISTORY_CAP") (simp_all add: trim_history_def app_ok_def)

lemma push_output_ok: "app_ok te (fst aw) \<Longrightarrow> app_ok te (fst (push_output te r aw))"
  using record_output_view [of te r aw] app_ok_cong [of te "fst aw" "fst (record_output te r aw)"]
  by (simp add: push_output_def split_beta push_event_ok)

lemma drain_channel_ok: "app_ok te (fst aw) \<Longrightarrow> app_ok te (fst (drain_channel te rs aw))"
  by (induction rs arbitrary: aw) (simp_all add: push_output_ok)

lemma clear_filter_ok: "app_ok te a \<Longrightarrow> app_ok te (clear_filter te a)"
  unfolding clear_filter_def by (rule rebuild_ok) (simp_all add: app_ok_def filter_synced_def blank_parses trim_def)

text \<open>After an edit of the text the line tells the truth again; an invalid text leaves the filter in force.\<close>

lemma update_filter_cases:
  "(\<exists>f. filter_parse (build te) (filter_text a) = Some (Inr f)
      \<and> update_filter te a = Some (rebuild_visible te (a\<lparr> display := f, filter_notice := None \<rparr>)))
   \<or> (\<exists>err. filter_parse (build te) (filter_text a) = Some (Inl err)
      \<and> update_filter te a = Some (a\<lparr> filter_notice := Some (show_filter_error err) \<rparr>))"
proof -
  obtain r where r: "filter_parse (build te) (filter_text a) = Some r" using filter_parse_result by blast
  show ?thesis
  proof (cases "trim (filter_text a) = []")
    case True
    then show ?thesis by (simp add: update_filter_def blank_parses)
  next
    case False
    then show ?thesis using r by (cases r) (simp_all add: update_filter_def)
  qed
qed

lemma update_filter_ok:
  assumes "app_ok te a"
  shows "\<exists>a'. update_filter te (a\<lparr> filter_text := t \<rparr>) = Some a' \<and> app_ok te a'"
proof -
  let ?b = "a\<lparr> filter_text := t \<rparr>"
  have len: "length (events a) < HISTORY_CAP + HISTORY_TRIM_CHUNK" and vis: "visible a = matching te a"
    using assms by (simp_all add: app_ok_def)
  show ?thesis
    using update_filter_cases [of te ?b]
  proof (elim disjE exE conjE)
    fix f assume f: "filter_parse (build te) (filter_text ?b) = Some (Inr f)"
      and u: "update_filter te ?b = Some (rebuild_visible te (?b\<lparr> display := f, filter_notice := None \<rparr>))"
    have "app_ok te (rebuild_visible te (?b\<lparr> display := f, filter_notice := None \<rparr>))"
      by (rule rebuild_ok) (use len f in \<open>simp_all add: filter_synced_def\<close>)
    then show ?thesis using u by blast
  next
    fix err assume e: "filter_parse (build te) (filter_text ?b) = Some (Inl err)"
      and u: "update_filter te ?b = Some (?b\<lparr> filter_notice := Some (show_filter_error err) \<rparr>)"
    have "matching te (?b\<lparr> filter_notice := Some (show_filter_error err) \<rparr>) = matching te a"
      by (rule matching_cong) simp_all
    then have "app_ok te (?b\<lparr> filter_notice := Some (show_filter_error err) \<rparr>)"
      using len vis e by (simp add: app_ok_def filter_synced_def)
    then show ?thesis using u by blast
  qed
qed

lemma read_tail_length:
  assumes "read_tail sd fs path cap = Inr (outs, dropped)"
  shows "length outs \<le> cap"
  using assms session_tail.pushes_bounded [of "([], 0)" cap "fst (scan_file sd fs path)"]
  by (auto simp: read_tail_def read_with_scan session_tail.pushes_def verdict_def split: option.splits)

lemma open_session_failed:
  assumes "fst (open_session te p (a, w)) = Inl msg"
  shows "snd (open_session te p (a, w)) = (a, w)"
proof (cases "p = []")
  case False
  let ?r = "read_tail (storage te) (w_disk w) p HISTORY_CAP"
  let ?f = "case recorder a of Some rec \<Rightarrow> session_flush rec (w_disk w) | None \<Rightarrow> Inr ()"
  show ?thesis
    using assms False by (cases ?r; cases ?f) (simp_all add: open_session_def Let_def split_beta split: prod.split_asm)
qed (simp add: open_session_def)

lemma open_session_opened:
  assumes "fst (open_session te p (a, w)) = Inr msg"
  shows "\<exists>outs dropped. read_tail (storage te) (w_disk w) p HISTORY_CAP = Inr (outs, dropped)
     \<and> open_session te p (a, w) =
         (Inr msg, (rebuild_visible te (a\<lparr> recorder := None, events := outs, visible := [] \<rparr>))\<lparr> follow := True,
            mode := lit ''replay'', app_metrics := new_metrics, peak_msgs_in := 0, peak_msgs_out := 0,
            show_splash := False, accept_source_records := False, dropped_events := dropped \<rparr>, w)"
proof (cases "p = []")
  case True
  then show ?thesis using assms by (simp add: open_session_def)
next
  case False
  let ?r = "read_tail (storage te) (w_disk w) p HISTORY_CAP"
  let ?f = "case recorder a of Some rec \<Rightarrow> session_flush rec (w_disk w) | None \<Rightarrow> Inr ()"
  show ?thesis
  proof (cases ?r)
    case (Inl err)
    then show ?thesis using assms False by (simp add: open_session_def)
  next
    case (Inr found)
    obtain outs dropped where found: "found = (outs, dropped)" by (cases found)
    show ?thesis
      using assms False by (cases ?f) (simp_all add: open_session_def Let_def Inr found)
  qed
qed

lemma open_session_ok:
  assumes "app_ok te a"
  shows "app_ok te (fst (snd (open_session te p (a, w))))"
proof (cases "fst (open_session te p (a, w))")
  case (Inl msg)
  then show ?thesis using open_session_failed assms by (metis fst_conv)
next
  case (Inr msg)
  obtain outs dropped where
    r: "read_tail (storage te) (w_disk w) p HISTORY_CAP = Inr (outs, dropped)" and
    e: "open_session te p (a, w) =
         (Inr msg, (rebuild_visible te (a\<lparr> recorder := None, events := outs, visible := [] \<rparr>))\<lparr> follow := True,
            mode := lit ''replay'', app_metrics := new_metrics, peak_msgs_in := 0, peak_msgs_out := 0,
            show_splash := False, accept_source_records := False, dropped_events := dropped \<rparr>, w)"
    using open_session_opened [OF Inr] by (elim exE conjE)
  have sync: "filter_synced te a" using assms by (simp add: app_ok_def)
  have ok: "app_ok te (rebuild_visible te (a\<lparr> recorder := None, events := outs, visible := [] \<rparr>))"
    using read_tail_length [OF r] assms
    by (intro rebuild_ok filter_synced_cong [OF sync]) (simp_all add: HISTORY_TRIM_CHUNK_def)
  show ?thesis unfolding e fst_conv snd_conv by (rule app_ok_cong [OF ok]) simp_all
qed

lemma start_recording_app:
  "fst (snd (start_recording te p (a, w))) = (case fst (start_recording te p (a, w)) of
     Inl msg \<Rightarrow> a | Inr msg \<Rightarrow> a\<lparr> recorder := Some \<lparr> sw_path = p \<rparr> \<rparr>)"
proof -
  obtain c fs where c: "session_create p (w_disk w) = (c, fs)" by (cases "session_create p (w_disk w)")
  show ?thesis
  proof (cases "p = [] \<or> isl c")
    case True
    then show ?thesis by (cases "p = []"; cases c) (simp_all add: start_recording_def c)
  next
    case False
    then have r: "c = Inr \<lparr> sw_path = p \<rparr>"
      using c by (cases "create_fault (w_disk w) p") (auto simp: session_create_def)
    obtain wo fs' where wr: "write_outputs (storage te) (zip (map (stamp te) [w_readings w..<w_readings w + length (events a)]) (events a)) \<lparr> sw_path = p \<rparr> fs = (wo, fs')"
      by (cases "write_outputs (storage te) (zip (map (stamp te) [w_readings w..<w_readings w + length (events a)]) (events a)) \<lparr> sw_path = p \<rparr> fs")
    show ?thesis
      using False
      by (cases wo; cases "session_flush \<lparr> sw_path = p \<rparr> fs'") (simp_all add: start_recording_def c r Let_def wr)
  qed
qed

lemma execute_command_cases:
  "\<exists>argument result a' w' notice.
     execute_command te (a, w) = (a'\<lparr> command_notice := Some notice, command_editing := False \<rparr>, w')
     \<and> ((result, a', w') = start_recording te argument (a, w) \<or> (result, a', w') = open_session te argument (a, w)
         \<or> a' = a \<and> w' = w)"
proof -
  obtain nm argument where sp: "split_command (command_input (command_text a)) = (nm, argument)"
    by (cases "split_command (command_input (command_text a))")
  obtain r1 a1 w1 where st: "start_recording te argument (a, w) = (r1, a1, w1)"
    by (cases "start_recording te argument (a, w)")
  obtain r2 a2 w2 where op: "open_session te argument (a, w) = (r2, a2, w2)"
    by (cases "open_session te argument (a, w)")
  consider "nm = lit ''w'' \<or> nm = lit ''write'' \<or> nm = lit ''save''"
    | "\<not> (nm = lit ''w'' \<or> nm = lit ''write'' \<or> nm = lit ''save'')" "nm = lit ''o'' \<or> nm = lit ''open''"
    | "\<not> (nm = lit ''w'' \<or> nm = lit ''write'' \<or> nm = lit ''save'')" "\<not> (nm = lit ''o'' \<or> nm = lit ''open'')"
    by blast
  then show ?thesis
  proof cases
    case 1
    then show ?thesis
      by (intro exI [of _ argument] exI [of _ r1] exI [of _ a1] exI [of _ w1] exI)
         (simp add: execute_command_def sp st)
  next
    case 2
    then show ?thesis
      by (intro exI [of _ argument] exI [of _ r2] exI [of _ a2] exI [of _ w2] exI)
         (simp add: execute_command_def sp op)
  next
    case 3
    then show ?thesis
      by (cases "nm = []"; intro exI [of _ argument] exI [of _ "Inl []"] exI [of _ a] exI [of _ w] exI)
         (simp_all add: execute_command_def sp)
  qed
qed

lemma execute_command_ok:
  assumes "app_ok te a"
  shows "app_ok te (fst (execute_command te (a, w)))"
proof -
  obtain argument result a' w' notice where
    e: "execute_command te (a, w) = (a'\<lparr> command_notice := Some notice, command_editing := False \<rparr>, w')" and
    c: "(result, a', w') = start_recording te argument (a, w) \<or> (result, a', w') = open_session te argument (a, w)
         \<or> a' = a \<and> w' = w"
    using execute_command_cases [of te a w] by (elim exE conjE)
  have "app_ok te a'"
    using c
  proof (elim disjE conjE)
    assume s: "(result, a', w') = start_recording te argument (a, w)"
    then have "a' = (case result of Inl msg \<Rightarrow> a | Inr msg \<Rightarrow> a\<lparr> recorder := Some \<lparr> sw_path = argument \<rparr> \<rparr>)"
      using start_recording_app [of te argument a w] by (simp add: s [symmetric])
    then show ?thesis using assms by (cases result) (auto intro: app_ok_cong)
  next
    assume "(result, a', w') = open_session te argument (a, w)"
    then show ?thesis using open_session_ok [OF assms, of argument w] by (simp add: prod_eq_iff)
  qed (simp add: assms)
  then show ?thesis unfolding e fst_conv by (rule app_ok_cong) simp_all
qed

lemma view_key_ok: "app_ok te a \<Longrightarrow> app_ok te (snd (view_key te n k a))"
proof -
  assume ok: "app_ok te a"
  have "app_ok te (a\<lparr> events := [], visible := [] \<rparr>)"
    using ok filter_synced_cong [of te a "a\<lparr> events := [], visible := [] \<rparr>"]
    by (simp add: app_ok_def matching_def HISTORY_TRIM_CHUNK_def)
  then show ?thesis
    using clear_filter_ok [OF ok]
    by (auto simp: view_key_def Let_def scroll_by_def open_command_bar_def intro: ok app_ok_cong [OF ok])
qed

lemma command_key_ok:
  assumes "app_ok te a"
  shows "app_ok te (fst (command_key te k (a, w)))"
proof -
  have "app_ok te (a\<lparr> command_text := x \<rparr>)" "app_ok te (a\<lparr> command_editing := e, command_text := x \<rparr>)" for x e
    by (rule app_ok_cong [OF assms]; simp)+
  then show ?thesis using assms execute_command_ok [OF assms] by (cases "code k") simp_all
qed

lemma filter_key_ok:
  assumes "app_ok te a"
  shows "\<exists>a'. filter_key te k a = Some a' \<and> app_ok te a'"
proof -
  have "app_ok te ((clear_filter te a)\<lparr> filter_editing := False \<rparr>)" "app_ok te (a\<lparr> filter_editing := False \<rparr>)"
    by (rule app_ok_cong [OF clear_filter_ok [OF assms]]; simp) (rule app_ok_cong [OF assms]; simp)
  then show ?thesis using assms update_filter_ok [OF assms] by (cases "code k") (simp_all add: filter_key_def)
qed

lemma open_command_bar_ok: "app_ok te a \<Longrightarrow> app_ok te (open_command_bar a)"
  by (erule app_ok_cong) (simp_all add: open_command_bar_def)

lemma handle_key_ok:
  assumes "app_ok te a"
  shows "\<exists>quit a' w'. handle_key te n k (a, w) = Some (quit, a', w') \<and> app_ok te a'"
proof -
  obtain a1 w1 where com: "command_key te k (a, w) = (a1, w1)" by (cases "command_key te k (a, w)")
  have a1: "app_ok te a1" using command_key_ok [OF assms, of k w] unfolding com by simp
  obtain a2 where fil: "filter_key te k a = Some a2" "app_ok te a2" using filter_key_ok [OF assms] by blast
  obtain q a3 where vk: "view_key te n k a = (q, a3)" by (cases "view_key te n k a")
  have a3: "app_ok te a3" using view_key_ok [OF assms, of n k] by (simp add: vk)
  have [simp]: "\<exists>q. q" "\<exists>q. \<not> q" by blast+
  show ?thesis
    using a1 fil(2) a3 assms open_command_bar_ok [OF assms]
    by (simp add: handle_key_def com fil(1) vk del: command_key.simps)
qed

lemma handle_keys_ok:
  "app_ok te a \<Longrightarrow> \<exists>quit a' w'. handle_keys te n ks (a, w) = Some (quit, a', w') \<and> app_ok te a'"
proof (induction ks arbitrary: a w)
  case (Cons k ks)
  obtain quit a' w' where "handle_key te n k (a, w) = Some (quit, a', w')" "app_ok te a'"
    using handle_key_ok [OF Cons.prems] by blast
  then show ?case using Cons.IH [of a' w'] by (cases quit) auto
qed auto

text \<open>What is drawn: a settled state.\<close>

definition frame_ok :: "('re, 'v) tui_env \<Rightarrow> nat \<Rightarrow> 're app \<Rightarrow> bool" where
  "frame_ok te log_h a \<longleftrightarrow> app_ok te a \<and> length (events a) \<le> HISTORY_CAP \<and> scroll a \<le> max_scroll log_h a
     \<and> (follow a \<longrightarrow> scroll a = max_scroll log_h a)"

lemma clamp_frame:
  assumes "app_ok te a" "length (events a) \<le> HISTORY_CAP"
  shows "frame_ok te n (track_peaks (clamp_scroll n a))"
proof -
  have "app_ok te (track_peaks (clamp_scroll n a))"
    by (rule app_ok_cong [OF assms(1)]) (simp_all add: track_peaks_def clamp_scroll_def Let_def)
  then show ?thesis
    using assms(2) by (simp add: frame_ok_def track_peaks_def clamp_scroll_def Let_def max_scroll_def)
qed

lemma prepare_frame_ok:
  assumes "app_ok te (fst aw)"
  shows "frame_ok te (log_height h) (fst (prepare_frame te h aw))"
proof -
  obtain a w where aw: "aw = (a, w)" by (cases aw)
  have "app_ok te (a\<lparr> rx := [] \<rparr>)" by (rule app_ok_cong [of te a]) (use assms aw in simp_all)
  then have "app_ok te (fst (drain_channel te (rx a) (a\<lparr> rx := [] \<rparr>, w)))" by (intro drain_channel_ok) simp
  then have "app_ok te (leave_splash_if_traffic (fst (drain_channel te (rx a) (a\<lparr> rx := [] \<rparr>, w))))"
    by (rule app_ok_cong) (simp_all add: leave_splash_if_traffic_def)
  then show ?thesis
    by (simp add: prepare_frame_def aw split_beta Let_def clamp_frame trim_ok trim_bound)
qed

text \<open>The states the loop can reach, whatever the source sends, the registry counts and the user types, and whatever the turns draw.\<close>

definition given_filter :: "('re, 'v) tui_env \<Rightarrow> 're display_filter \<Rightarrow> bool" where
  "given_filter te f \<longleftrightarrow> f = default_filter \<or> (\<exists>t. filter_parse (build te) t = Some (Inr f))"

lemma given_filter_parses:
  assumes "given_filter te f"
  shows "filter_parse (build te) (df_expression f) = Some (Inr f)"
  using assms unfolding given_filter_def
proof (elim disjE exE)
  fix t assume t: "filter_parse (build te) t = Some (Inr f)"
  have "df_expression f = trim t"
    using t by (auto simp: filter_parse_def default_filter_def Let_def bind_eq_Some_conv split: if_splits sum.splits pres.splits)
  moreover have "filter_parse (build te) (trim t) = filter_parse (build te) t" by (simp add: filter_parse_def trim_trim)
  ultimately show ?thesis using t by simp
qed (simp add: filter_parse_def default_filter_def trim_def)

inductive tui_reachable :: "('re, 'v) tui_env \<Rightarrow> 're app \<times> world \<Rightarrow> bool" for te where
  started: "given_filter te f \<Longrightarrow> tui_reachable te (app_new chan md m is_rich f splash, w)"
| saving: "tui_reachable te (app_new chan md m is_rich f splash, w) \<Longrightarrow>
     tui_reachable te ((app_new chan md m is_rich f splash)\<lparr> recorder := Some rec \<rparr>, w)"
| sent: "tui_reachable te (a, w) \<Longrightarrow> tui_reachable te (a\<lparr> rx := rx a @ rs \<rparr>, w)"
| counted: "tui_reachable te (a, w) \<Longrightarrow> accept_source_records a \<Longrightarrow> tui_reachable te (a\<lparr> app_metrics := m \<rparr>, w)"
| turned: "tui_reachable te aw \<Longrightarrow> handle_keys te (log_height h) ks (prepare_frame te h aw) = Some (quit, aw') \<Longrightarrow> tui_reachable te aw'"

lemma frame_app_ok: "frame_ok te n a \<Longrightarrow> app_ok te a"
  by (simp add: frame_ok_def)

lemma turn_ok:
  assumes "app_ok te a"
  shows "\<exists>d w1 quit a' w'. prepare_frame te h (a, w) = (d, w1) \<and> frame_ok te (log_height h) d
    \<and> handle_keys te (log_height h) ks (d, w1) = Some (quit, a', w') \<and> app_ok te a'"
proof -
  obtain d w1 where p: "prepare_frame te h (a, w) = (d, w1)" by (cases "prepare_frame te h (a, w)")
  have f: "frame_ok te (log_height h) d" using prepare_frame_ok [of te "(a, w)" h] assms by (simp add: p)
  obtain quit a' w' where "handle_keys te (log_height h) ks (d, w1) = Some (quit, a', w')" "app_ok te a'"
    using handle_keys_ok [OF frame_app_ok [OF f]] by blast
  then show ?thesis using f p by blast
qed

lemma reachable_app_ok: "tui_reachable te aw \<Longrightarrow> app_ok te (fst aw)"
proof (induction rule: tui_reachable.induct)
  case (started f chan md m is_rich splash w)
  then show ?case
    by (simp add: app_ok_def app_new_def matching_def HISTORY_TRIM_CHUNK_def filter_synced_def given_filter_parses)
next
  case (turned aw h ks quit aw')
  obtain a w where aw: "aw = (a, w)" by (cases aw)
  show ?case using turn_ok [of te a h w ks] turned by (auto simp: aw)
qed (auto intro: app_ok_cong)

subsection \<open>What the history keeps\<close>

text \<open>\<open>kept a b all\<close>: \<open>b\<close> holds what \<open>a\<close> would with all of \<open>all\<close>, less a counted number of the oldest, and gave up some only
  where a full history remained.\<close>

definition kept :: "'re app \<Rightarrow> 're app \<Rightarrow> output_record list \<Rightarrow> bool" where
  "kept a b all \<longleftrightarrow> (\<exists>n. events b = drop n all \<and> dropped_events b = min USIZE_MAX (dropped_events a + n)
     \<and> (n = 0 \<or> n + HISTORY_CAP \<le> length all))"

lemma kept_trans:
  assumes "kept a b xs" "kept b c (events b @ ys)"
  shows "kept a c (xs @ ys)"
proof -
  obtain n where n: "events b = drop n xs" "dropped_events b = min USIZE_MAX (dropped_events a + n)"
    "n = 0 \<or> n + HISTORY_CAP \<le> length xs" using assms(1) by (auto simp: kept_def)
  obtain m where m: "events c = drop m (events b @ ys)" "dropped_events c = min USIZE_MAX (dropped_events b + m)"
    "m = 0 \<or> m + HISTORY_CAP \<le> length (events b @ ys)" using assms(2) by (auto simp: kept_def)
  have "n \<le> length xs" using n(3) by auto
  then have "events c = drop (n + m) (xs @ ys)" by (simp add: m(1) n(1) add.commute)
  moreover have "dropped_events c = min USIZE_MAX (dropped_events a + (n + m))" using m(2) n(2) by simp
  moreover have "n + m = 0 \<or> n + m + HISTORY_CAP \<le> length (xs @ ys)" using n m(3) \<open>n \<le> length xs\<close> by auto
  ultimately show ?thesis unfolding kept_def by blast
qed

lemma kept_same: "events b = events a \<Longrightarrow> dropped_events b = dropped_events a \<Longrightarrow> dropped_events a \<le> USIZE_MAX \<Longrightarrow> kept a b (events a)"
  unfolding kept_def by (intro exI [of _ 0]) simp

lemma kept_bound: "kept a b xs \<Longrightarrow> dropped_events b \<le> USIZE_MAX"
  by (auto simp: kept_def)

lemma trim_kept: "dropped_events a \<le> USIZE_MAX \<Longrightarrow> kept a (trim_history te a) (events a)"
  unfolding kept_def
  by (intro exI [of _ "length (events a) - HISTORY_CAP"])
     (auto simp: trim_history_def Let_def rebuild_visible_def saturating_add_def)

lemma push_event_kept:
  assumes "dropped_events a \<le> USIZE_MAX"
  shows "kept a (push_event te r a) (events a @ [r])"
proof -
  define b where "b = (if app_matches te a r then a\<lparr> visible := visible a @ [length (events a)] \<rparr> else a)\<lparr> events := events a @ [r] \<rparr>"
  have b: "push_event te r a = (if HISTORY_CAP + HISTORY_TRIM_CHUNK \<le> length (events b) then trim_history te b else b)"
    by (simp add: push_event_def b_def Let_def)
  have same: "events b = events a @ [r]" "dropped_events b = dropped_events a" by (simp_all add: b_def)
  have "kept a b (events a @ [r])" unfolding kept_def by (intro exI [of _ 0]) (simp add: same assms)
  moreover have "kept a (trim_history te b) (events a @ [r])"
    using trim_kept [of b te] assms by (simp add: kept_def same)
  ultimately show ?thesis by (simp add: b)
qed

lemma push_output_kept:
  assumes "dropped_events a \<le> USIZE_MAX"
  shows "kept a (fst (push_output te r (a, w))) (events a @ [r])"
proof -
  have same: "events (fst (record_output te r (a, w))) = events a" "dropped_events (fst (record_output te r (a, w))) = dropped_events a"
    by (simp_all add: record_output_def split: option.split prod.split sum.split)
  show ?thesis
    using push_event_kept [of "fst (record_output te r (a, w))" te r] assms
    by (simp add: push_output_def split_beta same kept_def)
qed

lemma push_output_accepts:
  "accept_source_records (fst (push_output te r (a, w))) = accept_source_records a"
proof -
  have "accept_source_records (fst (record_output te r (a, w))) = accept_source_records a"
    by (simp add: record_output_def split: option.split prod.split sum.split)
  moreover have "accept_source_records (push_event te r b) = accept_source_records b" for b
    by (simp add: push_event_def Let_def trim_history_def rebuild_visible_def)
  ultimately show ?thesis by (simp add: push_output_def split_beta)
qed

lemma drain_kept:
  assumes "dropped_events a \<le> USIZE_MAX"
  shows "kept a (fst (drain_channel te rs (a, w))) (events a @ (if accept_source_records a then rs else []))"
  using assms
proof (induction rs arbitrary: a w)
  case Nil
  then show ?case using kept_same [of a a] by simp
next
  case (Cons r rs)
  show ?case
  proof (cases "accept_source_records a")
    case True
    obtain b v where b: "push_output te r (a, w) = (b, v)" by (cases "push_output te r (a, w)")
    have acc: "accept_source_records b" using True push_output_accepts [of te r a w] by (simp add: b)
    have k: "kept a b (events a @ [r])" using push_output_kept [OF Cons.prems, of te r w] by (simp add: b)
    have "kept b (fst (drain_channel te rs (b, v))) (events b @ rs)"
      using Cons.IH [OF kept_bound [OF k], of v] acc by simp
    from kept_trans [OF k this] show ?thesis by (simp add: True b)
  next
    case False
    then show ?thesis using Cons.IH [OF Cons.prems, of w] by simp
  qed
qed

lemma prepare_frame_kept:
  assumes "dropped_events a \<le> USIZE_MAX"
  shows "kept a (fst (prepare_frame te h (a, w))) (events a @ (if accept_source_records a then rx a else []))"
proof -
  obtain b v where b: "drain_channel te (rx a) (a\<lparr> rx := [] \<rparr>, w) = (b, v)"
    by (cases "drain_channel te (rx a) (a\<lparr> rx := [] \<rparr>, w)")
  have k: "kept a b (events a @ (if accept_source_records a then rx a else []))"
    using drain_kept [of "a\<lparr> rx := [] \<rparr>" te "rx a" w] assms by (simp add: b kept_def)
  let ?c = "trim_history te (leave_splash_if_traffic b)"
  have same: "events (leave_splash_if_traffic b) = events b" "dropped_events (leave_splash_if_traffic b) = dropped_events b"
    by (simp_all add: leave_splash_if_traffic_def)
  have "kept b ?c (events b)"
    using trim_kept [of "leave_splash_if_traffic b" te] kept_bound [OF k] by (simp add: kept_def same)
  then have "kept a ?c (events a @ (if accept_source_records a then rx a else []))"
    using kept_trans [OF k, of ?c "[]"] by simp
  then show ?thesis
    by (simp add: prepare_frame_def b Let_def kept_def track_peaks_def clamp_scroll_def)
qed

lemma kept_newest:
  assumes "kept a b all" "length (events b) \<le> HISTORY_CAP"
  shows "events b = lastn HISTORY_CAP all" "dropped_events b = min USIZE_MAX (dropped_events a + (length all - HISTORY_CAP))"
proof -
  obtain n where n: "events b = drop n all" "dropped_events b = min USIZE_MAX (dropped_events a + n)"
    "n = 0 \<or> n + HISTORY_CAP \<le> length all" using assms(1) by (auto simp: kept_def)
  have "n = length all - HISTORY_CAP" using n(1,3) assms(2) by auto
  then show "events b = lastn HISTORY_CAP all" "dropped_events b = min USIZE_MAX (dropped_events a + (length all - HISTORY_CAP))"
    using n(1,2) by (simp_all add: lastn_def)
qed

subsection \<open>What the recorder writes\<close>

text \<open>The recorder's file holds everything pushed since it was created, and the recorder is still running.\<close>

definition recorded :: "('re, 'v) tui_env \<Rightarrow> rstring \<Rightarrow> output_record list \<Rightarrow> 're app \<times> world \<Rightarrow> bool" where
  "recorded te p all = (\<lambda>(a, w). recorder a = Some \<lparr> sw_path = p \<rparr> \<and> (\<exists>ars fs. map snd ars = all \<and> reliable fs p
     \<and> (\<forall>ar \<in> set ars. storable (storage te) ar) \<and> w_disk w = put_file p (lines_text (storage te) ars) fs))"

lemma push_output_recorded:
  assumes "recorded te p all (a, w)" "\<And>n. storable (storage te) (stamp te n, r)"
  shows "recorded te p (all @ [r]) (push_output te r (a, w))"
proof -
  obtain ars fs where a: "recorder a = Some \<lparr> sw_path = p \<rparr>" "map snd ars = all" "reliable fs p"
    "\<forall>ar \<in> set ars. storable (storage te) ar" "w_disk w = put_file p (lines_text (storage te) ars) fs"
    using assms(1) by (auto simp: recorded_def)
  let ?ar = "(stamp te (w_readings w), r)"
  have "session_write (storage te) (stamp te (w_readings w)) r \<lparr> sw_path = p \<rparr> (w_disk w)
      = (Inr (), put_file p (lines_text (storage te) (ars @ [?ar])) fs)"
    using session_write_reliable [OF assms(2) a(3)] by (simp add: a(5))
  then have "record_output te r (a, w) = (a, \<lparr> w_disk = put_file p (lines_text (storage te) (ars @ [?ar])) fs,
      w_readings = Suc (w_readings w) \<rparr>)"
    by (simp add: record_output_def a(1))
  moreover have "recorder (push_event te r a) = recorder a"
    by (simp add: push_event_def Let_def trim_history_def rebuild_visible_def)
  moreover have "map snd (ars @ [?ar]) = all @ [r]" "\<forall>ar \<in> set (ars @ [?ar]). storable (storage te) ar"
    using a(2,4) assms(2) by auto
  ultimately show ?thesis
    using a(1,3) unfolding recorded_def push_output_def
    by (simp del: lines_text_simps map_append set_append) (intro exI [of _ "ars @ [?ar]"] exI [of _ fs] conjI refl; assumption)
qed

text \<open>What a stamp of the clock can be stored with, whenever it is read.\<close>

definition storable_any :: "('re, 'v) tui_env \<Rightarrow> output_record \<Rightarrow> bool" where
  "storable_any te r \<longleftrightarrow> (\<forall>n. storable (storage te) (stamp te n, r))"

interpretation view_log: append_log "push_output te" "recorded te p" "storable_any te" for te p
proof
  fix xs r and aw :: "'a app \<times> world"
  assume "recorded te p xs aw" "storable_any te r"
  then show "recorded te p (xs @ [r]) (push_output te r aw)"
    using push_output_recorded [of te p xs "fst aw" "snd aw" r] by (simp add: storable_any_def)
qed

lemma drain_accepting:
  "accept_source_records (fst aw) \<Longrightarrow> drain_channel te rs aw = fold (push_output te) rs aw"
proof (induction rs arbitrary: aw)
  case (Cons r rs)
  then show ?case using push_output_accepts [of te r "fst aw" "snd aw"] by simp
qed simp

lemma drain_recorded:
  assumes "recorded te p all aw" "accept_source_records (fst aw)" "\<forall>r \<in> set rs. storable_any te r"
  shows "recorded te p (all @ rs) (drain_channel te rs aw)"
  using view_log.pushes_logged [OF assms(1,3)] by (simp add: drain_accepting assms(2))

lemma recorded_reads: "recorded te p all (a, w) \<Longrightarrow> read_all (storage te) (w_disk w) p = Inr all"
  by (auto simp: recorded_def read_all_written)

lemma start_recording_recorded:
  assumes "p \<noteq> []" "reliable (w_disk w) p" "\<forall>r \<in> set (events a). storable_any te r"
  shows "\<exists>msg a' w'. start_recording te p (a, w) = (Inr msg, a', w') \<and> recorded te p (events a) (a', w')
    \<and> a' = a\<lparr> recorder := Some \<lparr> sw_path = p \<rparr> \<rparr>"
proof -
  let ?ars = "zip (map (stamp te) [w_readings w..<w_readings w + length (events a)]) (events a)"
  have st: "\<forall>ar \<in> set ?ars. storable (storage te) ar"
    using assms(3) by (auto simp: set_zip storable_any_def)
  have "write_outputs (storage te) ?ars \<lparr> sw_path = p \<rparr> (put_file p [] (w_disk w))
      = (Inr (), put_file p (lines_text (storage te) ?ars) (w_disk w))"
    using write_outputs_reliable [OF assms(2) st, of "[]"] by simp
  moreover have "session_create p (w_disk w) = (Inr \<lparr> sw_path = p \<rparr>, put_file p [] (w_disk w))"
    "session_flush \<lparr> sw_path = p \<rparr> (put_file p (lines_text (storage te) ?ars) (w_disk w)) = Inr ()"
    using assms(2) by (simp_all add: session_create_def session_flush_def reliable_def)
  moreover have "map snd ?ars = events a" by simp
  ultimately show ?thesis
    using assms(1,2) st unfolding start_recording_def recorded_def
    by (simp add: Let_def) (intro exI [of _ ?ars] exI [of _ "w_disk w"] conjI refl; (assumption | simp; fail))
qed

subsection \<open>Properties\<close>

text \<open>Preparing a frame changes neither the filter nor whether the view follows, and brings no splash back.\<close>

lemma prepare_frame_mode:
  "display (fst (prepare_frame te h (a, w))) = display a" "follow (fst (prepare_frame te h (a, w))) = follow a"
  "\<not> show_splash a \<Longrightarrow> \<not> show_splash (fst (prepare_frame te h (a, w)))"
proof -
  let ?same = "\<lambda>(a :: 'a app) b. display a = display b \<and> follow a = follow b \<and> show_splash a = show_splash b"
  have "?same (fst (record_output te r aw)) (fst aw)" for r and aw :: "'a app \<times> world"
    by (cases aw) (simp add: record_output_def split: option.split prod.split sum.split)
  then have "?same (fst (push_output te r aw)) (fst aw)" for r and aw :: "'a app \<times> world"
    by (simp add: push_output_def split_beta push_event_def Let_def trim_history_def rebuild_visible_def)
  then have "?same (fst (drain_channel te rs aw)) (fst aw)" for rs and aw :: "'a app \<times> world"
    by (induction rs arbitrary: aw) simp_all
  then show "display (fst (prepare_frame te h (a, w))) = display a" "follow (fst (prepare_frame te h (a, w))) = follow a"
    "\<not> show_splash a \<Longrightarrow> \<not> show_splash (fst (prepare_frame te h (a, w)))"
    by (simp_all add: prepare_frame_def split_beta Let_def trim_history_def rebuild_visible_def leave_splash_if_traffic_def track_peaks_def
        clamp_scroll_def)
qed

lemma drawn_frame:
  assumes "tui_reachable te (a, w)" "dropped_events a \<le> USIZE_MAX"
    and "all = events a @ (if accept_source_records a then rx a else [])"
  shows "\<exists>d w'. prepare_frame te h (a, w) = (d, w') \<and> frame_ok te (log_height h) d \<and> events d = lastn HISTORY_CAP all
    \<and> dropped_events d = min USIZE_MAX (dropped_events a + (length all - HISTORY_CAP)) \<and> display d = display a
    \<and> visible d = filter (\<lambda>i. output_matches (is_match te) (display a) (events d ! i)) [0..<length (events d)]
    \<and> scroll d \<le> max_scroll (log_height h) d \<and> (follow d \<longrightarrow> scroll d = max_scroll (log_height h) d)"
proof -
  have ok: "app_ok te a" using reachable_app_ok [OF assms(1)] by simp
  obtain d w' where d: "prepare_frame te h (a, w) = (d, w')" and f: "frame_ok te (log_height h) d"
    using turn_ok [OF ok, of h w "[]"] by blast
  have "kept a d all" using prepare_frame_kept [OF assms(2), of te h w] by (simp add: d assms(3))
  moreover have "length (events d) \<le> HISTORY_CAP" using f by (simp add: frame_ok_def)
  moreover have "display d = display a" using prepare_frame_mode(1) [of te h a w] by (simp add: d)
  ultimately show ?thesis
    using d f kept_newest [of a d all] by (simp add: frame_ok_def app_ok_def matching_def app_matches_def)
qed

text \<open>C17. Recording is complete: when the disk does not fail, the file named by \<open>:save\<close> holds at every moment exactly the
  retained events and everything received since, whether it matches the filter or not and whether the history still has it.\<close>

theorem recording_is_complete:
  assumes "p \<noteq> []" "reliable (w_disk w) p" "accept_source_records a"
    and "\<forall>r \<in> set (events a @ rs). \<forall>n. storable (storage te) (stamp te n, r)"
  shows "\<exists>msg a' w'. start_recording te p (a, w) = (Inr msg, a', w')
    \<and> read_all (storage te) (w_disk (snd (drain_channel te rs (a', w')))) p = Inr (events a @ rs)
    \<and> recorder (fst (drain_channel te rs (a', w'))) = Some \<lparr> sw_path = p \<rparr>"
proof -
  obtain msg a' w' where s: "start_recording te p (a, w) = (Inr msg, a', w')" and r: "recorded te p (events a) (a', w')"
    and a': "a' = a\<lparr> recorder := Some \<lparr> sw_path = p \<rparr> \<rparr>"
    using start_recording_recorded [OF assms(1,2), of a te] assms(4) by (auto simp: storable_any_def)
  have "recorded te p (events a @ rs) (drain_channel te rs (a', w'))"
    using drain_recorded [OF r] assms(3,4) by (simp add: a' storable_any_def)
  moreover obtain b v where "drain_channel te rs (a', w') = (b, v)" by (cases "drain_channel te rs (a', w')")
  ultimately show ?thesis using s recorded_reads [of te p "events a @ rs" b v] by (simp add: recorded_def)
qed

text \<open>C30. Opening a session is all or nothing: it fails exactly when no file is named, the file cannot be read to its end or the
  recorder cannot be flushed, and then nothing changes; otherwise the history is the newest part of the file under the same
  filter, nothing records any more and the source's records are no longer taken.\<close>

theorem open_replaces_history_or_nothing:
  "(\<exists>msg. open_session te p (a, w) = (Inl msg, a, w))
     = (p = [] \<or> isl (read_all (storage te) (w_disk w) p) \<or> (\<exists>rec. recorder a = Some rec \<and> isl (session_flush rec (w_disk w))))
   \<and> (case open_session te p (a, w) of
        (Inl msg, a', w') \<Rightarrow> a' = a \<and> w' = w
      | (Inr msg, a', w') \<Rightarrow> w' = w \<and> (\<exists>all. read_all (storage te) (w_disk w) p = Inr all
          \<and> events a' = lastn HISTORY_CAP all \<and> dropped_events a' = min USIZE_MAX (length all - HISTORY_CAP)
          \<and> visible a' = filter (\<lambda>i. output_matches (is_match te) (display a) (events a' ! i)) [0..<length (events a')]
          \<and> display a' = display a \<and> recorder a' = None \<and> \<not> accept_source_records a'))"
proof (cases "p = [] \<or> isl (read_all (storage te) (w_disk w) p)")
  case True
  then show ?thesis
    by (cases "p = []"; cases "read_all (storage te) (w_disk w) p") (simp_all add: open_session_def read_tail_all)
next
  case False
  then obtain all where all: "read_all (storage te) (w_disk w) p = Inr all" by (cases "read_all (storage te) (w_disk w) p") simp_all
  show ?thesis
  proof (cases "case recorder a of Some rec \<Rightarrow> session_flush rec (w_disk w) | None \<Rightarrow> Inr ()")
    case (Inl err)
    then show ?thesis using False by (cases "recorder a") (simp_all add: open_session_def read_tail_all all)
  next
    case (Inr u)
    moreover have "matching te (rebuild_visible te b) = matching te b" for b by (rule matching_rebuild)
    ultimately show ?thesis
      using False by (cases "recorder a")
        (simp_all add: open_session_def read_tail_all all Let_def rebuild_visible_def matching_def app_matches_def)
  qed
qed

text \<open>C18. The filter line tells the truth in every reachable state: without a notice the filter in force is what its text
  means, with one the text is invalid and the notice is its error; and a text that becomes invalid changes nothing else, so
  the last valid filter and its view stay.\<close>

theorem filter_line_describes_filter:
  assumes "tui_reachable te (a, w)"
  shows "(case filter_notice a of
       None \<Rightarrow> filter_parse (build te) (filter_text a) = Some (Inr (display a))
     | Some msg \<Rightarrow> (\<exists>err. filter_parse (build te) (filter_text a) = Some (Inl err) \<and> msg = show_filter_error err))
   \<and> (\<forall>t err. filter_parse (build te) t = Some (Inl err) \<longrightarrow> update_filter te (a\<lparr> filter_text := t \<rparr>)
        = Some (a\<lparr> filter_text := t, filter_notice := Some (show_filter_error err) \<rparr>))"
proof (intro conjI allI impI)
  show "case filter_notice a of
       None \<Rightarrow> filter_parse (build te) (filter_text a) = Some (Inr (display a))
     | Some msg \<Rightarrow> (\<exists>err. filter_parse (build te) (filter_text a) = Some (Inl err) \<and> msg = show_filter_error err)"
    using reachable_app_ok [OF assms] by (simp add: app_ok_def filter_synced_def)
next
  fix t err assume "filter_parse (build te) t = Some (Inl err)"
  then show "update_filter te (a\<lparr> filter_text := t \<rparr>)
        = Some (a\<lparr> filter_text := t, filter_notice := Some (show_filter_error err) \<rparr>)"
    using update_filter_cases [of te "a\<lparr> filter_text := t \<rparr>"] by auto
qed

text \<open>Typing never ends the program: every key is handled without a panic, and the view quits on it exactly when it is
  Ctrl-C, or the letter q while no line is being edited.\<close>

lemma only_q_and_ctrl_c_quit:
  "\<exists>quit a' w'. handle_key te n k (a, w) = Some (quit, a', w')
     \<and> quit = (code k = KeyChar 99 \<and> ctrl k \<or> code k = KeyChar 113 \<and> \<not> command_editing a \<and> \<not> (filter_editing a \<and> \<not> show_splash a))"
proof -
  have fil: "\<exists>a'. filter_key te k a = Some a'"
    using update_filter_cases by (cases "code k") (fastforce simp: filter_key_def)+
  have quits: "fst (view_key te n k a) = (code k = KeyChar 113)" by (simp add: view_key_def Let_def)
  obtain a1 w1 where com: "command_key te k (a, w) = (a1, w1)" by (cases "command_key te k (a, w)")
  obtain a2 where fil: "filter_key te k a = Some a2" using fil by blast
  obtain q a3 where vk: "view_key te n k a = (q, a3)" by (cases "view_key te n k a")
  then have "q = (code k = KeyChar 113)" using quits by simp
  then show ?thesis
    by (simp add: handle_key_def com fil vk del: command_key.simps)
qed

subsection \<open>Witnesses\<close>

text \<open>A sample: a compiled pattern is its text and matches just that text; the clock stands still.\<close>

definition sample_env :: "(rstring, stored_record) tui_env" where
  "sample_env = \<lparr> build = Inr, is_match = (\<lambda>r s. r = s), storage = sample_serde, stamp = (\<lambda>n. []) \<rparr>"

definition sample_app :: "rstring app" where
  "sample_app = app_new [Line (lit ''opened''), Message sample_message None] (lit ''pcap'') new_metrics False default_filter []"

definition sample_world :: world where
  "sample_world = \<lparr> w_disk = sample_disk, w_readings = 0 \<rparr>"

lemma sample_reachable: "tui_reachable sample_env (sample_app, sample_world)"
  unfolding sample_app_def by (rule tui_reachable.started) (simp add: given_filter_def)

theorem recording_is_complete_witness:
  "\<exists>msg a' w'. start_recording sample_env (lit ''a.jsonl'') (sample_app\<lparr> events := [Line (lit ''opened'')] \<rparr>, sample_world) = (Inr msg, a', w')
    \<and> read_all sample_serde (w_disk (snd (drain_channel sample_env [Message sample_message None] (a', w')))) (lit ''a.jsonl'')
        = Inr [Line (lit ''opened''), Message sample_message None]"
proof -
  have "storable sample_serde ([], Line (lit ''opened''))" "storable sample_serde ([], Message sample_message None)"
    using sample_storable by (simp_all add: sample_records_def)
  then have "\<forall>r \<in> set (events (sample_app\<lparr> events := [Line (lit ''opened'')] \<rparr>) @ [Message sample_message None]).
      \<forall>n. storable (storage sample_env) (stamp sample_env n, r)"
    by (simp add: sample_env_def)
  moreover have "lit ''a.jsonl'' \<noteq> []" "reliable (w_disk sample_world) (lit ''a.jsonl'')"
    "accept_source_records (sample_app\<lparr> events := [Line (lit ''opened'')] \<rparr>)"
    by (simp_all add: str_simps sample_world_def sample_reliable sample_app_def app_new_def)
  ultimately have "\<exists>msg a' w'. start_recording sample_env (lit ''a.jsonl'') (sample_app\<lparr> events := [Line (lit ''opened'')] \<rparr>, sample_world) = (Inr msg, a', w')
      \<and> read_all (storage sample_env) (w_disk (snd (drain_channel sample_env [Message sample_message None] (a', w')))) (lit ''a.jsonl'')
          = Inr (events (sample_app\<lparr> events := [Line (lit ''opened'')] \<rparr>) @ [Message sample_message None])
      \<and> recorder (fst (drain_channel sample_env [Message sample_message None] (a', w'))) = Some \<lparr> sw_path = lit ''a.jsonl'' \<rparr>"
    by (intro recording_is_complete)
  moreover have "storage sample_env = sample_serde" by (simp add: sample_env_def)
  moreover have "events (sample_app\<lparr> events := [Line (lit ''opened'')] \<rparr>) @ [Message sample_message None]
      = [Line (lit ''opened''), Message sample_message None]" by simp
  ultimately show ?thesis by metis
qed

theorem filter_line_describes_filter_witness:
  "filter_notice sample_app = None \<and> filter_parse (build sample_env) (filter_text sample_app) = Some (Inr (display sample_app))"
  using filter_line_describes_filter [OF sample_reachable]
  by (simp add: sample_app_def app_new_def)

end
