(* ===== verification/Tui_Header.thy ===== *)
theory Tui_Header
  imports Tui_App
begin

text \<open>
  What the interactive view draws around its log (\<open>src/tui.rs\<close>): styled lines, the columns and charts of the header with the
  counts in them, the titles, the footer and the splash. A line is a list of spans, text with a colour and weight. The areas they are
  put in are not modelled.
\<close>

subsection \<open>Lines\<close>

datatype color = Red | Green | Yellow | Blue | Magenta | Cyan | Gray | DarkGray | Reset

record style =
  fg :: "color option"
  bold :: bool

record span =
  sp_text :: rstring
  sp_style :: style

record text_line =
  ln_style :: style
  ln_spans :: "span list"

definition plain :: style where "plain = \<lparr> fg = None, bold = False \<rparr>"

definition in_color :: "color \<Rightarrow> style" where "in_color c = \<lparr> fg = Some c, bold = False \<rparr>"

definition in_bold :: "color \<Rightarrow> style" where "in_bold c = \<lparr> fg = Some c, bold = True \<rparr>"

definition styled_line :: "rstring \<Rightarrow> style \<Rightarrow> text_line" where
  "styled_line s st = \<lparr> ln_style = st, ln_spans = [\<lparr> sp_text = s, sp_style = plain \<rparr>] \<rparr>"

definition line_from :: "(rstring \<times> style) list \<Rightarrow> text_line" where
  "line_from sps = \<lparr> ln_style = plain, ln_spans = map (\<lambda>(s, st). \<lparr> sp_text = s, sp_style = st \<rparr>) sps \<rparr>"

definition line_text :: "text_line \<Rightarrow> rstring" where
  "line_text l = concat (map sp_text (ln_spans l))"

subsection \<open>Byte counts\<close>

text \<open>
  \<open>human\<close> computes with 64-bit floats. The conversion of the count keeps 53 bits and rounds to the nearest, to even when
  halfway; dividing by 1024 is exact, and printing one decimal rounds the exact quotient to the nearest tenth, to even when halfway. The
  value is the converted count \<open>n\<close> over a power of 1024.
\<close>

definition half_even :: "nat \<Rightarrow> nat \<Rightarrow> nat" where
  "half_even n d = (let q = n div d; r = n mod d in if 2 * r < d \<or> (2 * r = d \<and> even q) then q else Suc q)"

fun f64_excess :: "nat \<Rightarrow> nat" where
  "f64_excess n = (if n < 2 ^ 53 then 0 else Suc (f64_excess (n div 2)))"

declare f64_excess.simps [simp del]

definition f64_of :: "u64 \<Rightarrow> nat" where
  "f64_of v = half_even (unat v) (2 ^ f64_excess (unat v)) * 2 ^ f64_excess (unat v)"

definition UNITS :: "rstring list" where "UNITS = [lit ''B'', lit ''KiB'', lit ''MiB'', lit ''GiB'']"

function human_unit :: "nat \<Rightarrow> nat \<Rightarrow> nat" where
  "human_unit n u = (if 1024 ^ Suc u \<le> n \<and> Suc u < length UNITS then human_unit n (Suc u) else u)"
  by auto
termination by (relation "measure (\<lambda>(n, u). length UNITS - u)") auto

declare human_unit.simps [simp del]

definition tenths :: "nat \<Rightarrow> nat \<Rightarrow> nat" where
  "tenths n u = half_even (10 * n) (1024 ^ u)"

definition human :: "u64 \<Rightarrow> rstring" where
  "human v =
     (let n = f64_of v; u = human_unit n 0
      in if u = 0 then show_nat n @ UNITS ! u
         else show_nat (tenths n u div 10) @ [46] @ show_nat (tenths n u mod 10) @ UNITS ! u)"

subsection \<open>The header and the footer\<close>

text \<open>The characters of the frame that are not ASCII: the middle dot, the arrows and the cursor.\<close>

definition mid_dot :: rchar where "mid_dot = 0xB7"
definition cursor :: rchar where "cursor = 0x2588"
definition chevron :: rchar where "chevron = 0x203A"

fun comma_groups :: "nat \<Rightarrow> rstring \<Rightarrow> rstring" where
  "comma_groups i [] = []"
| "comma_groups i (b # bs) = (if i \<noteq> 0 \<and> length (b # bs) mod 3 = 0 then [44, b] else [b]) @ comma_groups (Suc i) bs"

definition with_commas :: "u64 \<Rightarrow> rstring" where
  "with_commas n = comma_groups 0 (show_nat (unat n))"

definition saturating_u64 :: "u64 \<Rightarrow> u64 \<Rightarrow> u64" where
  "saturating_u64 a b = (if unat a + unat b < 2 ^ 64 then a + b else - 1)"

definition message_rates :: "traffic list \<Rightarrow> u64 \<times> u64 \<times> u64" where
  "message_rates rs =
     (let current = (if rs = [] then 0 else saturating_u64 (t_msgs_in (last rs)) (t_msgs_out (last rs)));
          combined = map (\<lambda>r. saturating_u64 (t_msgs_in r) (t_msgs_out r)) rs
      in (current, sum_list combined div of_nat (max (length combined) 1), fold max combined 0))"

definition rates_caption :: "traffic list \<Rightarrow> rstring" where
  "rates_caption rs =
     (case message_rates rs of (current, avg, peak) \<Rightarrow>
        lit ''now '' @ with_commas current @ lit '' avg '' @ with_commas avg @ lit '' peak '' @ with_commas peak)"

text \<open>A column of the header.\<close>

definition stat_text :: "rstring \<Rightarrow> rstring \<Rightarrow> color \<Rightarrow> rstring \<Rightarrow> rstring \<Rightarrow> text_line list" where
  "stat_text label big big_color sub rate =
     [line_from [(label @ lit '' '', in_color DarkGray), (big, in_bold big_color)],
      styled_line sub (in_bold Gray), styled_line rate (in_bold Gray)]"

text \<open>The columns of the header, and the two charts: a label, the series with the newest sample first, and the scale.\<close>

definition in_arrow :: rchar where "in_arrow = 0x2192"
definition out_arrow :: rchar where "out_arrow = 0x2190"

definition current_rates :: "metrics_summary \<Rightarrow> traffic" where
  "current_rates ms = (if sum_rates ms = [] then 0 else last (sum_rates ms))"

definition header_columns :: "metrics_summary \<Rightarrow> text_line list list" where
  "header_columns ms =
     (let total = sum_traffic ms; current = current_rates ms in
      [stat_text (lit ''ACTIVE'') (show_nat (unat (sum_conns_live ms))) Reset (lit ''opened '' @ show_nat (unat (sum_conns_opened ms))) [],
       stat_text (lit ''TOTAL IN'') (human (t_bytes_in total)) Cyan (with_commas (t_msgs_in total) @ lit '' msgs'')
         (human (t_bytes_in current) @ lit ''/s''),
       stat_text (lit ''TOTAL OUT'') (human (t_bytes_out total)) Magenta (with_commas (t_msgs_out total) @ lit '' msgs'')
         (human (t_bytes_out current) @ lit ''/s'')])"

record chart =
  ch_tag :: text_line
  ch_data :: "u64 list"
  ch_max :: u64
  ch_color :: color

definition header_charts :: "'re app \<Rightarrow> chart list" where
  "header_charts a =
     (let rs = sum_rates (summary (app_metrics a)) in
      [\<lparr> ch_tag = line_from [(lit ''in '', in_color Cyan), ([in_arrow], in_bold Cyan)],
         ch_data = rev (map t_msgs_in rs), ch_max = max (peak_msgs_in a) 1, ch_color = Cyan \<rparr>,
       \<lparr> ch_tag = line_from [(lit ''out '', in_color Magenta), ([out_arrow], in_bold Magenta)],
         ch_data = rev (map t_msgs_out rs), ch_max = max (peak_msgs_out a) 1, ch_color = Magenta \<rparr>])"

record header_view =
  hd_columns :: "text_line list list"
  hd_charts :: "chart list"
  hd_caption :: rstring

definition header_of :: "'re app \<Rightarrow> header_view" where
  "header_of a =
     (let ms = summary (app_metrics a)
      in \<lparr> hd_columns = header_columns ms, hd_charts = header_charts a, hd_caption = rates_caption (sum_rates ms) \<rparr>)"

definition heading :: "'re app \<Rightarrow> rstring" where
  "heading a = lit '' tapgres '' @ [em_dash, 32] @ mode a @ lit '' mode '' @ [mid_dot, 32] @
     (if filter_is_empty (display a) then show_nat (length (events a)) @ lit '' events ''
      else show_nat (length (visible a)) @ lit ''/'' @ show_nat (length (events a)) @ lit '' matching '')"

definition filter_title :: "'re app \<Rightarrow> rstring" where
  "filter_title a =
     (if filter_text a = [] then lit '' messages ''
      else lit '' messages '' @ [mid_dot] @ lit '' display filter: '' @ filter_text a @ lit '' '')"

definition filter_color :: "'re app \<Rightarrow> color" where
  "filter_color a =
     (if filter_notice a \<noteq> None then Red else if \<not> filter_is_empty (display a) then Yellow else Green)"

definition command_bar :: "'re app \<Rightarrow> text_line" where
  "command_bar a = line_from [(lit '' :'', in_bold Cyan), (command_text a, plain), ([cursor], in_color Cyan)]"

definition footer :: "'re app \<Rightarrow> text_line" where
  "footer a =
     (let toggle = (\<lambda>on. if on then in_color Green else plain) in
      if command_editing a then command_bar a
      else if filter_editing a then
        line_from [(lit '' display filter '' @ [chevron, 32] @ filter_text a @ [cursor],
                    in_color (if filter_notice a \<noteq> None then Red else Yellow)),
                   (case filter_notice a of Some err \<Rightarrow> lit ''  '' @ [warn_sign, 32] @ err | None \<Rightarrow> [], in_color Red)]
      else case command_notice a of
        Some (notice, is_error) \<Rightarrow> styled_line ([32] @ notice) (in_color (if is_error then Red else Green))
      | None \<Rightarrow> line_from
          [(lit '' q quit '' @ [mid_dot] @ lit '' j/k '' @ [0x2191, 0x2193, 32, mid_dot] @ lit '' PgUp/PgDn '' @ [mid_dot]
              @ lit '' g/G top/bottom '' @ [mid_dot] @ lit '' f '', plain),
           (lit ''follow'', toggle (follow a)), ([32, mid_dot] @ lit '' w '', plain), (lit ''wrap'', toggle (wrap a)),
           ([32, mid_dot] @ lit '' r '', plain), (lit ''rich'', toggle (rich a)), ([32, mid_dot] @ lit '' y '', plain),
           (lit ''display filter'', toggle (\<not> filter_is_empty (display a))),
           ([32, mid_dot] @ lit '' / command '' @ [mid_dot] @ lit '' c clear '', plain)])"

text \<open>The banner, its box drawing characters written with ASCII.\<close>

definition box_char :: "char \<Rightarrow> rchar" where
  "box_char c = the (map_of [(CHR ''#'', 0x2588), (CHR ''7'', 0x2557), (CHR ''r'', 0x2554), (CHR ''J'', 0x255D), (CHR ''L'', 0x255A),
     (CHR ''='', 0x2550), (CHR ''|'', 0x2551), (CHR '' '', 32)] c)"

definition BANNER :: "rstring list" where
  "BANNER = map (map box_char)
     [[],
      ''########7 #####7 ######7  ######7 ######7 #######7#######7'',
      ''L==##r==J##r==##7##r==##7##r====J ##r==##7##r====J##r====J'',
      ''   ##|   #######|######rJ##|  ###7######rJ#####7  #######7'',
      ''   ##|   ##r==##|##r===J ##|   ##|##r==##7##r==J  L====##|'',
      ''   ##|   ##|  ##|##|     L######rJ##|  ##|#######7#######|'',
      ''   L=J   L=J  L=JL=J      L=====J L=J  L=JL======JL======J'']"

text \<open>The splash, below the banner.\<close>

definition splash_body :: "'re app \<Rightarrow> text_line list" where
  "splash_body a =
     [styled_line [] plain] @ map (\<lambda>l. styled_line (lit ''  '' @ l) plain) (splash_lines a)
     @ (case command_notice a of
          Some (notice, is_error) \<Rightarrow>
            [styled_line [] plain, styled_line (lit ''  '' @ notice) (in_color (if is_error then Red else Green))]
        | None \<Rightarrow> [])
     @ [styled_line [] plain,
        styled_line (lit ''  waiting for traffic'' @ [ellipsis] @ lit ''  press / for commands '' @ [mid_dot] @ lit '' q to quit'')
          (in_color DarkGray)]"

definition draw_splash :: "'re app \<Rightarrow> text_line list" where
  "draw_splash a = map (\<lambda>art. styled_line art (if art = [] then plain else in_color Cyan)) BANNER @ splash_body a"

subsection \<open>What a byte count shows\<close>

lemma half_even_nearest:
  assumes "0 < d"
  shows "2 * (half_even n d * d) \<le> 2 * n + d" "2 * n \<le> 2 * (half_even n d * d) + d"
proof -
  define q r where "q = n div d" and "r = n mod d"
  have n: "n = q * d + r" "r < d" using assms by (simp_all add: q_def r_def)
  consider "half_even n d = q" "2 * r \<le> d" | "half_even n d = Suc q" "d \<le> 2 * r"
    by (cases "2 * r < d \<or> (2 * r = d \<and> even q)") (auto simp: half_even_def Let_def q_def r_def)
  then have "2 * (half_even n d * d) \<le> 2 * n + d \<and> 2 * n \<le> 2 * (half_even n d * d) + d"
    using n by cases (simp_all add: n(1))
  then show "2 * (half_even n d * d) \<le> 2 * n + d" "2 * n \<le> 2 * (half_even n d * d) + d" by simp_all
qed

lemma abs_of_nat_diff: "2 * (b :: nat) \<le> 2 * a + d \<Longrightarrow> 2 * a \<le> 2 * b + d \<Longrightarrow> 2 * \<bar>int a - int b\<bar> \<le> int d"
  by (simp add: abs_if)

lemma tenths_of_neighbour:
  "2 * \<bar>10 * n - t\<bar> \<le> d \<Longrightarrow> n \<le> v + 1024 \<Longrightarrow> v \<le> n + 1024 \<Longrightarrow> 2 * \<bar>10 * v - t\<bar> \<le> d + 20480" for n :: int
  by (simp add: abs_if split: if_splits)

lemma half_even_one [simp]: "half_even n (Suc 0) = n"
  by (simp add: half_even_def)

lemma f64_excess_small [simp]: "n < 2 ^ 53 \<Longrightarrow> f64_excess n = 0"
  by (simp add: f64_excess.simps)

lemma f64_excess_large: "2 ^ 53 \<le> n \<Longrightarrow> 2 ^ (52 + f64_excess n) \<le> n"
proof (induction n rule: f64_excess.induct)
  case (1 n)
  then have e: "f64_excess n = Suc (f64_excess (n div 2))" by (simp add: f64_excess.simps [of n])
  show ?case
  proof (cases "2 ^ 53 \<le> n div 2")
    case True
    then have "2 ^ (52 + f64_excess (n div 2)) \<le> n div 2" using 1 by simp
    then have "2 * 2 ^ (52 + f64_excess (n div 2)) \<le> n" by linarith
    then show ?thesis by (simp only: e add_Suc_right power_Suc)
  next
    case False
    then show ?thesis using e 1(2) by simp
  qed
qed

lemma f64_of_small: "unat v < 2 ^ 53 \<Longrightarrow> f64_of v = unat v"
  by (simp add: f64_of_def)

lemma f64_of_large:
  assumes "2 ^ 53 \<le> unat v"
  shows "f64_of v \<le> unat v + 1024" "unat v \<le> f64_of v + 1024" "2 ^ 52 \<le> f64_of v"
proof -
  let ?e = "f64_excess (unat v)"
  have "2 ^ (52 + ?e) < (2 :: nat) ^ 64"
    using f64_excess_large [OF assms] unsigned_less [of v, where 'a = nat] by simp
  then have "52 + ?e < 64" by (rule power_less_imp_less_exp [rotated]) simp
  then have "(2 :: nat) ^ ?e \<le> 2 ^ 11" by (intro power_increasing) auto
  then have e: "(2 :: nat) ^ ?e \<le> 2048" by simp
  have "2 * f64_of v \<le> 2 * unat v + 2 ^ ?e" "2 * unat v \<le> 2 * f64_of v + 2 ^ ?e"
    using half_even_nearest [of "2 ^ ?e" "unat v"] by (simp_all add: f64_of_def)
  then show "f64_of v \<le> unat v + 1024" "unat v \<le> f64_of v + 1024" using e by linarith+
  then show "2 ^ 52 \<le> f64_of v" using assms by simp
qed

lemma human_unit_fits:
  "u < 4 \<Longrightarrow> u = 0 \<or> 1024 ^ u \<le> n \<Longrightarrow> human_unit n u < 4 \<and> (human_unit n u = 0 \<or> 1024 ^ human_unit n u \<le> n)
     \<and> (human_unit n u = 3 \<or> n < 1024 ^ Suc (human_unit n u))"
proof (induction n u rule: human_unit.induct)
  case (1 n u)
  show ?case
  proof (cases "1024 ^ Suc u \<le> n \<and> Suc u < length UNITS")
    case True
    then show ?thesis using 1 by (simp add: human_unit.simps [of n u] UNITS_def)
  next
    case False
    then have "human_unit n u = u" by (simp only: human_unit.simps [of n u] if_False)
    then show ?thesis using False 1(2,3) by (auto simp: UNITS_def)
  qed
qed

text \<open>C40. A byte count is shown in the largest of its units that is not more than the count, to the nearest tenth: below 1024 bytes
  the number is exact, up to 2 to the 53 the shown tenths are within half a tenth of the count, and above within half a tenth and
  the 1024 bytes the conversion to a float may lose.\<close>

theorem human_nearest_tenth:
  "\<exists>u t. u < 4 \<and> (u = 0 \<or> 1024 ^ u \<le> unat v) \<and> (u = 3 \<or> unat v < 1024 ^ Suc u)
    \<and> human v = (if u = 0 then show_nat (unat v) @ UNITS ! 0 else show_nat (t div 10) @ [46] @ show_nat (t mod 10) @ UNITS ! u)
    \<and> 2 * \<bar>10 * int (unat v) - int t * 1024 ^ u\<bar> \<le> 1024 ^ u + (if unat v < 2 ^ 53 then 0 else 20480)"
proof -
  define n u where "n = f64_of v" and "u = human_unit n 0"
  have u: "u < 4" "u = 0 \<or> 1024 ^ u \<le> n" "u = 3 \<or> n < 1024 ^ Suc u"
    using human_unit_fits [of 0 n] by (simp_all add: u_def)
  have "2 * (tenths n u * 1024 ^ u) \<le> 2 * (10 * n) + 1024 ^ u" "2 * (10 * n) \<le> 2 * (tenths n u * 1024 ^ u) + 1024 ^ u"
    using half_even_nearest [of "1024 ^ u" "10 * n"] by (simp_all add: tenths_def)
  then have "2 * \<bar>int (10 * n) - int (tenths n u * 1024 ^ u)\<bar> \<le> int (1024 ^ u)" by (rule abs_of_nat_diff)
  then have near: "2 * \<bar>10 * int n - int (tenths n u) * 1024 ^ u\<bar> \<le> 1024 ^ u" by simp
  have shown: "human v = (if u = 0 then show_nat n @ UNITS ! 0 else show_nat (tenths n u div 10) @ [46] @ show_nat (tenths n u mod 10) @ UNITS ! u)"
    by (simp add: human_def Let_def n_def u_def)
  show ?thesis
  proof (cases "unat v < 2 ^ 53")
    case True
    then show ?thesis
      using u near shown f64_of_small [OF True] by - (rule exI [of _ u], rule exI [of _ "tenths n u"], simp add: n_def)
  next
    case False
    then have l: "n \<le> unat v + 1024" "unat v \<le> n + 1024" "2 ^ 52 \<le> n" "2 ^ 53 \<le> unat v" using f64_of_large [of v] by (simp_all add: n_def)
    have "u = 3"
    proof (rule ccontr)
      assume "u \<noteq> 3"
      then have "n < 1024 ^ Suc u" "Suc u \<le> 3" using u by auto
      then have "n < 1024 ^ 3" using power_increasing [of "Suc u" 3 "1024 :: nat"] by simp
      then show False using l(3) by simp
    qed
    then have three: "2 * \<bar>10 * int n - int (tenths n 3) * 1024 ^ 3\<bar> \<le> 1024 ^ 3"
      "human v = show_nat (tenths n 3 div 10) @ [46] @ show_nat (tenths n 3 mod 10) @ UNITS ! 3"
      using near shown by simp_all
    have "2 * \<bar>10 * int (unat v) - int (tenths n 3) * 1024 ^ 3\<bar> \<le> 1024 ^ 3 + 20480"
      by (rule tenths_of_neighbour [OF three(1)]) (use l(1,2) in linarith)+
    moreover have "1024 ^ 3 \<le> unat v" using l(4) by simp
    ultimately show ?thesis
      using three(2) False by - (rule exI [of _ 3], rule exI [of _ "tenths n 3"], simp)
  qed
qed

text \<open>Rounding may reach the next unit: one byte short of a MiB is shown as 1024.0KiB.\<close>

lemma human_rounds_past_unit: "human 1048575 = lit ''1024.0KiB'' \<and> human 1048576 = lit ''1.0MiB''"
  by (simp add: human_def Let_def f64_of_def human_unit.simps UNITS_def tenths_def half_even_def str_simps show_nat.simps)

end
