(* ===== verification/Tui_View.thy ===== *)
theory Tui_View
  imports Tui_Header
begin

text \<open>
  What the interactive view draws (\<open>src/tui.rs\<close>): the window of events that fits, the lines of an event with their
  colours, the header and the footer; and the turn of the loop, which draws (\<open>loop_turn\<close>). A line is a list of spans, text with a colour and weight.

  Strings are indexed by bytes as in the source: a slice off a character boundary is a panic, \<open>None\<close>. Parameters are how
  many rows the terminal library gives wrapped lines (\<open>line_count\<close>). The layout of the screen is not modelled.
\<close>

subsection \<open>Strings by byte positions\<close>

fun split_bytes :: "rstring \<Rightarrow> nat \<Rightarrow> (rstring \<times> rstring) run" where
  "split_bytes [] n = (if n = 0 then Some ([], []) else None)"
| "split_bytes (c # s) n =
     (if n = 0 then Some ([], c # s)
      else if n < len_utf8 c then None
      else map_option (map_prod ((#) c) id) (split_bytes s (n - len_utf8 c)))"

definition byte_slice :: "rstring \<Rightarrow> nat \<Rightarrow> nat \<Rightarrow> rstring run" where
  "byte_slice s a b =
     (if b < a then None
      else do { (l, r) \<leftarrow> split_bytes s b; (p, q) \<leftarrow> split_bytes l a; Some q })"

fun find_bytes :: "rstring \<Rightarrow> rstring \<Rightarrow> nat option" where
  "find_bytes n [] = (if n = [] then Some 0 else None)"
| "find_bytes n (c # s) = (if is_prefix n (c # s) then Some 0 else map_option ((+) (len_utf8 c)) (find_bytes n s))"

subsection \<open>The parts of a line\<close>

definition direction_split :: "rstring \<Rightarrow> (color \<times> nat \<times> nat) option" where
  "direction_split line =
     (case find_bytes (bracket (dir_tag Client)) line of
        Some start \<Rightarrow> Some (Cyan, start, start + utf8_len (bracket (dir_tag Client)))
      | None \<Rightarrow>
          (case find_bytes (bracket (dir_tag Server)) line of
             Some start \<Rightarrow> Some (Magenta, start, start + utf8_len (bracket (dir_tag Server)))
           | None \<Rightarrow> None))"

record line_parts =
  lp_color :: color
  prefix_end :: nat
  tag_end :: nat
  kind_start :: nat
  kind_end :: nat

definition parse_line :: "rstring \<Rightarrow> line_parts option run" where
  "parse_line line =
     (case direction_split line of
        None \<Rightarrow> Some None
      | Some (color, pend, tend) \<Rightarrow>
          (let kstart = min (tend + 1) (utf8_len line) in do {
            rest \<leftarrow> byte_slice line kstart (utf8_len line);
            let kend = (case find_bytes (lit '': '') rest of Some p \<Rightarrow> kstart + p | None \<Rightarrow> utf8_len line);
            Some (Some \<lparr> lp_color = color, prefix_end = pend, tag_end = tend, kind_start = kstart, kind_end = kend \<rparr>) }))"

definition head_spans :: "rstring \<Rightarrow> line_parts \<Rightarrow> (rstring \<times> style) list run" where
  "head_spans line p = do {
     prefix \<leftarrow> byte_slice line 0 (prefix_end p);
     tag \<leftarrow> byte_slice line (prefix_end p) (tag_end p);
     gap \<leftarrow> byte_slice line (tag_end p) (kind_start p);
     kind \<leftarrow> byte_slice line (kind_start p) (kind_end p);
     Some [(prefix, in_color DarkGray), (tag, in_bold (lp_color p)), (gap, plain), (kind, in_bold (lp_color p))] }"

definition build_line :: "rstring \<Rightarrow> text_line run" where
  "build_line line =
     (if str_contains line [warn_sign] then Some (styled_line line (in_color Red))
      else if str_contains line (lit ''==='') then Some (styled_line line (in_color Yellow))
      else do {
        parts \<leftarrow> parse_line line;
        case parts of
          None \<Rightarrow> Some (styled_line line plain)
        | Some p \<Rightarrow> do {
            spans \<leftarrow> head_spans line p;
            rest \<leftarrow> byte_slice line (kind_end p) (utf8_len line);
            Some (line_from (spans @ [(rest, plain)])) } })"

definition build_header_line :: "rstring \<Rightarrow> text_line run" where
  "build_header_line line = do {
     parts \<leftarrow> parse_line line;
     case parts of
       None \<Rightarrow> Some (styled_line line plain)
     | Some p \<Rightarrow> map_option line_from (head_spans line p) }"

subsection \<open>Types\<close>

definition type_name :: "nat \<Rightarrow> rstring option" where
  "type_name oid = map_of
     [(16, lit ''bool''), (17, lit ''bytea''), (18, lit ''char''), (19, lit ''name''), (20, lit ''int8''), (21, lit ''int2''),
      (23, lit ''int4''), (25, lit ''text''), (114, lit ''json''), (700, lit ''float4''), (701, lit ''float8''),
      (1043, lit ''varchar''), (1082, lit ''date''), (1114, lit ''timestamp''), (1184, lit ''timestamptz''),
      (1186, lit ''interval''), (1700, lit ''numeric''), (2950, lit ''uuid''), (3802, lit ''jsonb'')] oid"

definition type_label :: "u32 \<Rightarrow> rstring" where
  "type_label oid = (case type_name (unat oid) of Some nm \<Rightarrow> nm | None \<Rightarrow> lit ''oid='' @ show_nat (unat oid))"

definition type_icon :: "u32 \<Rightarrow> (rchar \<times> color) option" where
  "type_icon oid =
     (let n = unat oid in
      if n = 16 then Some (0xf00c, Green)
      else if n \<in> set [20, 21, 23] then Some (0xf292, Yellow)
      else if n \<in> set [700, 701, 1700] then Some (0xf1ec, Yellow)
      else if n \<in> set [18, 19, 25, 1042, 1043] then Some (0xf031, Cyan)
      else if n \<in> set [114, 3802] then Some (0xf121, Magenta)
      else if n = 2950 then Some (0xf577, Magenta)
      else if n = 17 then Some (0xf1c0, Green)
      else if n = 1082 then Some (0xf073, Cyan)
      else if n \<in> set [1083, 1114, 1184, 1186, 1266] then Some (0xf017, Cyan)
      else None)"

definition type_spans :: "u32 \<Rightarrow> (rstring \<times> style) list" where
  "type_spans oid =
     (case type_icon oid of Some (g, c) \<Rightarrow> [([g], in_color c), (lit '' '', plain)] | None \<Rightarrow> [])
     @ [(type_label oid, in_color DarkGray)]"

subsection \<open>Events\<close>

fun detail_lines :: "event_detail \<Rightarrow> text_line list" where
  "detail_lines (DataRowDetail cols) = map (\<lambda>c. line_from
     ([(lit ''   '', plain), (dc_name c, in_bold Blue), (lit '' = '', plain), (dc_value c, plain), (lit ''  '', plain)]
      @ type_spans (dc_type_oid c))) cols"
| "detail_lines (RowDescriptionDetail fds) = map (\<lambda>f. line_from
     ([(lit ''   '', plain), (fs_name f, in_bold Blue), (lit ''  '', plain)] @ type_spans (fs_type_oid f))) fds"

definition render_rich :: "rstring \<Rightarrow> event_detail \<Rightarrow> text_line list run" where
  "render_rich s detail = map_option (\<lambda>h. h # detail_lines detail) (build_header_line s)"

record view =
  v_rich :: bool
  v_wrap :: bool

definition event_lines :: "output_record \<Rightarrow> view \<Rightarrow> text_line list run" where
  "event_lines evt v =
     (case (if v_rich v then output_detail evt else None) of
        Some detail \<Rightarrow> render_rich (rendered evt) detail
      | None \<Rightarrow> map_option (\<lambda>l. [l]) (build_line (rendered evt)))"

fun detail_rows :: "event_detail \<Rightarrow> nat" where
  "detail_rows (DataRowDetail cols) = length cols"
| "detail_rows (RowDescriptionDetail fds) = length fds"

definition event_height :: "(text_line list \<Rightarrow> nat \<Rightarrow> nat) \<Rightarrow> output_record \<Rightarrow> nat \<Rightarrow> view \<Rightarrow> nat run" where
  "event_height line_count evt width v =
     (if v_wrap v then map_option (\<lambda>ls. max (line_count ls (width mod 2 ^ 16)) 1) (event_lines evt v)
      else if v_rich v then
        Some (case output_detail evt of Some detail \<Rightarrow> 1 + detail_rows detail | None \<Rightarrow> 1)
      else Some 1)"

subsection \<open>The window\<close>

text \<open>The loops of \<open>view_window\<close>: events are taken in order while they fit, \<open>mark\<close> is the bound the last one taken gives.\<close>

fun fill_rows ::
    "(output_record \<Rightarrow> nat run) \<Rightarrow> output_record list \<Rightarrow> nat \<Rightarrow> (nat \<Rightarrow> nat) \<Rightarrow> (nat \<times> nat) list \<Rightarrow> nat \<Rightarrow> nat \<Rightarrow> nat run" where
  "fill_rows height evs log_h mark [] rows bound = Some bound"
| "fill_rows height evs log_h mark ((i, event_index) # rest) rows bound = do {
     evt \<leftarrow> idx evs event_index;
     h \<leftarrow> height evt;
     if rows \<noteq> 0 \<and> log_h < rows + h then Some bound
     else if log_h \<le> rows + h then Some (mark i)
     else fill_rows height evs log_h mark rest (rows + h) (mark i) }"

definition view_window ::
    "(text_line list \<Rightarrow> nat \<Rightarrow> nat) \<Rightarrow> output_record list \<Rightarrow> nat list \<Rightarrow> nat \<Rightarrow> bool \<Rightarrow> nat \<Rightarrow> nat \<Rightarrow> view \<Rightarrow> (nat \<times> nat) run" where
  "view_window line_count evs vis scr fol log_h width v =
     (let n = length vis; height = (\<lambda>evt. event_height line_count evt width v) in
      if n = 0 then Some (0, 0)
      else if fol then map_option (\<lambda>start. (start, n)) (fill_rows height evs log_h id (rev (enumerate 0 vis)) 0 n)
      else map_option (Pair scr) (fill_rows height evs log_h Suc (drop scr (enumerate 0 vis)) 0 scr))"

definition draw_window :: "(text_line list \<Rightarrow> nat \<Rightarrow> nat) \<Rightarrow> nat \<Rightarrow> nat \<Rightarrow> 're app \<Rightarrow> (nat \<times> nat) run" where
  "draw_window line_count log_h inner_w a =
     (if wrap a \<or> rich a
      then view_window line_count (events a) (visible a) (scroll a) (follow a) log_h inner_w \<lparr> v_rich = rich a, v_wrap = wrap a \<rparr>
      else Some (scroll a, min (scroll a + log_h) (length (visible a))))"

definition draw_body :: "(text_line list \<Rightarrow> nat \<Rightarrow> nat) \<Rightarrow> nat \<Rightarrow> nat \<Rightarrow> 're app \<Rightarrow> text_line list run" where
  "draw_body line_count log_h inner_w a = do {
     (start, end') \<leftarrow> draw_window line_count log_h inner_w a;
     shown \<leftarrow> slice (visible a) start end';
     evts \<leftarrow> idxs (events a) shown;
     map_option concat (those (map (\<lambda>evt. event_lines evt \<lparr> v_rich = rich a, v_wrap = wrap a \<rparr>) evts)) }"

subsection \<open>Frames\<close>

text \<open>What a frame shows: the splash, with the command bar over it, or the header, the log and the footer.\<close>

datatype screen =
    SplashScreen "text_line list" "text_line option"
  | MainScreen rstring header_view rstring color "text_line list" text_line

definition draw_frame :: "(text_line list \<Rightarrow> nat \<Rightarrow> nat) \<Rightarrow> nat \<Rightarrow> nat \<Rightarrow> 're app \<Rightarrow> screen run" where
  "draw_frame line_count log_h inner_w a =
     (if show_splash a then Some (SplashScreen (draw_splash a) (if command_editing a then Some (command_bar a) else None))
      else map_option (\<lambda>body. MainScreen (heading a) (header_of a) (filter_title a) (filter_color a) body (footer a))
           (draw_body line_count log_h inner_w a))"

text \<open>One turn of the loop: the screen that is drawn, whether it quits, and the state after the keys. A panic of the drawing ends it.\<close>

definition loop_turn ::
    "('re, 'v) tui_env \<Rightarrow> (text_line list \<Rightarrow> nat \<Rightarrow> nat) \<Rightarrow> nat \<Rightarrow> nat \<Rightarrow> key_event list \<Rightarrow> 're app \<times> world
      \<Rightarrow> (screen \<times> bool \<times> 're app \<times> world) run" where
  "loop_turn te line_count inner_w term_h keys aw = do {
     let (a, w) = prepare_frame te term_h aw;
     drawn \<leftarrow> draw_frame line_count (log_height term_h) inner_w a;
     (quit, aw) \<leftarrow> handle_keys te (log_height term_h) keys (a, w);
     Some (drawn, quit, aw) }"

lemma loop_turn_reachable:
  assumes "tui_reachable te aw" "loop_turn te line_count inner_w h ks aw = Some (drawn, quit, aw')"
  shows "tui_reachable te aw'"
  using assms by (auto simp: loop_turn_def Let_def split_beta bind_eq_Some_conv intro: turned)

text \<open>The keys never panic, so a turn does exactly what its drawing does.\<close>

lemma loop_turn_draws:
  assumes "tui_reachable te (a, w)" "prepare_frame te h (a, w) = (d, w1)"
  shows "map_option fst (loop_turn te line_count inner_w h ks (a, w)) = draw_frame line_count (log_height h) inner_w d"
proof -
  obtain quit a' w' where "handle_keys te (log_height h) ks (d, w1) = Some (quit, a', w')"
    using turn_ok [OF reachable_app_ok [OF assms(1), simplified], of h w ks] assms(2) by auto
  then show ?thesis
    by (cases "draw_frame line_count (log_height h) inner_w d") (simp_all add: loop_turn_def assms(2))
qed

subsection \<open>Byte positions\<close>

lemma split_bytes_0 [simp]: "split_bytes s 0 = Some ([], s)"
  by (cases s) simp_all

lemma split_bytes_append [simp]: "split_bytes (x @ y) (utf8_len x) = Some (x, y)"
proof (induction x)
  case (Cons c x)
  then show ?case using len_utf8_pos [of c] by simp
qed simp

lemma split_bytes_all [simp]: "split_bytes s (utf8_len s) = Some (s, [])"
  using split_bytes_append [of s "[]"] by simp

lemma byte_slice_mid:
  assumes "a = utf8_len x" "b = utf8_len x + utf8_len y"
  shows "byte_slice (x @ y @ z) a b = Some y"
  using split_bytes_append [of "x @ y" z] by (simp add: byte_slice_def assms)

lemma split_bytes_inside:
  assumes "1 < len_utf8 c"
  shows "split_bytes (x @ c # y) (utf8_len x + 1) = None"
proof (induction x)
  case Nil
  then show ?case using assms by simp
next
  case (Cons b x)
  then show ?case using len_utf8_pos [of b] by simp
qed

lemma find_bytes_Some: "find_bytes n s = Some k \<Longrightarrow> \<exists>x y. s = x @ n @ y \<and> k = utf8_len x"
proof (induction n s arbitrary: k rule: find_bytes.induct)
  case (1 n)
  then show ?case by (auto split: if_splits)
next
  case (2 n c s)
  show ?case
  proof (cases "is_prefix n (c # s)")
    case True
    then obtain y where "c # s = n @ y" by (auto simp: is_prefix_iff)
    moreover have "k = 0" using 2(2) True by simp
    ultimately show ?thesis by (intro exI [of _ "[]"] exI [of _ y]) simp
  next
    case False
    then obtain j where j: "find_bytes n s = Some j" "k = len_utf8 c + j" using 2(2) by auto
    then obtain x y where "s = x @ n @ y" "j = utf8_len x" using 2(1) [OF False] by blast
    then show ?thesis using j by (intro exI [of _ "c # x"] exI [of _ y]) simp
  qed
qed

lemma find_bytes_None: "find_bytes n s = None \<longleftrightarrow> \<not> str_contains s n"
  by (induction n s rule: find_bytes.induct) auto

subsection \<open>The rows an event takes\<close>

lemma detail_rows_lines: "length (detail_lines d) = detail_rows d"
  by (cases d) simp_all

text \<open>Without wrapping the height that is counted is the number of lines that are drawn.\<close>

lemma event_height_lines:
  assumes "event_lines evt v = Some ls" "\<not> v_wrap v"
  shows "event_height line_count evt width v = Some (length ls)"
  using assms
  by (cases "v_rich v"; cases "output_detail evt")
     (auto simp: event_height_def event_lines_def render_rich_def detail_rows_lines)

lemma event_lines_not_Nil: "event_lines evt v = Some ls \<Longrightarrow> ls \<noteq> []"
  by (auto simp: event_lines_def render_rich_def split: if_splits option.splits)

lemma event_height_pos:
  assumes "event_lines evt v \<noteq> None"
  shows "\<exists>h. event_height line_count evt width v = Some h \<and> 0 < h"
proof -
  obtain ls where ls: "event_lines evt v = Some ls" using assms by auto
  show ?thesis
  proof (cases "v_wrap v")
    case True
    then show ?thesis by (simp add: event_height_def ls)
  next
    case False
    then show ?thesis using event_height_lines [OF ls] event_lines_not_Nil [OF ls] by simp
  qed
qed

subsection \<open>The window fits\<close>

lemma fill_rows_fits:
  assumes "\<forall>(i, e) \<in> set items. e < length evs \<and> height (evs ! e) = Some (H e) \<and> 0 < H e" "rows < log_h"
  shows "\<exists>k \<le> length items. fill_rows height evs log_h mark items rows bound
      = Some (if k = 0 then bound else mark (fst (items ! (k - 1))))
    \<and> (rows + sum_list (map (\<lambda>p. H (snd p)) (take k items)) \<le> log_h \<or> rows = 0 \<and> k = 1)
    \<and> (k = length items \<or> log_h < rows + sum_list (map (\<lambda>p. H (snd p)) (take (Suc k) items)))
    \<and> (k = 0 \<longrightarrow> items = [] \<or> rows \<noteq> 0)"
  using assms
proof (induction items arbitrary: rows bound)
  case (Cons it items)
  obtain i e where it: "it = (i, e)" by (cases it)
  have e: "idx evs e = Some (evs ! e)" "height (evs ! e) = Some (H e)" "0 < H e"
    using Cons.prems(1) by (auto simp: it idx_def)
  consider "rows \<noteq> 0 \<and> log_h < rows + H e" | "\<not> (rows \<noteq> 0 \<and> log_h < rows + H e)" "log_h \<le> rows + H e" | "rows + H e < log_h"
    by linarith
  then show ?case
  proof cases
    case 1
    then show ?thesis using Cons.prems(2) by (intro exI [of _ 0]) (simp add: it e)
  next
    case 2
    have "items = [] \<or> log_h < rows + (H e + sum_list (map (\<lambda>p. H (snd p)) (take 1 items)))"
      using 2(2) Cons.prems(1) by (cases items) (auto simp: it)
    then show ?thesis using 2 by (intro exI [of _ 1]) (auto simp: it e)
  next
    case 3
    obtain k where k: "k \<le> length items"
      "fill_rows height evs log_h mark items (rows + H e) (mark i) = Some (if k = 0 then mark i else mark (fst (items ! (k - 1))))"
      "rows + H e + sum_list (map (\<lambda>p. H (snd p)) (take k items)) \<le> log_h \<or> rows + H e = 0 \<and> k = 1"
      "k = length items \<or> log_h < rows + H e + sum_list (map (\<lambda>p. H (snd p)) (take (Suc k) items))"
      using Cons.IH [of "rows + H e" "mark i"] Cons.prems(1) 3 by auto
    have "fill_rows height evs log_h mark (it # items) rows bound = Some (mark (fst ((it # items) ! k)))"
      using 3 k(2) by (cases k) (simp_all add: it e)
    then show ?thesis using k e(3) by (intro exI [of _ "Suc k"]) (auto simp: it add.assoc)
  qed
qed simp

text \<open>A window \<open>[s, e)\<close> that fits: it is not empty, its rows fit or it is a single event, and it could not hold one more.\<close>

definition fits :: "(nat \<Rightarrow> nat) \<Rightarrow> nat list \<Rightarrow> nat \<Rightarrow> bool \<Rightarrow> nat \<Rightarrow> nat \<Rightarrow> bool" where
  "fits H vis log_h fol s e \<longleftrightarrow> s < e \<and> e \<le> length vis \<and> (fol \<longrightarrow> e = length vis)
     \<and> (sum_list (map H (take (e - s) (drop s vis))) \<le> log_h \<or> e = Suc s)
     \<and> (if fol then s = 0 \<or> log_h < sum_list (map H (drop (s - 1) vis))
        else e = length vis \<or> log_h < sum_list (map H (take (Suc e - s) (drop s vis))))"

lemma in_enumerate: "(i, e) \<in> set (enumerate n xs) \<Longrightarrow> e \<in> set xs"
  by (metis imageI map_snd_enumerate set_map snd_conv)

lemma view_window_follow:
  assumes "\<forall>e \<in> set vis. e < length evs \<and> event_height lc (evs ! e) width v = Some (H e) \<and> 0 < H e" "0 < log_h" "vis \<noteq> []"
  shows "\<exists>s e. view_window lc evs vis scr True log_h width v = Some (s, e) \<and> fits H vis log_h True s e"
proof -
  let ?n = "length vis" and ?items = "rev (enumerate 0 vis)"
  have "\<forall>(i, e) \<in> set ?items. e < length evs \<and> event_height lc (evs ! e) width v = Some (H e) \<and> 0 < H e"
    using assms(1) by (auto dest!: in_enumerate)
  from fill_rows_fits [where height = "\<lambda>evt. event_height lc evt width v", OF this assms(2), of id ?n]
  obtain k where k': "k \<le> length ?items"
    "fill_rows (\<lambda>evt. event_height lc evt width v) evs log_h id ?items 0 ?n = Some (if k = 0 then ?n else id (fst (?items ! (k - 1))))"
    "0 + sum_list (map (\<lambda>p. H (snd p)) (take k ?items)) \<le> log_h \<or> (0 :: nat) = 0 \<and> k = 1"
    "k = length ?items \<or> log_h < 0 + sum_list (map (\<lambda>p. H (snd p)) (take (Suc k) ?items))" "k = 0 \<longrightarrow> ?items = [] \<or> (0 :: nat) \<noteq> 0"
    by (elim exE conjE)
  have sums: "sum_list (map (\<lambda>p. H (snd p)) (take j ?items)) = sum_list (map H (drop (?n - j) vis))" for j
  proof -
    have "map snd (take j ?items) = rev (drop (?n - j) vis)"
      by (simp add: take_rev drop_map [symmetric] rev_map [symmetric] flip: drop_map)
    then have "map H (map snd (take j ?items)) = rev (map H (drop (?n - j) vis))" by (simp add: rev_map)
    then have "map (\<lambda>p. H (snd p)) (take j ?items) = rev (map H (drop (?n - j) vis))" by (simp add: comp_def)
    then show ?thesis by (simp add: sum_list_rev)
  qed
  have items: "?items \<noteq> []" using assms(3) by (cases vis) simp_all
  have k: "k \<le> ?n" "sum_list (map H (drop (?n - k) vis)) \<le> log_h \<or> k = 1"
    "k = ?n \<or> log_h < sum_list (map H (drop (?n - Suc k) vis))" "k \<noteq> 0"
    using k'(1,3,4,5) items unfolding sums by simp_all
  have "fst (?items ! (k - 1)) = ?n - k" using k(1,4) by (simp add: rev_nth nth_enumerate_eq)
  then have w: "view_window lc evs vis scr True log_h width v = Some (?n - k, ?n)"
    using k'(2) k(4) assms(3) by (simp add: view_window_def Let_def)
  have "?n - Suc k = ?n - k - 1" by simp
  then have "fits H vis log_h True (?n - k) ?n"
    using k by (auto simp: fits_def)
  then show ?thesis using w by simp
qed

lemma view_window_scroll:
  assumes "\<forall>e \<in> set vis. e < length evs \<and> event_height lc (evs ! e) width v = Some (H e) \<and> 0 < H e" "0 < log_h" "vis \<noteq> []"
    and "scr < length vis"
  shows "\<exists>s e. view_window lc evs vis scr False log_h width v = Some (s, e) \<and> fits H vis log_h False s e \<and> s = scr"
proof -
  let ?n = "length vis" and ?items = "drop scr (enumerate 0 vis)"
  have scr: "scr < ?n" using assms(4) by simp
  have "\<forall>(i, e) \<in> set ?items. e < length evs \<and> event_height lc (evs ! e) width v = Some (H e) \<and> 0 < H e"
    using assms(1) by (auto dest!: in_set_dropD in_enumerate)
  from fill_rows_fits [where height = "\<lambda>evt. event_height lc evt width v", OF this assms(2), of Suc scr]
  obtain k where k': "k \<le> length ?items"
    "fill_rows (\<lambda>evt. event_height lc evt width v) evs log_h Suc ?items 0 scr = Some (if k = 0 then scr else Suc (fst (?items ! (k - 1))))"
    "0 + sum_list (map (\<lambda>p. H (snd p)) (take k ?items)) \<le> log_h \<or> (0 :: nat) = 0 \<and> k = 1"
    "k = length ?items \<or> log_h < 0 + sum_list (map (\<lambda>p. H (snd p)) (take (Suc k) ?items))" "k = 0 \<longrightarrow> ?items = [] \<or> (0 :: nat) \<noteq> 0"
    by (elim exE conjE)
  have sums: "sum_list (map (\<lambda>p. H (snd p)) (take j ?items)) = sum_list (map H (take j (drop scr vis)))" for j
  proof -
    have "map snd (take j ?items) = take j (drop scr vis)" by (simp flip: take_map drop_map)
    then have "map H (map snd (take j ?items)) = map H (take j (drop scr vis))" by simp
    then show ?thesis by (simp add: comp_def)
  qed
  have k: "k \<le> ?n - scr" "sum_list (map H (take k (drop scr vis))) \<le> log_h \<or> k = 1"
    "k = ?n - scr \<or> log_h < sum_list (map H (take (Suc k) (drop scr vis)))" "k \<noteq> 0"
    using k'(1,3,4,5) scr unfolding sums by simp_all
  have "Suc (fst (?items ! (k - 1))) = scr + k" using k(1,4) by (simp add: nth_enumerate_eq)
  then have w: "view_window lc evs vis scr False log_h width v = Some (scr, scr + k)"
    using k'(2) k(4) assms(3) by (simp add: view_window_def Let_def)
  have "Suc (scr + k) - scr = Suc k" by simp
  then have "fits H vis log_h False scr (scr + k)"
    using k scr by (auto simp: fits_def)
  then show ?thesis using w by simp
qed

lemma view_window_fits:
  assumes "\<forall>e \<in> set vis. e < length evs \<and> event_height lc (evs ! e) width v = Some (H e) \<and> 0 < H e" "0 < log_h" "vis \<noteq> []"
    and "\<not> fol \<longrightarrow> scr < length vis"
  shows "\<exists>s e. view_window lc evs vis scr fol log_h width v = Some (s, e) \<and> fits H vis log_h fol s e \<and> (\<not> fol \<longrightarrow> s = scr)"
proof (cases fol)
  case True
  then show ?thesis using view_window_follow [OF assms(1-3)] by simp
next
  case False
  then show ?thesis using view_window_scroll [OF assms(1-3)] assms(4) by simp
qed

subsection \<open>Where the tag of a line is\<close>

lemma bracket_tag: "bracket (dir_tag Client) = [91, 70, arrow, 66, 93]" "bracket (dir_tag Server) = [91, 66, arrow, 70, 93]"
  by (simp_all add: bracket_def)

lemma hd_bracket [simp]: "hd (bracket s @ u) = 91"
  by (simp add: bracket_def)

lemma tag_length: "utf8_len (bracket (dir_tag r)) = 7"
  by (cases r) (simp_all add: bracket_def len_utf8_def arrow_def)

text \<open>Nothing before the first arrow and the bracket that opens a tag is taken for one.\<close>

lemma find_bytes_skip:
  assumes "arrow \<notin> set p" "s = [] \<or> hd s = 91"
  shows "find_bytes (bracket (dir_tag r)) (p @ s) = map_option ((+) (utf8_len p)) (find_bytes (bracket (dir_tag r)) s)"
  using assms(1)
proof (induction p)
  case (Cons c p)
  have "\<not> is_prefix (bracket (dir_tag r)) (c # p @ s)"
  proof -
    have "p = [] \<or> (\<exists>b. p = [b]) \<or> (\<exists>b b' q. p = b # b' # q)" by (metis list.exhaust)
    then show ?thesis
      using Cons.prems assms(2) by (cases s; cases r) (auto simp: bracket_def arrow_def)
  qed
  then show ?case using Cons by (simp add: option.map_comp comp_def add.assoc)
qed (cases "find_bytes (bracket (dir_tag r)) s"; simp)

lemma find_bytes_here: "find_bytes (bracket (dir_tag r)) (bracket (dir_tag r) @ s) = Some 0"
  by (cases r) (simp_all add: bracket_def)

lemma find_client_after_server:
  "find_bytes (bracket (dir_tag Client)) (bracket (dir_tag Server) @ s)
     = map_option ((+) 7) (find_bytes (bracket (dir_tag Client)) s)"
  by (simp add: bracket_def arrow_def len_utf8_def option.map_comp comp_def)

text \<open>A multi-byte character right after the first client tag of a line is a panic.\<close>

lemma parse_line_panics:
  assumes "find_bytes (bracket (dir_tag Client)) (x @ bracket (dir_tag Client) @ c # y) = Some (utf8_len x)" "1 < len_utf8 c"
  shows "parse_line (x @ bracket (dir_tag Client) @ c # y) = None"
proof -
  let ?line = "x @ bracket (dir_tag Client) @ c # y" and ?k = "utf8_len (x @ bracket (dir_tag Client)) + 1"
  have "min ?k (utf8_len ?line) = ?k" using assms(2) by simp
  moreover have "split_bytes ?line ?k = None"
    using split_bytes_inside [OF assms(2), of "x @ bracket (dir_tag Client)" y] by simp
  then have "byte_slice ?line ?k (utf8_len ?line) = None"
    using split_bytes_all [of ?line] by (simp add: byte_slice_def del: utf8_len_append split_bytes_all)
  ultimately show ?thesis
    using assms(1) by (simp add: parse_line_def direction_split_def Let_def add.assoc)
qed

subsection \<open>Properties\<close>

lemma find_separator:
  assumes "58 \<notin> set kind" "rest = [] \<or> (\<exists>tx. rest = lit '': '' @ tx)"
  shows "find_bytes (lit '': '') (kind @ rest) = (if rest = [] then None else Some (utf8_len kind))"
  using assms
proof (induction kind)
  case Nil
  then show ?case by (auto simp: str_simps)
next
  case (Cons k kind)
  then show ?case by (auto simp: str_simps)
qed

lemma those_None: "None \<in> set xs \<Longrightarrow> those xs = None"
  by (induction xs) (auto split: option.split)

lemma idxs_nth: "idxs xs is = Some ys \<Longrightarrow> ys = map ((!) xs) is"
  by (induction "is" arbitrary: ys) (auto simp: idxs_def idx_def split: option.splits if_splits)

lemma those_map_Some: "\<forall>x \<in> set xs. f x \<noteq> None \<Longrightarrow> those (map f xs) = Some (map (the \<circ> f) xs)"
  by (induction xs) (auto split: option.split)

lemma draw_window_fits:
  assumes "frame_ok te log_h d" "0 < log_h" "visible d \<noteq> []" "v = \<lparr> v_rich = rich d, v_wrap = wrap d \<rparr>"
    and "\<forall>i \<in> set (visible d). i < length (events d) \<and> event_height line_count (events d ! i) width v = Some (H i) \<and> 0 < H i"
  shows "\<exists>s e. draw_window line_count log_h width d = Some (s, e) \<and> fits H (visible d) log_h (follow d) s e"
proof -
  let ?vis = "visible d"
  have scr: "scroll d \<le> max_scroll log_h d" "follow d \<longrightarrow> scroll d = max_scroll log_h d"
    using assms(1) by (simp_all add: frame_ok_def)
  have len: "0 < length ?vis" using assms(3) by simp
  have "max_scroll log_h d \<le> length ?vis - 1"
    using assms(2) diff_le_mono2 [of 1 log_h "length ?vis"] by (simp add: max_scroll_def)
  then have inside: "scroll d < length ?vis" using scr(1) len by linarith
  show ?thesis
  proof (cases "wrap d \<or> rich d")
    case True
    from view_window_fits [OF assms(5,2,3), of "follow d" "scroll d"] inside show ?thesis
      using True by (auto simp: draw_window_def assms(4))
  next
    case False
    then have "H i = 1" if "i \<in> set ?vis" for i
      using assms(5) that by (auto simp: event_height_def assms(4))
    then have one: "sum_list (map H xs) = length xs" if "set xs \<subseteq> set ?vis" for xs
      using that by (induction xs) auto
    have sub: "set (take i (drop j ?vis)) \<subseteq> set ?vis" "set (drop j ?vis) \<subseteq> set ?vis" for i j
      by (meson in_set_dropD in_set_takeD subsetI)+
    have "fits H ?vis log_h (follow d) (scroll d) (min (scroll d + log_h) (length ?vis))"
      using scr False inside assms(2) one [OF sub(1)] one [OF sub(2)] by (auto simp: fits_def max_scroll_def)
    then show ?thesis using False by (simp add: draw_window_def)
  qed
qed

lemma draw_body_lines:
  assumes "draw_window line_count log_h width d = Some (s, e)" "s \<le> e" "e \<le> length (visible d)"
    and "v = \<lparr> v_rich = rich d, v_wrap = wrap d \<rparr>"
    and "\<forall>i \<in> set (visible d). i < length (events d) \<and> event_lines (events d ! i) v \<noteq> None"
  shows "draw_body line_count log_h width d
    = Some (concat (map (\<lambda>i. the (event_lines (events d ! i) v)) (take (e - s) (drop s (visible d)))))"
proof -
  let ?shown = "take (e - s) (drop s (visible d))"
  have sub: "set ?shown \<subseteq> set (visible d)" by (meson in_set_dropD in_set_takeD subsetI)
  have "idxs (events d) ?shown = Some (map ((!) (events d)) ?shown)" using assms(5) sub by (intro idxs_Some) auto
  moreover have "\<forall>i \<in> set ?shown. event_lines (events d ! i) v \<noteq> None" using assms(5) sub by blast
  then have "those (map (\<lambda>evt. event_lines evt v) (map ((!) (events d)) ?shown))
      = Some (map (\<lambda>i. the (event_lines (events d ! i) v)) ?shown)"
    using those_map_Some [of ?shown "\<lambda>i. event_lines (events d ! i) v"] by (simp add: comp_def)
  ultimately show ?thesis using assms(1-4) by (simp add: draw_body_def slice_def)
qed

text \<open>Rows of the events that can be drawn.\<close>

lemma drawable_rows:
  assumes "frame_ok te log_h d" "\<forall>i \<in> set (visible d). event_lines (events d ! i) v \<noteq> None"
  shows "\<forall>i \<in> set (visible d). i < length (events d)
    \<and> event_height line_count (events d ! i) width v = Some (the (event_height line_count (events d ! i) width v))
    \<and> 0 < the (event_height line_count (events d ! i) width v)"
proof -
  have "\<forall>i \<in> set (visible d). i < length (events d)"
    using assms(1) matching_range [of te d] by (simp add: frame_ok_def app_ok_def)
  then show ?thesis using event_height_pos [of _ v line_count width] assms(2) by fastforce
qed

lemma drawable_frame:
  assumes "frame_ok te log_h d" "0 < log_h" "v = \<lparr> v_rich = rich d, v_wrap = wrap d \<rparr>"
    and "\<forall>i \<in> set (visible d). event_lines (events d ! i) v \<noteq> None"
  shows "draw_frame line_count log_h width d \<noteq> None"
proof -
  note rows = drawable_rows [OF assms(1,4), of line_count width]
  have "draw_body line_count log_h width d \<noteq> None"
  proof (cases "visible d = []")
    case True
    moreover have "scroll d = 0" using True assms(1) by (auto simp: frame_ok_def max_scroll_def split: if_splits)
    ultimately have "draw_window line_count log_h width d = Some (0, 0)"
      by (simp add: draw_window_def view_window_def)
    then show ?thesis using draw_body_lines [of line_count log_h width d 0 0, OF _ _ _ assms(3)] True by simp
  next
    case False
    obtain s e where "draw_window line_count log_h width d = Some (s, e)" "s < e \<and> e \<le> length (visible d)"
      using draw_window_fits [OF assms(1,2) False assms(3) rows] by (auto simp: fits_def)
    then show ?thesis using draw_body_lines [OF _ _ _ assms(3)] rows assms(4) by simp
  qed
  then show ?thesis by (simp add: draw_frame_def)
qed

text \<open>C14. What the user sees is the newest traffic under the current filter: from any reachable state, the state that a turn of the
  loop draws holds the newest \<open>HISTORY_CAP\<close> of the retained and arrived records, with the number given up, the indices of
  exactly those that match, and a scroll position that is inside and at the end when following. The screen the turn shows is the drawing of this
  state; the turn panics when the drawing does and never otherwise, and it does not when the line of every record that matches can be drawn
  (\<open>error_message_ends_view\<close> is a record whose line cannot).\<close>

theorem frame_shows_newest_matching:
  assumes "tui_reachable te (a, w)" "dropped_events a \<le> USIZE_MAX"
    and "all = events a @ (if accept_source_records a then rx a else [])"
  shows "\<exists>d w'. prepare_frame te h (a, w) = (d, w') \<and> events d = lastn HISTORY_CAP all
    \<and> dropped_events d = min USIZE_MAX (dropped_events a + (length all - HISTORY_CAP)) \<and> display d = display a
    \<and> visible d = filter (\<lambda>i. output_matches (is_match te) (display a) (events d ! i)) [0..<length (events d)]
    \<and> scroll d \<le> max_scroll (log_height h) d \<and> (follow d \<longrightarrow> scroll d = max_scroll (log_height h) d)
    \<and> map_option fst (loop_turn te line_count inner_w h ks (a, w)) = draw_frame line_count (log_height h) inner_w d
    \<and> ((\<forall>i \<in> set (visible d). event_lines (events d ! i) \<lparr> v_rich = rich d, v_wrap = wrap d \<rparr> \<noteq> None)
        \<longrightarrow> loop_turn te line_count inner_w h ks (a, w) \<noteq> None)"
proof -
  obtain d w' where d: "prepare_frame te h (a, w) = (d, w')" "frame_ok te (log_height h) d" "events d = lastn HISTORY_CAP all"
    "dropped_events d = min USIZE_MAX (dropped_events a + (length all - HISTORY_CAP))" "display d = display a"
    "visible d = filter (\<lambda>i. output_matches (is_match te) (display a) (events d ! i)) [0..<length (events d)]"
    "scroll d \<le> max_scroll (log_height h) d \<and> (follow d \<longrightarrow> scroll d = max_scroll (log_height h) d)"
    using drawn_frame [OF assms] by blast
  note draws = loop_turn_draws [OF assms(1) d(1), of line_count inner_w ks]
  have "0 < log_height h" by (simp add: log_height_def)
  from drawable_frame [OF d(2) this refl, of line_count inner_w]
  have "(\<forall>i \<in> set (visible d). event_lines (events d ! i) \<lparr> v_rich = rich d, v_wrap = wrap d \<rparr> \<noteq> None)
      \<longrightarrow> loop_turn te line_count inner_w h ks (a, w) \<noteq> None"
    using draws by (metis option.map_disc_iff)
  then show ?thesis using d draws by blast
qed

text \<open>C31. The log shows whole events and as many as fit: in every frame the loop draws, when the lines of the retained events can
  be drawn, the window is inside the visible events and not empty, its rows fit the height or it is a single event, no
  further event would fit, the newest event is shown when following, and without wrapping the rows counted are the lines drawn.\<close>

theorem log_window_fits:
  assumes "tui_reachable te (a, w)" "d = fst (prepare_frame te h (a, w))" "visible d \<noteq> []"
    and "v = \<lparr> v_rich = rich d, v_wrap = wrap d \<rparr>" "\<forall>i \<in> set (visible d). event_lines (events d ! i) v \<noteq> None"
    and "rows = (\<lambda>i. the (event_height line_count (events d ! i) width v))"
  shows "\<exists>s e body. draw_window line_count (log_height h) width d = Some (s, e) \<and> s < e \<and> e \<le> length (visible d)
    \<and> (sum_list (map rows (take (e - s) (drop s (visible d)))) \<le> log_height h \<or> e = Suc s)
    \<and> (if follow d then e = length (visible d) \<and> (s = 0 \<or> log_height h < sum_list (map rows (drop (s - 1) (visible d))))
       else e = length (visible d) \<or> log_height h < sum_list (map rows (take (Suc e - s) (drop s (visible d)))))
    \<and> draw_body line_count (log_height h) width d = Some body
    \<and> (wrap d \<or> length body = sum_list (map rows (take (e - s) (drop s (visible d)))))"
proof -
  let ?vis = "visible d" and ?H = "log_height h"
  have frame: "frame_ok te ?H d"
    using turn_ok [OF reachable_app_ok [OF assms(1), simplified], of h w "[]"] assms(2) by auto
  note height = drawable_rows [OF frame assms(5), of line_count width]
  have pos: "0 < ?H" by (simp add: log_height_def)
  obtain s e where w: "draw_window line_count ?H width d = Some (s, e)" and f: "fits rows ?vis ?H (follow d) s e"
    using draw_window_fits [OF frame pos assms(3,4), of line_count width rows] height unfolding assms(6) by blast
  let ?shown = "take (e - s) (drop s ?vis)"
  have se: "s < e" "e \<le> length ?vis" using f by (simp_all add: fits_def)
  have body: "draw_body line_count ?H width d = Some (concat (map (\<lambda>i. the (event_lines (events d ! i) v)) ?shown))"
    using draw_body_lines [OF w _ se(2) assms(4)] se(1) height assms(5) by simp
  have "\<forall>i \<in> set ?shown. event_lines (events d ! i) v \<noteq> None" using assms(5) by (meson in_set_dropD in_set_takeD)
  then have "length (the (event_lines (events d ! i) v)) = rows i" if "\<not> wrap d" "i \<in> set ?shown" for i
    using event_height_lines [of "events d ! i" v _ line_count width] that by (auto simp: assms(4,6))
  then have "\<not> wrap d \<longrightarrow> length (concat (map (\<lambda>i. the (event_lines (events d ! i) v)) ?shown)) = sum_list (map rows ?shown)"
    by (simp add: length_concat comp_def cong: map_cong)
  then show ?thesis using w body f by (auto simp: fits_def)
qed

text \<open>A message is drawn as it was emitted: the line of a message is cut into its time in grey, its direction and its kind
  in bold, cyan from the client and magenta from the server, and the rest as it is, with nothing lost, when the line carries
  no warning sign or rule and a line from the server does not hold the client's tag.\<close>

theorem message_line_spans:
  assumes "arrow \<notin> set t" "58 \<notin> set kind" "line = bracket t @ [32] @ bracket (dir_tag r) @ [32] @ kind @ rest"
    and "rest = [] \<or> (\<exists>tx. rest = lit '': '' @ tx)" "\<not> str_contains line [warn_sign]" "\<not> str_contains line (lit ''==='')"
    and "r = Server \<Longrightarrow> \<not> str_contains line (bracket (dir_tag Client))"
  defines "c \<equiv> (case r of Client \<Rightarrow> Cyan | Server \<Rightarrow> Magenta)"
  shows "build_line line = Some (line_from [(bracket t @ [32], in_color DarkGray), (bracket (dir_tag r), in_bold c),
    ([32], plain), (kind, in_bold c), (rest, plain)])"
proof -
  let ?x = "bracket t @ [32]" and ?tag = "bracket (dir_tag r)"
  define a b where ab: "a = utf8_len ?x" "b = utf8_len ?x + utf8_len ?tag"
  have line: "line = ?x @ ?tag @ [32] @ kind @ rest" using assms(3) by simp
  have x: "arrow \<notin> set ?x" using assms(1) by (simp add: bracket_def arrow_def)
  have "find_bytes ?tag line = Some a"
    unfolding line using find_bytes_skip [OF x, of "?tag @ [32] @ kind @ rest" r] find_bytes_here [of r]
    by (simp add: ab)
  then have split: "direction_split line = Some (c, a, b)"
    using assms(7) find_bytes_None [of "bracket (dir_tag Client)" line]
    by (cases r) (simp_all add: direction_split_def c_def ab)
  have len: "utf8_len line = b + 1 + utf8_len kind + utf8_len rest"
    unfolding line by (simp add: len_utf8_def ab)
  have after: "byte_slice line (b + 1) (utf8_len line) = Some (kind @ rest)"
    using byte_slice_mid [of _ "?x @ ?tag @ [32]" _ "kind @ rest" "[]"] unfolding line by (simp add: len_utf8_def ab add.assoc)
  have ks: "min (b + 1) (utf8_len line) = b + 1" using len by simp
  have kend: "(case find_bytes (lit '': '') (kind @ rest) of Some p \<Rightarrow> b + 1 + p | None \<Rightarrow> utf8_len line) = b + 1 + utf8_len kind"
    using find_separator [OF assms(2,4)] len by (auto split: option.split)
  have parts: "parse_line line = Some (Some \<lparr> lp_color = c, prefix_end = a, tag_end = b, kind_start = b + 1,
      kind_end = b + 1 + utf8_len kind \<rparr>)"
    using after kend ks
    by (cases "find_bytes (lit '': '') (kind @ rest)") (simp_all add: parse_line_def split Let_def)
  have "byte_slice line 0 a = Some ?x"
    using byte_slice_mid [of 0 "[]" _ ?x "?tag @ [32] @ kind @ rest"] unfolding line by (simp add: ab)
  moreover have "byte_slice line a b = Some ?tag"
    using byte_slice_mid [of _ ?x _ ?tag "[32] @ kind @ rest"] unfolding line by (simp add: ab)
  moreover have "byte_slice line b (b + 1) = Some [32]"
    using byte_slice_mid [of _ "?x @ ?tag" _ "[32]" "kind @ rest"] unfolding line by (simp add: len_utf8_def ab add.assoc)
  moreover have "byte_slice line (b + 1) (b + 1 + utf8_len kind) = Some kind"
    using byte_slice_mid [of _ "?x @ ?tag @ [32]" _ kind rest] unfolding line by (simp add: len_utf8_def ab add.assoc)
  moreover have "byte_slice line (b + 1 + utf8_len kind) (utf8_len line) = Some rest"
    using byte_slice_mid [of _ "?x @ ?tag @ [32] @ kind" _ rest "[]"] unfolding line by (simp add: len_utf8_def ab add.assoc)
  ultimately show ?thesis
    using assms(5,6) by (simp add: build_line_def parts head_spans_def)
qed

text \<open>The newest event is in the window of a view that follows, so when it cannot be drawn nothing can.\<close>

lemma fill_rows_start:
  assumes "fill_rows height evs log_h id items rows bound = Some b" "\<forall>(i, e) \<in> set items. i < n"
    and "bound < n \<or> rows = 0 \<and> items \<noteq> []"
  shows "b < n"
  using assms
  by (induction height evs log_h "id :: nat \<Rightarrow> nat" items rows bound rule: fill_rows.induct)
    (auto simp: bind_eq_Some_conv split: if_splits)

lemma follow_window:
  assumes "draw_window line_count log_h width d = Some (s, e)" "frame_ok te log_h d" "0 < log_h" "follow d" "visible d \<noteq> []"
  shows "e = length (visible d) \<and> s < e"
proof (cases "wrap d \<or> rich d")
  case True
  let ?items = "rev (enumerate 0 (visible d))"
  have items: "\<forall>(i, x) \<in> set ?items. i < length (visible d)" by (auto simp: in_set_enumerate_eq)
  have some: "?items \<noteq> []" using assms(5) by (cases "visible d") simp_all
  have run: "fill_rows (\<lambda>evt. event_height line_count evt width \<lparr> v_rich = rich d, v_wrap = wrap d \<rparr>) (events d) log_h id ?items 0
      (length (visible d)) = Some s \<and> e = length (visible d)"
    using assms(1,4,5) True by (auto simp: draw_window_def view_window_def Let_def)
  have "s < length (visible d)" by (rule fill_rows_start [OF conjunct1 [OF run] items]) (use some in simp)
  then show ?thesis using run by simp
next
  case False
  then have "scroll d = length (visible d) - log_h" using assms(2,4) by (simp add: frame_ok_def max_scroll_def)
  moreover have "0 < length (visible d)" using assms(5) by simp
  ultimately show ?thesis using assms(1,3) False by (auto simp: draw_window_def)
qed

lemma newest_undrawable:
  assumes "frame_ok te log_h d" "0 < log_h" "follow d" "visible d \<noteq> []" "\<not> show_splash d"
    and "\<And>v. event_lines (events d ! last (visible d)) v = None"
  shows "draw_frame line_count log_h width d = None"
proof -
  let ?v = "\<lparr> v_rich = rich d, v_wrap = wrap d \<rparr>"
  have "draw_body line_count log_h width d = None"
  proof (cases "draw_window line_count log_h width d")
    case (Some se)
    obtain s e where se: "se = (s, e)" by (cases se)
    then have w: "e = length (visible d)" "s < e" using follow_window [OF _ assms(1-4)] Some by simp_all
    then have shown: "slice (visible d) s e = Some (drop s (visible d))" by (simp add: slice_def)
    have "last (visible d) \<in> set (drop s (visible d))"
      using w last_drop [of s "visible d"] by (metis last_in_set drop_eq_Nil not_less)
    then have "None \<in> set (map (\<lambda>evt. event_lines evt ?v) (map ((!) (events d)) (drop s (visible d))))"
      using assms(6) [of ?v] by (auto simp: image_iff intro!: bexI [of _ "last (visible d)"])
    then have "those (map (\<lambda>evt. event_lines evt ?v) (map ((!) (events d)) (drop s (visible d)))) = None" by (rule those_None)
    then show ?thesis
      using idxs_nth [of "events d" "drop s (visible d)"]
      by (cases "idxs (events d) (drop s (visible d))") (simp_all add: draw_body_def Some se shown)
  qed (simp add: draw_body_def)
  then show ?thesis using assms(5) by (simp add: draw_frame_def)
qed

text \<open>A line of the server that quotes the client's tag before a character beyond ASCII cannot be drawn.\<close>

lemma tagged_line_undrawable:
  assumes "dm_rendered m = bracket t @ [32] @ bracket (dir_tag Server) @ p @ bracket (dir_tag Client) @ c # q"
    and "arrow \<notin> set t" "arrow \<notin> set p" "1 < len_utf8 c"
    and "\<not> str_contains (dm_rendered m) [warn_sign]" "\<not> str_contains (dm_rendered m) (lit ''==='')"
  shows "event_lines (Message m detail) v = None"
proof -
  let ?line = "dm_rendered m" and ?C = "bracket (dir_tag Client)"
  let ?x = "bracket t @ [32] @ bracket (dir_tag Server) @ p"
  have line: "?line = ?x @ ?C @ c # q" using assms(1) by simp
  have "arrow \<notin> set (bracket t @ [32])" using assms(2) by (simp add: bracket_def arrow_def)
  from find_bytes_skip [OF this, of "bracket (dir_tag Server) @ p @ ?C @ c # q" Client]
  have "find_bytes ?C ?line = Some (utf8_len ?x)"
    using find_client_after_server [of "p @ ?C @ c # q"] find_bytes_skip [OF assms(3), of "?C @ c # q" Client]
      find_bytes_here [of Client "c # q"] tag_length [of Server]
    by (simp add: assms(1) len_utf8_def del: dir_tag.simps)
  then have "parse_line ?line = None" using parse_line_panics [of ?x c q] assms(4) line by simp
  then show ?thesis
    using assms(5,6) by (auto simp: event_lines_def render_rich_def build_line_def build_header_line_def split: option.split)
qed

text \<open>C32. The text of an error can end the view. When the server reports an error whose message holds the client's tag, an F and a B with an
  arrow between them in brackets, directly before a character beyond ASCII, as the error about an unknown column of such a name does,
  then its line, which \<open>handle_backend\<close> sends to the view, cannot be drawn: the next turn of a view that follows,
  without splash and filter that hides the record, is a panic, whatever the size of the terminal and the keys. The conditions on the rest of
  the line: no arrow before the quoted tag but that of the line's own, and nowhere a warning sign or three equals signs, which are
  drawn in another way.\<close>

theorem error_message_ends_view:
  assumes "role dir = Server" "lookup_field flds 83 = Some sev" "lookup_field flds 77 = Some (p @ bracket (dir_tag Client) @ c # q)"
    and "1 < len_utf8 c" "arrow \<notin> set (snd (clock e (clock_reads i)) @ sev @ p)"
    and "capture i = None" "output_tx i = Some sent" "handle_backend e dir (ErrorResponse flds) r0 n i = Some (dir', r1, j)"
    and "output_tx j = Some (sent @ [r])" "\<not> str_contains (rendered r) [warn_sign]" "\<not> str_contains (rendered r) (lit ''==='')"
    and "tui_reachable te (a, w)" "dropped_events a \<le> USIZE_MAX" "accept_source_records a" "follow a" "\<not> show_splash a"
    and "rx a = rs @ [r]" "output_matches (is_match te) (display a) r"
  shows "loop_turn te line_count inner_w h ks (a, w) = None"
proof -
  let ?t = "snd (clock e (clock_reads i))"
  obtain m where r: "r = Message m None" and "dm_rendered m = bracket ?t @ [32] @ bracket (dir_tag Server) @ [32] @ lit ''ERROR''
      @ lit '': '' @ format_error_fields flds"
    using assms(6-9) assms(1)
    by (auto simp: handle_backend_def Let_def emit_def emit_with_detail_def now_def deliver_def split_beta format_error_fields_def str_simps
      simp del: dir_tag.simps)
  then obtain z where line: "dm_rendered m = bracket ?t @ [32] @ bracket (dir_tag Server) @ ([32] @ lit ''ERROR'' @ lit '': '' @ sev @ lit '': '' @ p)
      @ bracket (dir_tag Client) @ c # z"
    using assms(2,3) by (simp add: format_error_fields_def Let_def del: dir_tag.simps)
  have "arrow \<notin> set ([32] @ lit ''ERROR'' @ lit '': '' @ sev @ lit '': '' @ p)" "arrow \<notin> set ?t"
    using assms(5) by (simp_all add: str_simps arrow_def)
  then have none: "event_lines r v = None" for v
    using tagged_line_undrawable [OF line _ _ assms(4)] assms(10,11) by (simp add: r)
  obtain d w' where d: "prepare_frame te h (a, w) = (d, w')" "frame_ok te (log_height h) d" "events d = lastn HISTORY_CAP ((events a @ rs) @ [r])"
    "visible d = filter (\<lambda>k. output_matches (is_match te) (display a) (events d ! k)) [0..<length (events d)]"
    using drawn_frame [OF assms(12,13) refl, of h] assms(14,17) by auto
  have "\<exists>xs. events d = xs @ [r]"
    unfolding d(3) by (intro exI [of _ "drop (length ((events a @ rs) @ [r]) - HISTORY_CAP) (events a @ rs)"]) (simp add: lastn_def HISTORY_CAP_def)
  then obtain xs where xs: "events d = xs @ [r]" by blast
  then have vis: "visible d \<noteq> []" "events d ! last (visible d) = r" using assms(18) by (simp_all add: d(4))
  have mode: "follow d" "\<not> show_splash d" using prepare_frame_mode(2) [of te h a w] prepare_frame_mode(3) [of a te h w] assms(15,16) by (simp_all add: d(1))
  have "draw_frame line_count (log_height h) inner_w d = None"
    using newest_undrawable [OF d(2) _ mode(1) vis(1) mode(2)] none by (simp add: vis(2) log_height_def)
  then show ?thesis using loop_turn_draws [OF assms(12) d(1), of line_count inner_w ks] by simp
qed

subsection \<open>Witnesses\<close>

lemma sample_lines_drawn:
  "event_lines (Line (lit ''opened'')) v \<noteq> None" "event_lines (Message sample_message None) v \<noteq> None"
  by (simp_all add: event_lines_def build_line_def parse_line_def direction_split_def sample_message_def str_simps
      bracket_def arrow_def warn_sign_def)

lemma sample_drawn:
  "\<exists>d w'. prepare_frame sample_env 30 (sample_app, sample_world) = (d, w') \<and> events d = [Line (lit ''opened''), Message sample_message None]
    \<and> visible d = [0, 1]"
proof -
  have "dropped_events sample_app \<le> USIZE_MAX" by (simp add: sample_app_def app_new_def)
  from drawn_frame [OF sample_reachable this refl, of 30]
  obtain d w' where d: "prepare_frame sample_env 30 (sample_app, sample_world) = (d, w')"
    and e: "events d = lastn HISTORY_CAP (events sample_app @ (if accept_source_records sample_app then rx sample_app else []))"
    and v: "visible d = filter (\<lambda>i. output_matches (is_match sample_env) (display sample_app) (events d ! i)) [0..<length (events d)]"
    by (elim exE conjE)
  have e: "events d = [Line (lit ''opened''), Message sample_message None]"
    using e by (simp add: lastn_short HISTORY_CAP_def sample_app_def app_new_def)
  moreover have "visible d = [0, 1]"
    using v by (simp add: e sample_app_def app_new_def upt_rec filter_matches_def default_filter_def filter_is_empty_def)
  ultimately show ?thesis using d by blast
qed

theorem frame_shows_newest_matching_witness:
  "\<exists>d w' res. prepare_frame sample_env 30 (sample_app, sample_world) = (d, w')
     \<and> events d = [Line (lit ''opened''), Message sample_message None] \<and> visible d = [0, 1]
     \<and> loop_turn sample_env (\<lambda>ls w. length ls) 80 30 [\<lparr> code = KeyChar 106, ctrl = False \<rparr>] (sample_app, sample_world) = Some res"
proof -
  obtain d w' where d: "prepare_frame sample_env 30 (sample_app, sample_world) = (d, w')"
    "events d = [Line (lit ''opened''), Message sample_message None]" "visible d = [0, 1]"
    using sample_drawn by blast
  have "dropped_events sample_app \<le> USIZE_MAX" by (simp add: sample_app_def app_new_def)
  from frame_shows_newest_matching [OF sample_reachable this refl, of 30 "\<lambda>ls w. length ls" 80 "[\<lparr> code = KeyChar 106, ctrl = False \<rparr>]"]
  have "(\<forall>i \<in> set (visible d). event_lines (events d ! i) \<lparr> v_rich = rich d, v_wrap = wrap d \<rparr> \<noteq> None)
      \<longrightarrow> loop_turn sample_env (\<lambda>ls w. length ls) 80 30 [\<lparr> code = KeyChar 106, ctrl = False \<rparr>] (sample_app, sample_world) \<noteq> None"
    using d(1) by auto
  then show ?thesis using d sample_lines_drawn by (simp add: d(2,3))
qed

theorem log_window_fits_witness:
  "\<exists>s e body. draw_window (\<lambda>ls w. length ls) (log_height 30) 80 (fst (prepare_frame sample_env 30 (sample_app, sample_world))) = Some (s, e)
     \<and> s < e \<and> e \<le> 2
     \<and> draw_body (\<lambda>ls w. length ls) (log_height 30) 80 (fst (prepare_frame sample_env 30 (sample_app, sample_world))) = Some body"
proof -
  obtain d w' where d: "prepare_frame sample_env 30 (sample_app, sample_world) = (d, w')"
    "events d = [Line (lit ''opened''), Message sample_message None]" "visible d = [0, 1]"
    using sample_drawn by blast
  have "d = fst (prepare_frame sample_env 30 (sample_app, sample_world))" "visible d \<noteq> []"
    "\<forall>i \<in> set (visible d). event_lines (events d ! i) \<lparr> v_rich = rich d, v_wrap = wrap d \<rparr> \<noteq> None"
    using sample_lines_drawn by (simp_all add: d)
  from log_window_fits [OF sample_reachable this(1,2) refl this(3) refl, of "\<lambda>ls w. length ls" 80]
  show ?thesis by (force simp: d)
qed

theorem message_line_spans_witness:
  "build_line (lit ''[12:00] ['' @ [70, arrow, 66] @ lit ''] Query: SELECT 1'') = Some (line_from
     [(lit ''[12:00] '', in_color DarkGray), (lit ''['' @ [70, arrow, 66] @ lit '']'', in_bold Cyan), ([32], plain),
      (lit ''Query'', in_bold Cyan), (lit '': SELECT 1'', plain)])"
proof -
  have "build_line (lit ''[12:00] ['' @ [70, arrow, 66] @ lit ''] Query: SELECT 1'') = Some (line_from
     [(bracket (lit ''12:00'') @ [32], in_color DarkGray), (bracket (dir_tag Client), in_bold (case Client of Client \<Rightarrow> Cyan | Server \<Rightarrow> Magenta)),
      ([32], plain), (lit ''Query'', in_bold (case Client of Client \<Rightarrow> Cyan | Server \<Rightarrow> Magenta)), (lit '': SELECT 1'', plain)])"
  proof (rule message_line_spans)
    show "lit '': SELECT 1'' = [] \<or> (\<exists>tx. lit '': SELECT 1'' = lit '': '' @ tx)"
      by (intro disjI2 exI [of _ "lit ''SELECT 1''"]) (simp add: str_simps)
  qed (simp_all add: str_simps arrow_def warn_sign_def bracket_def)
  then show ?thesis by (simp add: bracket_def str_simps)
qed

text \<open>PostgreSQL's error about a column named by the client's tag and an e with acute accent, as the loop that drains the server's bytes emits it.\<close>

definition unknown_column :: "(u8 \<times> rstring) list" where
  "unknown_column = [(83, lit ''ERROR''), (67, lit ''42703''),
     (77, lit ''column '' @ [34] @ bracket (dir_tag Client) @ [0xE9, 34] @ lit '' does not exist'')]"

definition unknown_column_record :: output_record where
  "unknown_column_record = Message \<lparr> dm_timestamp = show_nat 0,
     dm_rendered = bracket (show_nat 0) @ [32] @ bracket (dir_tag Server) @ [32] @ lit ''ERROR'' @ lit '': '' @ format_error_fields unknown_column,
     dm_client = sample_client, dm_direction = BackendToFrontend, dm_kind = lit ''ERROR'', dm_text = format_error_fields unknown_column \<rparr> None"

theorem error_message_ends_view_witness:
  "loop_turn sample_env (\<lambda>ls w. length ls) 80 30 [] (sample_app\<lparr> rx := rx sample_app @ [unknown_column_record] \<rparr>, sample_world) = None"
proof -
  let ?dir = "direction_new clear_ctx Server sample_client"
  have fields: "role ?dir = Server" "lookup_field unknown_column 83 = Some (lit ''ERROR'')"
    "lookup_field unknown_column 77 = Some ((lit ''column '' @ [34]) @ bracket (dir_tag Client) @ 0xE9 # [34] @ lit '' does not exist'')"
    "1 < len_utf8 (0xE9 :: rchar)" "arrow \<notin> set (snd (clock Decode.sample_env (clock_reads sample_io)) @ lit ''ERROR'' @ lit ''column '' @ [34])"
    by (simp_all add: direction_new_def unknown_column_def lookup_field_def show_nat.simps [of 0] bracket_def len_utf8_def Decode.sample_env_def sample_io_def str_simps arrow_def)
  have sent: "capture sample_io = None" "output_tx sample_io = Some []"
    "\<exists>j. handle_backend Decode.sample_env ?dir (ErrorResponse unknown_column) default_outcome 90 sample_io
        = Some (?dir, count_message 90 default_outcome, j) \<and> output_tx j = Some ([] @ [unknown_column_record])"
    by (simp_all add: sample_io_def)
      (simp add: handle_backend_def Let_def emit_def emit_with_detail_def now_def deliver_def unknown_column_record_def Decode.sample_env_def
        direction_new_def format_error_fields_def str_simps)
  then obtain j where j: "handle_backend Decode.sample_env ?dir (ErrorResponse unknown_column) default_outcome 90 sample_io
      = Some (?dir, count_message 90 default_outcome, j)" "output_tx j = Some ([] @ [unknown_column_record])" by blast
  have plain: "\<not> str_contains (rendered unknown_column_record) [warn_sign]" "\<not> str_contains (rendered unknown_column_record) (lit ''==='')"
    by (simp_all add: unknown_column_record_def unknown_column_def format_error_fields_def lookup_field_def show_nat.simps [of 0] bracket_def
      str_simps warn_sign_def arrow_def)
  have app: "tui_reachable sample_env (sample_app\<lparr> rx := rx sample_app @ [unknown_column_record] \<rparr>, sample_world)"
    by (rule tui_reachable.sent [OF sample_reachable])
  show ?thesis
    by (rule error_message_ends_view [OF fields sent(1,2) j plain app])
      (simp_all add: sample_app_def app_new_def unknown_column_record_def filter_matches_def default_filter_def filter_is_empty_def)
qed

end
