(* ===== verification/Capture.thy ===== *)
theory Capture
  imports Flow
begin

text \<open>
  The capture loop (\<open>src/capture.rs\<close>): the device is resolved among those listed, the capture opened and
  filtered, and every packet parsed and handled by the connection table. The pcap crate is the parameter \<open>pcap_lib\<close>: the
  devices it lists, the results of opening and of installing the filter, and the results of \<open>next_packet\<close>, a list
  whose end is the capture still waiting.
\<close>

subsection \<open>Operations\<close>

record pcap_opts =
  po_port :: u16
  po_interface :: "rstring option"
  po_no_promisc :: bool
  po_snaplen :: int

record device =
  dev_name :: rstring
  is_loopback :: bool

datatype packet_result = Packet "u8 list" | TimeoutExpired | NoMorePackets | PcapError rstring

record pcap_lib =
  device_list :: "rstring + device list"
  device_from :: "rstring \<Rightarrow> device"
  open_device :: "device \<Rightarrow> bool \<Rightarrow> int \<Rightarrow> rstring + int"
  install_filter :: "rstring \<Rightarrow> rstring + unit"
  next_packets :: "packet_result list"

definition resolve_device :: "pcap_lib \<Rightarrow> rstring option \<Rightarrow> rstring + device" where
  "resolve_device lib iface =
     (case device_list lib of
        Inl e \<Rightarrow> Inl (lit ''listing interfaces: '' @ e)
      | Inr devices \<Rightarrow>
          (case iface of
             None \<Rightarrow> (case find is_loopback devices of
                 Some d \<Rightarrow> Inr d
               | None \<Rightarrow> Inl (lit ''no loopback interface found; pass --interface (available: ''
                   @ join comma (map dev_name devices) @ lit '')''))
           | Some nm \<Rightarrow> Inr (case find (\<lambda>d. dev_name d = nm) devices of Some d \<Rightarrow> d | None \<Rightarrow> device_from lib nm)))"

definition datalink_name :: "int \<Rightarrow> rstring" where
  "datalink_name dlt =
     (if dlt = 0 then lit ''NULL (BSD loopback)''
      else if dlt = 1 then lit ''EN10MB (Ethernet)''
      else if dlt = 12 \<or> dlt = 101 then lit ''RAW (raw IP)''
      else if dlt = 113 then lit ''LINUX_SLL (cooked)''
      else if dlt = 276 then lit ''LINUX_SLL2 (cooked v2)''
      else if dlt = 228 then lit ''IPV4''
      else if dlt = 229 then lit ''IPV6''
      else lit ''unknown'')"

text \<open>How the loop stands: still waiting for packets, ended, or failed.\<close>

datatype capture_end = Waiting | Ended | Failed rstring

fun capture_loop ::
    "'c capture_env \<Rightarrow> u16 \<Rightarrow> int \<Rightarrow> packet_result list \<Rightarrow> 'c flow_state \<Rightarrow> (capture_end \<times> 'c flow_state) run" where
  "capture_loop ce port dlt [] st = Some (Waiting, st)"
| "capture_loop ce port dlt (Packet d # ps) st = do {
     parsed \<leftarrow> parse_frame d dlt;
     st \<leftarrow> (case parsed of Some seg \<Rightarrow> table_handle ce seg port st | None \<Rightarrow> Some st);
     capture_loop ce port dlt ps st }"
| "capture_loop ce port dlt (TimeoutExpired # ps) st = capture_loop ce port dlt ps st"
| "capture_loop ce port dlt (NoMorePackets # ps) st = Some (Ended, st)"
| "capture_loop ce port dlt (PcapError e # ps) st = Some (Failed e, st)"

definition port_filter :: "u16 \<Rightarrow> rstring" where
  "port_filter port = lit ''tcp port '' @ show_nat (unat port)"

definition capturing_status :: "device \<Rightarrow> u16 \<Rightarrow> io \<Rightarrow> io" where
  "capturing_status d port i =
     status (lit ''tapgres: note '' @ [em_dash] @ lit '' only cleartext connections are decoded; run as root / grant CAP_NET_RAW.'')
      (status (lit ''tapgres: capturing on '' @ [39] @ dev_name d @ [39] @ lit ''  (filter: '' @ port_filter port @ lit '')'') i)"

definition capture_main :: "'c capture_env \<Rightarrow> pcap_lib \<Rightarrow> pcap_opts \<Rightarrow> metrics \<Rightarrow> io \<Rightarrow> (capture_end \<times> 'c flow_state) run" where
  "capture_main ce lib opts m i =
     (case resolve_device lib (po_interface opts) of
        Inl e \<Rightarrow> Some (Failed e, conn_table_with_metrics m i)
      | Inr d \<Rightarrow>
          (let i = capturing_status d (po_port opts) i in
           case open_device lib d (\<not> po_no_promisc opts) (po_snaplen opts) of
             Inl e \<Rightarrow> Some (Failed e, conn_table_with_metrics m i)
           | Inr dlt \<Rightarrow>
               (case install_filter lib (port_filter (po_port opts)) of
                  Inl e \<Rightarrow> Some (Failed e, conn_table_with_metrics m i)
                | Inr _ \<Rightarrow>
                    (let i = status (lit ''tapgres: datalink type = '' @ show_int dlt @ lit '' ('' @ datalink_name dlt @ lit '')'') i
                     in capture_loop ce (po_port opts) dlt (next_packets lib) (conn_table_with_metrics m i)))))"

subsection \<open>The loop is the table run over what was parsed\<close>

fun parsed_segments :: "int \<Rightarrow> packet_result list \<Rightarrow> tcp_segment list" where
  "parsed_segments dlt (Packet d # ps) =
     (case parse_frame d dlt of Some (Some seg) \<Rightarrow> seg # parsed_segments dlt ps | _ \<Rightarrow> parsed_segments dlt ps)"
| "parsed_segments dlt (TimeoutExpired # ps) = parsed_segments dlt ps"
| "parsed_segments dlt _ = []"

fun end_of :: "packet_result list \<Rightarrow> capture_end" where
  "end_of [] = Waiting"
| "end_of (NoMorePackets # ps) = Ended"
| "end_of (PcapError e # ps) = Failed e"
| "end_of (_ # ps) = end_of ps"

lemma length_parsed_segments: "length (parsed_segments dlt ps) \<le> length ps"
  by (induction dlt ps rule: parsed_segments.induct) (auto split: option.splits)

lemma capture_loop_run:
  "capture_loop ce port dlt ps st = map_option (Pair (end_of ps)) (capture_run ce port (parsed_segments dlt ps) st)"
proof (induction ce port dlt ps st rule: capture_loop.induct)
  case (2 ce port dlt d ps st)
  obtain r where r: "parse_frame d dlt = Some r" using parse_frame_total by blast
  show ?case
  proof (cases r)
    case None
    then show ?thesis using 2 [OF r] r by simp
  next
    case (Some seg)
    then show ?thesis using 2 [OF r] r by (cases "table_handle ce seg port st") simp_all
  qed
qed simp_all

subsection \<open>Properties\<close>

text \<open>A capture survives everything that can arrive: for any packets, malformed or not, mixed with timeouts, the loop
  does not panic, ends as the capture does, and leaves the table that the well-formed TCP segments alone, in order, would
  have given, in step with the registry.\<close>

theorem capture_loop_survives:
  assumes "frontend_ok (fdec ce)" "backend_ok (bdec ce)" "Suc (length ps) < ID_SPACE"
  shows "\<exists>st'. capture_loop ce port dlt ps (conn_table_with_metrics (with_limits cap hist) i) = Some (end_of ps, st')
    \<and> capture_run ce port (parsed_segments dlt ps) (conn_table_with_metrics (with_limits cap hist) i) = Some st' \<and> flow_inv st'"
proof -
  have "Suc (length (parsed_segments dlt ps)) < ID_SPACE"
    using assms(3) length_parsed_segments [of dlt ps] by simp
  then obtain st' where "capture_run ce port (parsed_segments dlt ps) (conn_table_with_metrics (with_limits cap hist) i) = Some st'"
    "flow_inv st'"
    using capture_run_inv [OF assms(1,2) new_table_inv, of "parsed_segments dlt ps" cap hist i port]
    by (auto simp: conn_table_with_metrics_def with_limits_def)
  then show ?thesis by (simp add: capture_loop_run)
qed

theorem capture_loop_survives_witness:
  "\<exists>st'. capture_loop sample_capture 5432 1 [Packet [1, 2, 3], TimeoutExpired, Packet [], NoMorePackets]
     (conn_table_with_metrics (with_limits 1 1) sample_io) = Some (Ended, st') \<and> flow_inv st'"
proof -
  have "frontend_ok (fdec sample_capture)" "backend_ok (bdec sample_capture)"
    by (simp_all add: sample_capture_def negotiating_frontend_ok negotiating_backend_ok)
  from capture_loop_survives [OF this, of "[Packet [1, 2, 3], TimeoutExpired, Packet [], NoMorePackets]" 5432 1 1 1 sample_io]
  show ?thesis by (auto simp: ID_SPACE_def)
qed

end
