(* ===== verification/Decode_Stream.thy ===== *)
theory Decode_Stream
  imports Decode
begin

text \<open>
  Decoding does not depend on how a stream is cut: draining a direction after each piece of its bytes says what draining
  it once with all of them says. \<open>decodes\<close> is the drain without errors and without a stop, as a relation whose steps leave
  the sinks out; \<open>message_handler\<close> is what it needs of the handlers: their answer does not depend on the sinks, on the
  outcome so far or on the reassembly state. The property of whole connections is in \<open>Capture_Stream\<close>.
\<close>

subsection \<open>What was said\<close>

type_synonym said = "socket_addr \<times> message_direction \<times> rstring \<times> rstring \<times> event_detail option"

text \<open>A message without its timestamps; lines and statuses say nothing.\<close>

fun spoken :: "output_record \<Rightarrow> said option" where
  "spoken (Message m d) = Some (dm_client m, dm_direction m, dm_kind m, dm_text m, d)"
| "spoken (Line l) = None"
| "spoken (Status l) = None"

definition says :: "said list \<Rightarrow> io \<Rightarrow> io \<Rightarrow> bool" where
  "says xs i j \<longleftrightarrow> (\<exists>rs. routes rs i j \<and> map spoken rs = map Some xs)"

lemma says_Nil: "says [] i i"
  unfolding says_def by (rule exI [of _ "[]"]) (simp add: routes_refl)

lemma says_append: "says xs i j \<Longrightarrow> says ys j k \<Longrightarrow> says (xs @ ys) i k"
  unfolding says_def by (elim exE conjE) (intro exI conjI, erule (1) routes_trans, simp)

lemma says_emit: "says [(cl, direction_of r, kind, tx, d)] i (emit_with_detail e r cl kind tx d i)"
  unfolding emit_with_detail_def now_def Let_def says_def
  by (auto simp: split_beta intro!: exI routes_now)

lemma says_warn: "says [(cl, direction_of r, lit ''Warning'', tx, None)] i (warn e r cl tx i)"
  unfolding warn_def now_def Let_def says_def
  by (auto simp: split_beta intro!: exI routes_now)

text \<open>With the capture buffer of the tests as the sink, the records are what it holds.\<close>

lemma routes_capture:
  "routes rs i j \<Longrightarrow> capture i = Some rs0 \<Longrightarrow> capture j = Some (rs0 @ rs)"
proof -
  have "capture (fold deliver rs i) = Some (rs0 @ rs)" if "capture i = Some rs0" for i :: io and rs0
    using that by (induction rs arbitrary: i rs0) (simp_all add: deliver_def)
  then show "routes rs i j \<Longrightarrow> capture i = Some rs0 \<Longrightarrow> capture j = Some (rs0 @ rs)"
    by (auto simp: routes_def)
qed

subsection \<open>Outcomes add up\<close>

definition outcome_add :: "drain_outcome \<Rightarrow> drain_outcome \<Rightarrow> drain_outcome" where
  "outcome_add a b = \<lparr> server_negotiation_wait = (if server_negotiation_wait b = NoWait then server_negotiation_wait a else server_negotiation_wait b),
     encrypted = encrypted a \<or> encrypted b, msgs = msgs a + msgs b, bytes = bytes a + bytes b \<rparr>"

lemma outcome_add_simps [simp]:
  "server_negotiation_wait (outcome_add a b) = (if server_negotiation_wait b = NoWait then server_negotiation_wait a else server_negotiation_wait b)"
  "encrypted (outcome_add a b) \<longleftrightarrow> encrypted a \<or> encrypted b"
  "msgs (outcome_add a b) = msgs a + msgs b" "bytes (outcome_add a b) = bytes a + bytes b"
  by (simp_all add: outcome_add_def)

lemma outcome_add_default [simp]: "outcome_add default_outcome a = a" "outcome_add a default_outcome = a"
  by (simp_all add: outcome_add_def default_outcome_def)

lemma outcome_add_assoc: "outcome_add (outcome_add a b) c = outcome_add a (outcome_add b c)"
  by (auto simp: outcome_add_def ac_simps)

lemma count_message_add: "count_message n a = outcome_add a (count_message n default_outcome)"
  by (simp add: count_message_def default_outcome_def outcome_add_def)

subsection \<open>The answer of a handler\<close>

definition with_transport :: "u32 option \<Rightarrow> (u32 \<times> u8 list) list \<Rightarrow> u8 list \<Rightarrow> 'c direction \<Rightarrow> 'c direction" where
  "with_transport ns q b d = d\<lparr> next_seq := ns, ooo := q, rxbuf := b \<rparr>"

lemma with_transport_simps [simp]:
  "role (with_transport ns q b d) = role d" "client (with_transport ns q b d) = client d"
  "ctx (with_transport ns q b d) = ctx d" "row_desc (with_transport ns q b d) = row_desc d"
  "next_seq (with_transport ns q b d) = ns" "ooo (with_transport ns q b d) = q" "rxbuf (with_transport ns q b d) = b"
  "with_transport ns q b (with_transport ns' q' b' d) = with_transport ns q b d"
  "(with_transport ns q b d)\<lparr> rxbuf := b' \<rparr> = with_transport ns q b' d"
  "with_transport (next_seq d) (ooo d) b d = d\<lparr> rxbuf := b \<rparr>"
  "(with_transport ns q b d)\<lparr> ctx := c \<rparr> = with_transport ns q b (d\<lparr> ctx := c \<rparr>)"
  "(with_transport ns q b d)\<lparr> row_desc := rd \<rparr> = with_transport ns q b (d\<lparr> row_desc := rd \<rparr>)"
  by (simp_all add: with_transport_def)

text \<open>\<open>answered\<close>: whatever the sinks, the outcome so far and the reassembly state, the handler says \<open>xs\<close>, adds \<open>o1\<close> to the
  outcome and leaves the direction as \<open>d1\<close>; \<open>go\<close> says whether the drain goes on. What it says is of its stream.\<close>

definition from_stream :: "role \<Rightarrow> socket_addr \<Rightarrow> said list \<Rightarrow> bool" where
  "from_stream r cl xs \<longleftrightarrow> (\<forall>x \<in> set xs. fst x = cl \<and> fst (snd x) = direction_of r)"

lemma from_stream_simps [simp]:
  "from_stream r cl []" "from_stream r cl (x # xs) \<longleftrightarrow> (fst x = cl \<and> fst (snd x) = direction_of r) \<and> from_stream r cl xs"
  "from_stream r cl (xs @ ys) \<longleftrightarrow> from_stream r cl xs \<and> from_stream r cl ys"
  by (auto simp: from_stream_def)

definition answered ::
    "('c direction \<Rightarrow> 'm \<Rightarrow> drain_outcome \<Rightarrow> u64 \<Rightarrow> io \<Rightarrow> 'c handled run) \<Rightarrow> 'c direction \<Rightarrow> 'm \<Rightarrow> u64
      \<Rightarrow> bool \<Rightarrow> 'c direction \<Rightarrow> drain_outcome \<Rightarrow> said list \<Rightarrow> bool" where
  "answered handle d m n go d1 o1 xs \<longleftrightarrow>
     role d1 = role d \<and> client d1 = client d \<and> from_stream (role d) (client d) xs \<and>
     (\<forall>ns q b o' i. \<exists>i1. handle (with_transport ns q b d) m o' n i = Some (go, with_transport ns q b d1, outcome_add o' o1, i1)
        \<and> says xs i i1)"

lemma answeredD:
  "answered handle d m n go d1 o1 xs \<Longrightarrow>
     \<exists>i1. handle (d\<lparr> rxbuf := b \<rparr>) m o' n i = Some (go, with_transport (next_seq d) (ooo d) b d1, outcome_add o' o1, i1) \<and> says xs i i1"
  unfolding answered_def by (metis with_transport_simps(10))

lemma answered_transport: "answered handle (with_transport ns q b d) m n go d1 o1 xs \<longleftrightarrow> answered handle d m n go d1 o1 xs"
  by (simp add: answered_def)

locale message_handler =
  fixes handle :: "'c direction \<Rightarrow> 'm \<Rightarrow> drain_outcome \<Rightarrow> u64 \<Rightarrow> io \<Rightarrow> 'c handled run"
  assumes answers: "\<exists>go d1 o1 xs. answered handle d m n go d1 o1 xs \<and> (\<not> go \<longrightarrow> server_negotiation_wait o1 \<noteq> NoWait)"

lemma frontend_answers:
  fixes d :: "'c direction"
  shows "\<exists>go d1 o1 xs. answered (\<lambda>d m o' n i. Some (handle_frontend e d m o' n i)) d m n go d1 o1 xs
    \<and> (\<not> go \<longrightarrow> server_negotiation_wait o1 \<noteq> NoWait)"
proof -
  have wait: "(count_message n a)\<lparr> server_negotiation_wait := w \<rparr>
      = outcome_add a ((count_message n default_outcome)\<lparr> server_negotiation_wait := w \<rparr>)" if "w \<noteq> NoWait" for a w
    using that by (simp add: count_message_def default_outcome_def outcome_add_def)
  have said: ?thesis if "\<And>(d :: 'c direction) o' i. handle_frontend e d m o' n i = (True, d, count_message n o', emit e (role d) (client d) kind tx i)" for kind tx
  proof (intro exI conjI)
    show "answered (\<lambda>d m o' n i. Some (handle_frontend e d m o' n i)) d m n True d (count_message n default_outcome)
        [(client d, direction_of (role d), kind, tx, None)]"
      unfolding answered_def that by (simp add: count_message_add [symmetric] emit_def says_emit)
  qed simp
  show ?thesis
  proof (cases m)
    case (SslNegotiation meta)
    let ?d = "d\<lparr> ctx := (ctx d)\<lparr> awaiting_frontend_ssl := False \<rparr> \<rparr>"
    have req: ?thesis if "w \<noteq> NoWait" "\<And>(d :: 'c direction) o' i. handle_frontend e d m o' n i = (False, d\<lparr> ctx := (ctx d)\<lparr> awaiting_frontend_ssl := False \<rparr> \<rparr>,
        (count_message n o')\<lparr> server_negotiation_wait := w \<rparr>, emit e (role d) (client d) kind tx i)" for w kind tx
    proof (intro exI conjI)
      show "answered (\<lambda>d m o' n i. Some (handle_frontend e d m o' n i)) d m n False ?d
          ((count_message n default_outcome)\<lparr> server_negotiation_wait := w \<rparr>) [(client d, direction_of (role d), kind, tx, None)]"
        unfolding answered_def that(2) by (simp add: wait [OF that(1), symmetric] emit_def says_emit)
    qed (simp add: that(1))
    show ?thesis
    proof (cases meta)
      case SslNone
      have "answered (\<lambda>d m o' n i. Some (handle_frontend e d m o' n i)) d m n True ?d default_outcome []"
        unfolding answered_def by (simp add: handle_frontend_def SslNegotiation SslNone says_Nil)
      then show ?thesis by blast
    next
      case PostgresSsl
      show ?thesis by (rule req [of WaitSsl]) (simp_all add: handle_frontend_def SslNegotiation PostgresSsl Let_def)
    next
      case PostgresGss
      show ?thesis by (rule req [of WaitGss]) (simp_all add: handle_frontend_def SslNegotiation PostgresGss Let_def)
    qed
  next
    case (Startup s)
    have "answered (\<lambda>d m o' n i. Some (handle_frontend e d m o' n i)) d m n True
        (d\<lparr> ctx := (ctx d)\<lparr> awaiting_frontend_startup := False \<rparr> \<rparr>) (count_message n default_outcome)
        [(client d, direction_of (role d), lit ''Startup'', format_startup s, None)]"
      unfolding answered_def
      by (simp add: handle_frontend_def Startup Let_def count_message_add [symmetric] emit_def says_emit)
    then show ?thesis by blast
  qed (rule said, simp add: handle_frontend_def Let_def)+
qed

lemma negotiated_answers:
  fixes d :: "'c direction"
  shows "\<exists>o1 k tx. \<forall>(d' :: 'c direction) o' i. role d' = role d \<and> client d' = client d \<longrightarrow>
     (\<exists>i1. negotiated e d' (count_message n o') kind proto s i = (outcome_add o' o1, i1)
        \<and> says [(client d, direction_of (role d), k, tx, None)] i i1)"
proof -
  have said: ?thesis
    if "\<And>(d' :: 'c direction) o' i. negotiated e d' (count_message n o') kind proto s i = (outcome_add o' o1, f (role d') (client d') i)"
      "\<And>i. says [(client d, direction_of (role d), k, tx, None)] i (f (role d) (client d) i)" for o1 f k tx
    using that by (intro exI [of _ o1] exI [of _ k] exI [of _ tx] allI impI) simp
  have enc: "(count_message n a)\<lparr> encrypted := True \<rparr> = outcome_add a ((count_message n default_outcome)\<lparr> encrypted := True \<rparr>)" for a
    by (simp add: count_message_def default_outcome_def outcome_add_def)
  let ?emit = "\<lambda>tx r cl. emit e r cl kind tx"
  have emits: "says [(client d, direction_of (role d), kind, tx, None)] i (?emit tx (role d) (client d) i)" for tx i
    by (simp add: emit_def says_emit)
  have emitted: ?thesis
    if "\<And>(d' :: 'c direction) o' i. negotiated e d' (count_message n o') kind proto s i
      = (outcome_add o' (count_message n default_outcome), emit e (role d') (client d') kind tx i)" for tx
    by (rule said [of "count_message n default_outcome" "?emit tx" kind tx, OF that emits])
  show ?thesis
  proof (cases s)
    case Accept
    let ?tx = "proto @ lit '' accepted '' @ [em_dash] @ lit '' connection is now encrypted, decoding stops here''"
    show ?thesis
      by (rule said [of "(count_message n default_outcome)\<lparr> encrypted := True \<rparr>" "\<lambda>r cl. warn e r cl ?tx" "lit ''Warning''" ?tx])
        (simp_all only: negotiated_def Accept ssl_response.case enc [symmetric] says_warn)
  next
    case Refuse
    show ?thesis
      by (rule emitted [of "lit ''refuse (continuing in cleartext)''"])
        (simp only: negotiated_def Refuse ssl_response.case count_message_add [symmetric])
  next
    case Unknown
    show ?thesis
      by (rule emitted [of "lit ''unknown''"]) (simp only: negotiated_def Unknown ssl_response.case count_message_add [symmetric])
  qed
qed

text \<open>The answer to a message that is shown, and to the reply to a request for encryption.\<close>

lemma backend_shows:
  fixes d :: "'c direction"
  assumes "\<And>ns q b o' i. handle_backend e (with_transport ns q b d) m o' n i = Some (with_transport ns q b d1, count_message n o',
      emit_with_detail e (role d) (client d) kind tx det i)" "role d1 = role d" "client d1 = client d"
  shows "\<exists>d1 o1 xs. answered (\<lambda>d m o' n i. map_option (Pair True) (handle_backend e d m o' n i)) d m n True d1 o1 xs"
proof (intro exI)
  show "answered (\<lambda>d m o' n i. map_option (Pair True) (handle_backend e d m o' n i)) d m n True d1 (count_message n default_outcome)
      [(client d, direction_of (role d), kind, tx, det)]"
    unfolding answered_def assms by (simp add: count_message_add [symmetric] says_emit)
qed

lemma backend_negotiates:
  fixes d :: "'c direction"
  assumes "\<And>(d' :: 'c direction) o' i. handle_backend e d' m o' n i = (let (o1, i1) = negotiated e d' (count_message n o') kind proto s i
        in Some (d'\<lparr> ctx := f (ctx d') \<rparr>, o1, i1))"
  shows "\<exists>d1 o1 xs. answered (\<lambda>d m o' n i. map_option (Pair True) (handle_backend e d m o' n i)) d m n True d1 o1 xs"
proof -
  obtain o1 k tx where neg: "\<And>(d' :: 'c direction) o' i. role d' = role d \<and> client d' = client d \<Longrightarrow>
    \<exists>i1. negotiated e d' (count_message n o') kind proto s i = (outcome_add o' o1, i1) \<and> says [(client d, direction_of (role d), k, tx, None)] i i1"
    using negotiated_answers [of d e n kind proto s] by blast
  have "answered (\<lambda>d m o' n i. map_option (Pair True) (handle_backend e d m o' n i)) d m n True (d\<lparr> ctx := f (ctx d) \<rparr>) o1 [(client d, direction_of (role d), k, tx, None)]"
    unfolding answered_def
  proof (intro conjI allI)
    fix ns q b o' i
    obtain i1 where "negotiated e (with_transport ns q b d) (count_message n o') kind proto s i = (outcome_add o' o1, i1)"
      "says [(client d, direction_of (role d), k, tx, None)] i i1"
      using neg [of "with_transport ns q b d" o' i] by auto
    then show "\<exists>i1. map_option (Pair True) (handle_backend e (with_transport ns q b d) m o' n i)
        = Some (True, with_transport ns q b (d\<lparr> ctx := f (ctx d) \<rparr>), outcome_add o' o1, i1)
      \<and> says [(client d, direction_of (role d), k, tx, None)] i i1"
      by (simp add: assms)
  qed simp_all
  then show ?thesis by blast
qed

lemma backend_answers:
  fixes d :: "'c direction"
  shows "\<exists>d1 o1 xs. answered (\<lambda>d m o' n i. map_option (Pair True) (handle_backend e d m o' n i)) d m n True d1 o1 xs"
proof (cases m)
  case (RowDescription fs)
  show ?thesis
    by (rule backend_shows [of _ d m n "d\<lparr> row_desc := Some (map field_summary_of fs) \<rparr>"]) (simp_all add: RowDescription handle_backend_def Let_def emit_rich_def)
next
  case NoData
  show ?thesis by (rule backend_shows [of _ d m n "d\<lparr> row_desc := None \<rparr>"]) (simp_all add: NoData handle_backend_def Let_def emit_def)
next
  case (DataRow row)
  obtain cols where "data_row_columns row (row_desc d) = Some cols"
    using columns_loop_total [of "row_desc d" 0 "nat (max (dr_field_count row) 0)" "dr_data row"] by (auto simp: data_row_columns_def)
  then show ?thesis
    by (intro backend_shows [of _ d m n d "lit ''DataRow''" "format_columns cols (row_desc d \<noteq> None)"
          "if row_desc d \<noteq> None then Some (DataRowDetail cols) else None"])
      (simp_all add: DataRow handle_backend_def handle_data_row_def Let_def emit_def emit_rich_def)
next
  case (SslResponse s)
  show ?thesis by (rule backend_negotiates [of e m n "lit ''SslResponse''" "lit ''SSL''" s]) (simp add: SslResponse handle_backend_def Let_def)
next
  case (GssEncResponse s)
  show ?thesis by (rule backend_negotiates [of e m n "lit ''GssEncResponse''" "lit ''GSS''" s]) (simp add: GssEncResponse handle_backend_def Let_def)
qed (rule backend_shows, simp add: handle_backend_def Let_def emit_def, rule refl, rule refl)+

interpretation frontend: message_handler "\<lambda>d m o' n i. Some (handle_frontend e d m o' n i)" for e
  by unfold_locales (rule frontend_answers)

interpretation backend: message_handler "\<lambda>d m o' n i. map_option (Pair True) (handle_backend e d m o' n i)" for e
  by unfold_locales (use backend_answers in blast)

subsection \<open>Draining without errors\<close>

text \<open>What the source relies on of a decoder: the messages are delimited by their lengths, so that more bytes after a message
  or after an error do not change how it is read, and there is none in an empty buffer.\<close>

definition decoder_stable :: "('c, 'm) decoder \<Rightarrow> bool" where
  "decoder_stable dec \<longleftrightarrow> (\<forall>c b x. dec c [] = (NeedMore, []) \<and> (case dec c b of
       (NeedMore, b') \<Rightarrow> b' = b
     | (Decoded m, b') \<Rightarrow> (\<exists>u. b = u @ b') \<and> dec c (b @ x) = (Decoded m, b' @ x)
     | (DecodeError e, b') \<Rightarrow> \<exists>e' b''. dec c (b @ x) = (DecodeError e', b'')))"

text \<open>\<open>decodes dec handle d xs o1 d'\<close>: draining \<open>d\<close> ends when the decoder asks for more bytes; it says \<open>xs\<close> and adds \<open>o1\<close> to the
  outcome.\<close>

inductive decodes ::
    "('c, 'm) decoder \<Rightarrow> ('c direction \<Rightarrow> 'm \<Rightarrow> drain_outcome \<Rightarrow> u64 \<Rightarrow> io \<Rightarrow> 'c handled run)
      \<Rightarrow> 'c direction \<Rightarrow> said list \<Rightarrow> drain_outcome \<Rightarrow> 'c direction \<Rightarrow> bool"
  for dec :: "('c, 'm) decoder" and handle :: "'c direction \<Rightarrow> 'm \<Rightarrow> drain_outcome \<Rightarrow> u64 \<Rightarrow> io \<Rightarrow> 'c handled run"
where
  dry: "dec (ctx d) (rxbuf d) = (NeedMore, rxbuf d) \<Longrightarrow> decodes dec handle d [] default_outcome d"
| message: "dec (ctx d) (rxbuf d) = (Decoded m, buf) \<Longrightarrow>
     answered handle d m (of_nat (length (rxbuf d) - length buf)) True d1 o1 xs \<Longrightarrow>
     decodes dec handle (with_transport (next_seq d) (ooo d) buf d1) ys o2 d2 \<Longrightarrow>
     decodes dec handle d (xs @ ys) (outcome_add o1 o2) d2"

lemma decodes_drain:
  assumes "decodes dec handle d xs o1 d2"
  shows "\<exists>i1. drain_loop dec handle r d o' i = Some (d2, outcome_add o' o1, i1) \<and> says xs i i1"
  using assms
proof (induction arbitrary: o' i rule: decodes.induct)
  case (dry d)
  then show ?case by (subst drain_loop.simps) (simp add: says_Nil)
next
  case (message d m buf d1 o1 xs ys o2 d2)
  obtain i1 where h: "handle (d\<lparr> rxbuf := buf \<rparr>) m o' (of_nat (length (rxbuf d) - length buf)) i
      = Some (True, with_transport (next_seq d) (ooo d) buf d1, outcome_add o' o1, i1)" "says xs i i1"
    using answeredD [OF message.hyps(2)] by blast
  obtain i2 where "drain_loop dec handle r (with_transport (next_seq d) (ooo d) buf d1) (outcome_add o' o1) i1
      = Some (d2, outcome_add (outcome_add o' o1) o2, i2)" "says ys i1 i2"
    using message.IH by blast
  then show ?case
    using message.hyps(1) h says_append by (subst drain_loop.simps) (auto simp: outcome_add_assoc)
qed

lemma decodes_end: "decodes dec handle d xs o1 d2 \<Longrightarrow> dec (ctx d2) (rxbuf d2) = (NeedMore, rxbuf d2)"
  by (induction rule: decodes.induct) simp_all

lemma decodes_stuck:
  assumes "decodes dec handle d xs o1 d2" "dec (ctx d) (rxbuf d) = (NeedMore, rxbuf d)"
  shows "xs = [] \<and> o1 = default_outcome \<and> d2 = d"
  using assms by (cases rule: decodes.cases) simp_all

lemma decodes_keeps:
  "decodes dec handle d xs o1 d2 \<Longrightarrow> next_seq d2 = next_seq d \<and> ooo d2 = ooo d
     \<and> role d2 = role d \<and> client d2 = client d \<and> from_stream (role d) (client d) xs"
  by (induction rule: decodes.induct) (simp_all add: answered_def)

lemma decodes_transport:
  "decodes dec handle d xs o1 d2 \<Longrightarrow>
     decodes dec handle (with_transport ns q (rxbuf d) d) xs o1 (with_transport ns q (rxbuf d2) d2)"
proof (induction rule: decodes.induct)
  case (dry d)
  then show ?case by (intro decodes.dry) simp
next
  case (message d m buf d1 o1 xs ys o2 d2)
  show ?case
    by (rule decodes.message [of dec _ m buf handle d1])
      (use message in \<open>simp_all add: answered_transport\<close>)
qed

text \<open>A stream that is decoded whole is decoded in two parts, wherever it is cut.\<close>

lemma rxbuf_whole: "rxbuf d = b @ x \<Longrightarrow> (d\<lparr> rxbuf := b \<rparr>)\<lparr> rxbuf := rxbuf (d\<lparr> rxbuf := b \<rparr>) @ x \<rparr> = d"
  by (cases d) simp

lemma decodes_split:
  fixes d :: "'c direction"
  assumes "decoder_stable dec" "decodes dec handle d xs o1 d2" "rxbuf d = b @ x"
  shows "\<exists>ys o2 d3 zs o3. decodes dec handle (d\<lparr> rxbuf := b \<rparr>) ys o2 d3
    \<and> decodes dec handle (d3\<lparr> rxbuf := rxbuf d3 @ x \<rparr>) zs o3 d2 \<and> xs = ys @ zs \<and> o1 = outcome_add o2 o3"
  using assms(2,3)
proof (induction arbitrary: b rule: decodes.induct)
  case (dry d)
  note stable = assms(1) [unfolded decoder_stable_def, THEN spec, THEN spec, THEN spec, of "ctx d" b x]
  have "dec (ctx d) b = (NeedMore, b)"
    using stable dry by (auto split: prod.splits decoded.splits)
  then have "decodes dec handle (d\<lparr> rxbuf := b \<rparr>) [] default_outcome (d\<lparr> rxbuf := b \<rparr>)" by (intro decodes.dry) simp
  moreover have "decodes dec handle d [] default_outcome d" by (rule decodes.dry) (rule dry(1))
  then have "decodes dec handle ((d\<lparr> rxbuf := b \<rparr>)\<lparr> rxbuf := rxbuf (d\<lparr> rxbuf := b \<rparr>) @ x \<rparr>) [] default_outcome d"
    unfolding rxbuf_whole [of d b x, OF dry(2)] .
  ultimately show ?case by (intro exI conjI) (assumption, assumption, simp_all)
next
  case (message d m buf d1 o1 xs ys o2 d2)
  note stable = assms(1) [unfolded decoder_stable_def, THEN spec, THEN spec, THEN spec, of "ctx d" b x]
  consider "dec (ctx d) b = (NeedMore, b)" | b' where "dec (ctx d) b = (Decoded m, b')" "buf = b' @ x" "length b' \<le> length b"
    using stable message.hyps(1) message.prems by (auto split: prod.splits decoded.splits)
  then show ?case
  proof cases
    case 1
    have "decodes dec handle (d\<lparr> rxbuf := b \<rparr>) [] default_outcome (d\<lparr> rxbuf := b \<rparr>)"
      using 1 by (intro decodes.dry) simp
    moreover have "decodes dec handle d (xs @ ys) (outcome_add o1 o2) d2" by (rule decodes.message) (rule message.hyps)+
    then have "decodes dec handle ((d\<lparr> rxbuf := b \<rparr>)\<lparr> rxbuf := rxbuf (d\<lparr> rxbuf := b \<rparr>) @ x \<rparr>) (xs @ ys) (outcome_add o1 o2) d2"
      unfolding rxbuf_whole [OF message.prems] .
    ultimately show ?thesis by (intro exI conjI) (assumption, assumption, simp_all)
  next
    case (2 b')
    obtain us o3 d3 zs o4 where
      IH: "decodes dec handle (with_transport (next_seq d) (ooo d) b' d1) us o3 d3"
        "decodes dec handle (d3\<lparr> rxbuf := rxbuf d3 @ x \<rparr>) zs o4 d2" "ys = us @ zs" "o2 = outcome_add o3 o4"
      using message.IH [of b'] 2(2) by auto
    have n: "length (rxbuf d) - length buf = length b - length b'" using message.prems 2 by simp
    have a: "answered handle (d\<lparr> rxbuf := b \<rparr>) m (of_nat (length b - length b')) True d1 o1 xs"
      using message.hyps(2) answered_transport [of handle "next_seq d" "ooo d" b d] by (simp add: n)
    have "decodes dec handle (d\<lparr> rxbuf := b \<rparr>) (xs @ us) (outcome_add o1 o3) d3"
      by (rule decodes.message [of dec _ m b' handle d1]) (use 2(1) a IH(1) in simp_all)
    then show ?thesis
      using IH(2-4) by (intro exI conjI) (assumption, assumption, simp_all add: outcome_add_assoc)
  qed
qed

subsection \<open>Decoding a stream at once\<close>

definition quiet_io :: io where
  "quiet_io = \<lparr> capture = None, output_tx = None, stdout = [], stderr = [], clock_reads = 0 \<rparr>"

text \<open>The reference: all the bytes are in the buffer, one drain decodes them, and the capture buffer has the records.\<close>

definition decoded_at_once ::
    "('c, fmsg) decoder \<Rightarrow> ('c, bmsg) decoder \<Rightarrow> env \<Rightarrow> 'c direction \<Rightarrow> u8 list \<Rightarrow> (drain_outcome \<times> output_record list) option" where
  "decoded_at_once fdec bdec e d s =
     map_option (\<lambda>(d', o', i'). (o', fst (take_output_capture i')))
       (drain_direction fdec bdec e (d\<lparr> rxbuf := s \<rparr>) default_outcome (start_capture quiet_io))"

text \<open>A drain that meets no error and is not stopped is \<open>decodes\<close>.\<close>

text \<open>What a drain that ran says of its records: when all of them are messages and it did not wait, it decoded without error.\<close>

definition ran_clean ::
    "('c, 'm) decoder \<Rightarrow> ('c direction \<Rightarrow> 'm \<Rightarrow> drain_outcome \<Rightarrow> u64 \<Rightarrow> io \<Rightarrow> 'c handled run)
      \<Rightarrow> 'c direction \<Rightarrow> drain_outcome \<Rightarrow> output_record list \<Rightarrow> 'c direction \<Rightarrow> drain_outcome \<Rightarrow> bool" where
  "ran_clean dec handle d o' rs d2 o2 \<longleftrightarrow> ((\<forall>x \<in> set rs. spoken x \<noteq> None) \<and> server_negotiation_wait o2 = NoWait \<longrightarrow>
     (\<exists>xs o1. decodes dec handle d xs o1 d2 \<and> o2 = outcome_add o' o1 \<and> map spoken rs = map Some xs))"

lemma ran_clean_message:
  assumes "dec (ctx d) (rxbuf d) = (Decoded m, buf)" "answered handle d m (of_nat (length (rxbuf d) - length buf)) True d1 o1 xs"
    and "map spoken rs1 = map Some xs" "ran_clean dec handle (with_transport (next_seq d) (ooo d) buf d1) (outcome_add o' o1) rs d2 o2"
  shows "ran_clean dec handle d o' (rs1 @ rs) d2 o2"
  unfolding ran_clean_def
proof
  assume "(\<forall>x \<in> set (rs1 @ rs). spoken x \<noteq> None) \<and> server_negotiation_wait o2 = NoWait"
  then obtain ys o3 where ys: "decodes dec handle (with_transport (next_seq d) (ooo d) buf d1) ys o3 d2"
    "o2 = outcome_add (outcome_add o' o1) o3" "map spoken rs = map Some ys"
    using assms(4) by (auto simp: ran_clean_def)
  have "decodes dec handle d (xs @ ys) (outcome_add o1 o3) d2" by (rule decodes.message [OF assms(1,2) ys(1)])
  then show "\<exists>xs o1. decodes dec handle d xs o1 d2 \<and> o2 = outcome_add o' o1 \<and> map spoken (rs1 @ rs) = map Some xs"
    using ys(2,3) assms(3) by (intro exI [of _ "xs @ ys"] exI [of _ "outcome_add o1 o3"]) (simp add: outcome_add_assoc)
qed

context message_handler
begin

lemma answered_recorded:
  assumes "answered handle d m n go d1 o1 xs" "capture i = Some rs0"
  shows "\<exists>i1 rs1. handle (d\<lparr> rxbuf := buf \<rparr>) m o' n i = Some (go, with_transport (next_seq d) (ooo d) buf d1, outcome_add o' o1, i1)
    \<and> capture i1 = Some (rs0 @ rs1) \<and> map spoken rs1 = map Some xs"
proof -
  obtain i1 where i1: "handle (d\<lparr> rxbuf := buf \<rparr>) m o' n i
      = Some (go, with_transport (next_seq d) (ooo d) buf d1, outcome_add o' o1, i1)" "says xs i i1"
    using answeredD [OF assms(1)] by blast
  then obtain rs1 where "routes rs1 i i1" "map spoken rs1 = map Some xs" unfolding says_def by blast
  then show ?thesis using i1(1) routes_capture [OF _ assms(2)] by blast
qed

lemma drain_decodes:
  assumes "drain_loop dec h r d o' i = Some (d2, o2, i2)" "h = handle" "decoder_stable dec"
    and "capture i = Some rs0"
  shows "\<exists>rs. capture i2 = Some (rs0 @ rs) \<and> ran_clean dec handle d o' rs d2 o2"
  using assms
proof (induction dec h r d o' i "(d2, o2, i2)" arbitrary: rs0 rule: drain_loop.raw_induct [rotated, consumes 1, case_names step])
  case (step loop dec h r d o' i rs0)
  obtain result buf where dec: "dec (ctx d) (rxbuf d) = (result, buf)" by force
  have body: "(case result of
        NeedMore \<Rightarrow> Some (d\<lparr> rxbuf := buf \<rparr>, o', i)
      | Decoded m \<Rightarrow> Option.bind (handle (d\<lparr> rxbuf := buf \<rparr>) m o' (of_nat (length (rxbuf d) - length buf)) i)
            (\<lambda>(continue, d, o', i). if continue then loop dec handle r d o' i else Some (d, o', i))
      | DecodeError err \<Rightarrow> (let (d, i) = decode_error r err (d\<lparr> rxbuf := buf \<rparr>) i in Some (d, o', i))) = Some (d2, o2, i2)"
    using step(2) unfolding \<open>h = handle\<close> Let_def by (simp add: dec)
  note stable = \<open>decoder_stable dec\<close> [unfolded decoder_stable_def, THEN spec, THEN spec, THEN spec, of "ctx d" "rxbuf d" "[]"]
  show ?case
  proof (cases result)
    case NeedMore
    then have "buf = rxbuf d" using stable by (simp add: dec)
    then have "d2 = d" "o2 = o'" "i2 = i" "decodes dec handle d [] default_outcome d"
      using body dec by (simp_all add: NeedMore decodes.dry)
    then show ?thesis using \<open>capture i = Some rs0\<close> by (auto simp: ran_clean_def)
  next
    case (DecodeError err)
    then have "\<exists>l. capture i2 = Some (rs0 @ [Line l])"
      using body \<open>capture i = Some rs0\<close> by (auto simp: decode_error_def out_def deliver_def)
    then show ?thesis by (fastforce simp: ran_clean_def)
  next
    case (Decoded m)
    let ?n = "of_nat (length (rxbuf d) - length buf)"
    obtain go d1 o1 xs where a: "answered handle d m ?n go d1 o1 xs" "\<not> go \<longrightarrow> server_negotiation_wait o1 \<noteq> NoWait"
      using answers by blast
    obtain i1 rs1 where h: "handle (d\<lparr> rxbuf := buf \<rparr>) m o' ?n i
        = Some (go, with_transport (next_seq d) (ooo d) buf d1, outcome_add o' o1, i1)"
      and rs1: "capture i1 = Some (rs0 @ rs1)" "map spoken rs1 = map Some xs"
      using answered_recorded [OF a(1) \<open>capture i = Some rs0\<close>] by blast
    show ?thesis
    proof (cases go)
      case False
      then have "o2 = outcome_add o' o1" "i2 = i1" using body h by (simp_all add: Decoded)
      then show ?thesis using a(2) False rs1(1) by (auto simp: ran_clean_def)
    next
      case True
      then have "loop dec handle r (with_transport (next_seq d) (ooo d) buf d1) (outcome_add o' o1) i1 = Some (d2, o2, i2)"
        using body h by (simp add: Decoded)
      from step(1) [OF this [folded \<open>h = handle\<close>] \<open>h = handle\<close> \<open>decoder_stable dec\<close> rs1(1)] obtain rs
        where "capture i2 = Some ((rs0 @ rs1) @ rs)" "ran_clean dec handle (with_transport (next_seq d) (ooo d) buf d1) (outcome_add o' o1) rs d2 o2"
        by blast
      then show ?thesis
        using ran_clean_message [of dec d m buf handle d1 o1 xs rs1 o' rs d2 o2] dec Decoded a(1) True rs1(2) by auto
    qed
  qed
qed

end

subsection \<open>Draining a direction without errors\<close>

definition clean_drain ::
    "('c, fmsg) decoder \<Rightarrow> ('c, bmsg) decoder \<Rightarrow> env \<Rightarrow> 'c direction \<Rightarrow> said list \<Rightarrow> drain_outcome \<Rightarrow> 'c direction \<Rightarrow> bool" where
  "clean_drain fdec bdec e d xs o1 d2 \<longleftrightarrow>
     (if role d = Client then decodes fdec (\<lambda>d m o' n i. Some (handle_frontend e d m o' n i)) d xs o1 d2
      else decodes bdec (\<lambda>d m o' n i. map_option (Pair True) (handle_backend e d m o' n i)) d xs o1 d2)"

definition dry :: "('c, fmsg) decoder \<Rightarrow> ('c, bmsg) decoder \<Rightarrow> 'c direction \<Rightarrow> bool" where
  "dry fdec bdec d \<longleftrightarrow>
     (if role d = Client then fdec (ctx d) (rxbuf d) = (NeedMore, rxbuf d) else bdec (ctx d) (rxbuf d) = (NeedMore, rxbuf d))"

lemma clean_drain_run:
  assumes "clean_drain fdec bdec e d xs o1 d2" "\<not> encrypted o'"
  shows "\<exists>i1. drain_direction fdec bdec e d o' i = Some (d2, outcome_add o' o1, i1) \<and> says xs i i1"
proof (cases "role d = Client")
  case True
  then show ?thesis
    using decodes_drain [of fdec _ d xs o1 d2 Client o' i] assms by (simp add: clean_drain_def drain_direction_def)
next
  case False
  then show ?thesis
    using decodes_drain [of bdec _ d xs o1 d2 Server o' i] assms by (simp add: clean_drain_def drain_direction_def)
qed

lemma clean_drain_keeps:
  assumes "clean_drain fdec bdec e d xs o1 d2"
  shows "dry fdec bdec d2" "next_seq d2 = next_seq d" "ooo d2 = ooo d" "role d2 = role d" "client d2 = client d"
    "from_stream (role d) (client d) xs"
  using assms by (auto simp: clean_drain_def dry_def split: if_splits dest: decodes_keeps decodes_end)

lemma clean_drain_dry:
  "clean_drain fdec bdec e d xs o1 d2 \<Longrightarrow> dry fdec bdec d \<Longrightarrow> xs = [] \<and> o1 = default_outcome \<and> d2 = d"
  by (auto simp: clean_drain_def dry_def split: if_splits dest: decodes_stuck)

lemma clean_drain_transport:
  "clean_drain fdec bdec e d xs o1 d2 \<Longrightarrow>
     clean_drain fdec bdec e (with_transport ns q (rxbuf d) d) xs o1 (with_transport ns q (rxbuf d2) d2)"
  by (auto simp: clean_drain_def split: if_splits dest: decodes_transport)

lemma decodes_suffix:
  assumes "decoder_stable dec" "decodes dec handle d xs o1 d2"
  shows "\<exists>u. rxbuf d = u @ rxbuf d2"
  using assms(2)
proof (induction rule: decodes.induct)
  case (message d m buf d1 o1 xs ys o2 d2)
  then show ?case
    using assms(1) [unfolded decoder_stable_def, THEN spec, THEN spec, THEN spec, of "ctx d" "rxbuf d" "[]"] by auto
qed simp

lemma decodes_cut:
  assumes "decoder_stable dec" "decodes dec handle (d\<lparr> rxbuf := b @ x \<rparr>) xs o1 d2"
  shows "\<exists>ys o2 d3 zs o3. decodes dec handle (d\<lparr> rxbuf := b \<rparr>) ys o2 d3
    \<and> decodes dec handle (d3\<lparr> rxbuf := rxbuf d3 @ x \<rparr>) zs o3 d2 \<and> xs = ys @ zs \<and> o1 = outcome_add o2 o3
    \<and> role d3 = role d \<and> (\<exists>u. b = u @ rxbuf d3)"
proof -
  obtain ys o2 d3 zs o3 where *: "decodes dec handle (d\<lparr> rxbuf := b \<rparr>) ys o2 d3"
    "decodes dec handle (d3\<lparr> rxbuf := rxbuf d3 @ x \<rparr>) zs o3 d2" "xs = ys @ zs" "o1 = outcome_add o2 o3"
    using decodes_split [OF assms, of b x] by auto
  then show ?thesis
    using decodes_suffix [OF assms(1) *(1)] decodes_keeps [OF *(1)]
    by (intro exI [of _ ys] exI [of _ o2] exI [of _ d3] exI [of _ zs] exI [of _ o3]) simp
qed

lemma clean_drain_split:
  assumes "decoder_stable fdec" "decoder_stable bdec" "clean_drain fdec bdec e (d\<lparr> rxbuf := b @ x \<rparr>) xs o1 d2"
  shows "\<exists>ys o2 d3 zs o3. clean_drain fdec bdec e (d\<lparr> rxbuf := b \<rparr>) ys o2 d3
    \<and> clean_drain fdec bdec e (d3\<lparr> rxbuf := rxbuf d3 @ x \<rparr>) zs o3 d2 \<and> xs = ys @ zs \<and> o1 = outcome_add o2 o3
    \<and> (\<exists>u. b = u @ rxbuf d3)"
proof -
  show ?thesis
  proof (cases "role d = Client")
    case True
    then show ?thesis using decodes_cut [OF assms(1), where d = d and b = b and x = x] assms(3) by (fastforce simp: clean_drain_def)
  next
    case False
    then show ?thesis using decodes_cut [OF assms(2), where d = d and b = b and x = x] assms(3) by (fastforce simp: clean_drain_def)
  qed
qed

text \<open>What the reference decodes without error and without a request for encryption is a clean drain.\<close>

lemma all_spoken: "map spoken rs = map Some xs \<Longrightarrow> \<forall>x \<in> set rs. spoken x \<noteq> None"
  by (induction rs arbitrary: xs) auto

lemma decoded_at_once_clean:
  assumes "decoder_stable fdec" "decoder_stable bdec"
    and "decoded_at_once fdec bdec e d s = Some (tot, rs)" "map spoken rs = map Some xs" "server_negotiation_wait tot = NoWait"
  shows "\<exists>d2. clean_drain fdec bdec e (d\<lparr> rxbuf := s \<rparr>) xs tot d2"
proof -
  have cap: "capture (start_capture quiet_io) = Some []" by (simp add: start_capture_def)
  have enc: "\<not> encrypted default_outcome" by (simp add: default_outcome_def)
  obtain d2 i2 where run: "drain_direction fdec bdec e (d\<lparr> rxbuf := s \<rparr>) default_outcome (start_capture quiet_io) = Some (d2, tot, i2)"
    "rs = (case capture i2 of None \<Rightarrow> [] | Some rs \<Rightarrow> rs)"
    using assms(3) by (auto simp: decoded_at_once_def take_output_capture_def)
  note all = all_spoken [OF assms(4)]
  have fin: "\<exists>d2. clean_drain fdec bdec e (d\<lparr> rxbuf := s \<rparr>) xs tot d2"
    if c: "capture i2 = Some ([] @ rs') \<and> ((\<forall>x \<in> set rs'. spoken x \<noteq> None) \<and> server_negotiation_wait tot = NoWait \<longrightarrow>
        (\<exists>xs o1. clean_drain fdec bdec e (d\<lparr> rxbuf := s \<rparr>) xs o1 d2 \<and> tot = outcome_add default_outcome o1 \<and> map spoken rs' = map Some xs))" for rs'
  proof -
    have "rs' = rs" using c run(2) by simp
    then obtain ys where "clean_drain fdec bdec e (d\<lparr> rxbuf := s \<rparr>) ys tot d2" "map spoken rs = map Some ys"
      using c all assms(5) unfolding outcome_add_default by blast
    moreover have "inj Some" by simp
    ultimately show ?thesis using assms(4) by (metis inj_map_eq_map)
  qed
  show ?thesis
  proof (cases "role d = Client")
    case True
    then have l: "drain_loop fdec (\<lambda>d m o' n i. Some (handle_frontend e d m o' n i)) Client (d\<lparr> rxbuf := s \<rparr>) default_outcome
        (start_capture quiet_io) = Some (d2, tot, i2)"
      using run(1) enc by (simp add: drain_direction_def)
    have cd: "clean_drain fdec bdec e (d\<lparr> rxbuf := s \<rparr>) xs o1 d2
        \<longleftrightarrow> decodes fdec (\<lambda>d m o' n i. Some (handle_frontend e d m o' n i)) (d\<lparr> rxbuf := s \<rparr>) xs o1 d2" for xs o1
      using True by (simp add: clean_drain_def)
    show ?thesis
      by (rule exE [OF frontend.drain_decodes [OF l refl assms(1) cap, unfolded ran_clean_def, folded cd]]) (rule fin)
  next
    case False
    then have l: "drain_loop bdec (\<lambda>d m o' n i. map_option (Pair True) (handle_backend e d m o' n i)) Server (d\<lparr> rxbuf := s \<rparr>)
        default_outcome (start_capture quiet_io) = Some (d2, tot, i2)"
      using run(1) enc by (simp add: drain_direction_def)
    have cd: "clean_drain fdec bdec e (d\<lparr> rxbuf := s \<rparr>) xs o1 d2
        \<longleftrightarrow> decodes bdec (\<lambda>d m o' n i. map_option (Pair True) (handle_backend e d m o' n i)) (d\<lparr> rxbuf := s \<rparr>) xs o1 d2" for xs o1
      using False by (simp add: clean_drain_def)
    show ?thesis
      by (rule exE [OF backend.drain_decodes [OF l refl assms(2) cap, unfolded ran_clean_def, folded cd]]) (rule fin)
  qed
qed

subsection \<open>The two streams of a connection\<close>

text \<open>The messages of one direction.\<close>

definition of_role :: "role \<Rightarrow> said list \<Rightarrow> said list" where
  "of_role r xs = filter (\<lambda>x. fst (snd x) = direction_of r) xs"

lemma of_role_simps [simp]: "of_role r [] = []" "of_role r (xs @ ys) = of_role r xs @ of_role r ys"
  by (simp_all add: of_role_def)

lemma direction_of_eq [simp]: "direction_of r = direction_of r' \<longleftrightarrow> r = r'"
  by (cases r; cases r') simp_all

lemma of_role_from: "from_stream r cl xs \<Longrightarrow> of_role r' xs = (if r' = r then xs else [])"
  by (induction xs) (auto simp: of_role_def)

text \<open>From the directions \<open>start\<close> the reference decodes the stream of each role without error or request for encryption; \<open>xs r\<close> is
  what it says.\<close>

definition streams_decode ::
    "('c, fmsg) decoder \<Rightarrow> ('c, bmsg) decoder \<Rightarrow> env \<Rightarrow> (role \<Rightarrow> 'c direction) \<Rightarrow> (role \<Rightarrow> u8 list) \<Rightarrow> (role \<Rightarrow> said list) \<Rightarrow> bool" where
  "streams_decode fdec bdec e start s xs \<longleftrightarrow> (\<forall>r. \<exists>tot rs. decoded_at_once fdec bdec e (start r) (s r) = Some (tot, rs)
     \<and> map spoken rs = map Some (xs r) \<and> server_negotiation_wait tot = NoWait \<and> \<not> encrypted tot)"

lemma streams_decode_clean:
  assumes "decoder_stable fdec" "decoder_stable bdec" "streams_decode fdec bdec e start s xs"
  shows "\<exists>tot d2. clean_drain fdec bdec e ((start r)\<lparr> rxbuf := s r \<rparr>) (xs r) tot d2 \<and> server_negotiation_wait tot = NoWait \<and> \<not> encrypted tot"
  using assms(3) decoded_at_once_clean [OF assms(1,2)] unfolding streams_decode_def by metis

subsection \<open>The sample decoder\<close>

lemma typed_decoder_stable: "decoder_stable (typed_decoder f)"
  unfolding decoder_stable_def
proof (intro allI conjI)
  fix c :: "'a decode_context_scheme" and b x :: "u8 list"
  show "typed_decoder f c [] = (NeedMore, [])" by (simp add: typed_decoder_def)
  have front: "hd (b @ x) = hd b" "take 4 (drop 1 (b @ x)) = take 4 (drop 1 b)" if "5 \<le> length b"
    using that by (cases b; simp)+
  show "case typed_decoder f c b of
       (NeedMore, b') \<Rightarrow> b' = b
     | (Decoded m, b') \<Rightarrow> (\<exists>u. b = u @ b') \<and> typed_decoder f c (b @ x) = (Decoded m, b' @ x)
     | (DecodeError e, b') \<Rightarrow> \<exists>e' b''. typed_decoder f c (b @ x) = (DecodeError e', b'')"
  proof (cases "length b < 5")
    case False
    let ?n = "be_nat (take 4 (drop 1 b))"
    have d: "\<exists>u. b = u @ drop (1 + ?n) b" by (rule exI [of _ "take (1 + ?n) b"]) simp
    show ?thesis
      using False front d by (auto simp: typed_decoder_def Let_def take_append split: if_splits)
  qed (simp add: typed_decoder_def)
qed

subsection \<open>After the server accepted encryption\<close>

lemma handle_backend_add:
  "handle_backend e d m (outcome_add a b) n i
     = map_option (\<lambda>(d', b', i'). (d', outcome_add a b', i')) (handle_backend e d m b n i)"
proof -
  have count: "count_message n (outcome_add a b) = outcome_add a (count_message n b)"
    by (simp add: count_message_def outcome_add_def ac_simps)
  have negotiated: "negotiated e d (outcome_add a c) kind proto s i
      = (outcome_add a (fst (negotiated e d c kind proto s i)), snd (negotiated e d c kind proto s i))" for c kind proto s
    by (cases s) (simp_all add: negotiated_def outcome_add_def)
  show ?thesis
    by (cases m) (simp_all add: handle_backend_def count negotiated Let_def split_beta option.map_comp comp_def)
qed

lemma drain_loop_add:
  assumes "\<And>d m b n i. handle d m (outcome_add a b) n i
      = map_option (\<lambda>(go, d', b', i'). (go, d', outcome_add a b', i')) (handle d m b n i)"
    and "drain_loop dec handle r d b i = Some (d', b', i')"
  shows "drain_loop dec handle r d (outcome_add a b) i = Some (d', outcome_add a b', i')"
proof -
  let ?adds = "\<lambda>handle. \<forall>d m b n i. handle d m (outcome_add a b) n i
      = map_option (\<lambda>(go, d', b', i'). (go, d', outcome_add a b', i')) (handle d m b n i)"
  have "?adds handle \<longrightarrow> drain_loop dec handle r d (outcome_add a b) i = Some (fst (d', b', i'), outcome_add a (fst (snd (d', b', i'))), snd (snd (d', b', i')))"
  proof (rule drain_loop.raw_induct [where P = "\<lambda>dec handle r d b i res. ?adds handle
        \<longrightarrow> drain_loop dec handle r d (outcome_add a b) i = Some (fst res, outcome_add a (fst (snd res)), snd (snd res))", OF _ assms(2)], rule impI)
    fix loop dec handle r d b i res
    assume IH: "\<And>dec handle r d b i res. loop dec handle r d b i = Some res \<Longrightarrow> ?adds handle
        \<longrightarrow> drain_loop dec handle r d (outcome_add a b) i = Some (fst res, outcome_add a (fst (snd res)), snd (snd res))"
      and run: "(let before = length (rxbuf d); (result, buf) = dec (ctx d) (rxbuf d); d = d\<lparr> rxbuf := buf \<rparr>
        in case result of NeedMore \<Rightarrow> Some (d, b, i)
         | Decoded msg \<Rightarrow> Option.bind (handle d msg b (word_of_nat (before - length buf)) i)
             (\<lambda>(continue, d, b, i). if continue then loop dec handle r d b i else Some (d, b, i))
         | DecodeError err \<Rightarrow> let (d, i) = decode_error r err d i in Some (d, b, i)) = Some res"
      and adds: "?adds handle"
    obtain result buf where dec: "dec (ctx d) (rxbuf d) = (result, buf)" by (cases "dec (ctx d) (rxbuf d)")
    note unf = drain_loop.simps [of dec handle r d "outcome_add a b" i]
    show "drain_loop dec handle r d (outcome_add a b) i = Some (fst res, outcome_add a (fst (snd res)), snd (snd res))"
    proof (cases result)
      case (Decoded msg)
      then obtain go d1 b1 i1 where h: "handle (d\<lparr> rxbuf := buf \<rparr>) msg b (of_nat (length (rxbuf d) - length buf)) i = Some (go, d1, b1, i1)"
        and rest: "(if go then loop dec handle r d1 b1 i1 else Some (d1, b1, i1)) = Some res"
        using run by (auto simp: dec Let_def bind_eq_Some_conv)
      show ?thesis
      proof (cases go)
        case True
        then show ?thesis
          using IH [of dec handle r d1 b1 i1 res] rest adds h by (simp add: unf dec Decoded)
      next
        case False
        then show ?thesis using rest adds h by (auto simp: unf dec Decoded)
      qed
    next
      case (DecodeError err)
      then show ?thesis using run by (auto simp: unf dec Let_def split_beta)
    next
      case NeedMore
      then show ?thesis using run by (auto simp: unf dec Let_def)
    qed
  qed
  then show ?thesis using assms(1) by simp
qed

text \<open>C26. After the server accepts encryption decoding does not stop, whatever the warning says: from the accept byte on, the drain does with
  the rest of the buffer, which is already encrypted, what a drain of a stream in cleartext does with it: it decodes the same messages out of
  it, emits them and counts them. The caller learns of the encryption only from the outcome, when the drain has returned.\<close>

theorem server_drain_continues_after_accept:
  assumes "frontend_ok fdec" "backend_ok bdec" "role dir = Server" "\<not> encrypted r"
    and "bdec (ctx dir) (rxbuf dir) = (Decoded (SslResponse Accept), buf)"
    and "rest = dir\<lparr> rxbuf := buf, ctx := (ctx dir)\<lparr> awaiting_backend_ssl_response := False \<rparr> \<rparr>"
    and "warned = warn e Server (client dir) (lit ''SSL accepted '' @ [em_dash] @ lit '' connection is now encrypted, decoding stops here'') i"
  shows "\<exists>dir' r' i'. drain_direction fdec bdec e rest default_outcome warned = Some (dir', r', i')
    \<and> drain_direction fdec bdec e dir r i = Some (dir',
        outcome_add ((count_message (of_nat (length (rxbuf dir) - length buf)) r)\<lparr> encrypted := True \<rparr>) r', i')"
proof -
  let ?h = "\<lambda>d m o' n i. map_option (Pair True) (handle_backend e d m o' n i)"
  let ?a = "(count_message (of_nat (length (rxbuf dir) - length buf)) r)\<lparr> encrypted := True \<rparr>"
  have "lit ''SSL'' @ lit '' accepted '' = lit ''SSL accepted ''" by (simp add: lit_append [symmetric])
  then have step: "drain_direction fdec bdec e dir r i = drain_loop bdec ?h Server rest ?a warned"
    using assms(3-5)
    by (simp add: drain_direction_def drain_loop.simps [of bdec _ Server dir] handle_backend_def negotiated_def assms(6,7)
        append_assoc [symmetric] del: append_assoc)
  obtain dir' r' i' where clear: "drain_direction fdec bdec e rest default_outcome warned = Some (dir', r', i')"
    using drain_direction_drains [OF assms(1,2), of e rest default_outcome warned] by auto
  then have "drain_loop bdec ?h Server rest default_outcome warned = Some (dir', r', i')"
    using assms(3) by (simp add: drain_direction_def assms(6) default_outcome_def)
  from drain_loop_add [OF _ this, of ?a]
  have "drain_loop bdec ?h Server rest ?a warned = Some (dir', outcome_add ?a r', i')"
    by (simp add: handle_backend_add option.map_comp comp_def split_beta)
  then show ?thesis using clear step by simp
qed

definition accepting_backend :: "('c, bmsg) decoder" where
  "accepting_backend c buf = (case buf of [] \<Rightarrow> (NeedMore, buf)
     | b # bs \<Rightarrow> (Decoded (if b = 83 \<and> awaiting_backend_ssl_response c then SslResponse Accept else CommandComplete [unat b]), bs))"

theorem server_drain_continues_after_accept_witness:
  "let dir = (direction_new (clear_ctx\<lparr> awaiting_backend_ssl_response := True \<rparr>) Server sample_client)\<lparr> rxbuf := [83, 22, 3] \<rparr>
   in \<exists>dir' r' i'. drain_direction (typed_decoder sample_frontend) accepting_backend sample_env dir default_outcome sample_io
        = Some (dir', r', i') \<and> encrypted r' \<and> msgs r' = 3"
proof -
  let ?dir = "(direction_new (clear_ctx\<lparr> awaiting_backend_ssl_response := True \<rparr>) Server sample_client)\<lparr> rxbuf := [83, 22, 3] \<rparr>"
  let ?rest = "?dir\<lparr> rxbuf := [22, 3], ctx := (ctx ?dir)\<lparr> awaiting_backend_ssl_response := False \<rparr> \<rparr>"
  have d: "accepting_backend (ctx ?dir) (rxbuf ?dir) = (Decoded (SslResponse Accept), [22, 3])"
    by (simp add: accepting_backend_def direction_new_def)
  have ok: "backend_ok (accepting_backend :: (unit, bmsg) decoder)"
    by (auto simp: backend_ok_def decoder_ok_def accepting_backend_def split: list.splits)
  have dir: "role ?dir = Server" "\<not> encrypted default_outcome"
    by (simp_all add: direction_new_def default_outcome_def)
  obtain dir' r' i' w where "drain_direction (typed_decoder sample_frontend) accepting_backend sample_env ?rest default_outcome w = Some (dir', r', i')"
    "drain_direction (typed_decoder sample_frontend) accepting_backend sample_env ?dir default_outcome sample_io
      = Some (dir', outcome_add ((count_message (of_nat (length (rxbuf ?dir) - length [22, 3 :: u8])) default_outcome)\<lparr> encrypted := True \<rparr>) r', i')"
    using server_drain_continues_after_accept [OF sample_frontend_ok ok dir d refl refl] by blast
  moreover from this(1) have "msgs r' = 2"
    by (auto simp: drain_direction_def drain_loop.simps accepting_backend_def handle_backend_def count_message_def default_outcome_def
        direction_new_def)
  ultimately show ?thesis by (auto simp: Let_def count_message_def default_outcome_def)
qed

subsection \<open>What was heard\<close>

text \<open>The messages among the records that were routed; lines and status lines may stand between them.\<close>

definition heard :: "said list \<Rightarrow> io \<Rightarrow> io \<Rightarrow> bool" where
  "heard xs i j \<longleftrightarrow> (\<exists>rs. routes rs i j \<and> List.map_filter spoken rs = xs)"

lemma heard_Nil: "heard [] i i"
  unfolding heard_def by (rule exI [of _ "[]"]) (simp add: routes_refl map_filter_simps)

lemma map_filter_append: "List.map_filter f (xs @ ys) = List.map_filter f xs @ List.map_filter f ys"
  by (induction xs) (simp_all add: map_filter_simps split: option.split)

lemma heard_append: "heard xs i j \<Longrightarrow> heard ys j k \<Longrightarrow> heard (xs @ ys) i k"
  unfolding heard_def by (elim exE conjE) (intro exI conjI, erule (1) routes_trans, simp add: map_filter_append)

lemma says_heard: "says xs i j \<Longrightarrow> heard xs i j"
proof -
  have "List.map_filter spoken rs = xs" if "map spoken rs = map Some xs" for rs
    using that by (induction rs arbitrary: xs) (auto simp: map_filter_simps)
  then show "says xs i j \<Longrightarrow> heard xs i j" by (auto simp: says_def heard_def)
qed

lemma heard_status: "heard [] i (status l i)"
  unfolding heard_def status_def by (rule exI [of _ "[Status l]"]) (simp add: routes_deliver map_filter_simps)

text \<open>With a consumer the records are what its channel holds.\<close>

lemma heard_channel:
  assumes "heard ys i j" "capture i = None" "output_tx i = Some q"
  shows "\<exists>rs. output_tx j = Some (q @ rs) \<and> List.map_filter spoken rs = ys"
proof -
  have "capture (fold deliver rs i) = None \<and> output_tx (fold deliver rs i) = Some (q @ rs)" if "capture i = None" "output_tx i = Some q" for i :: io and rs q
    using that by (induction rs arbitrary: i q) (simp_all add: deliver_def)
  then show ?thesis using assms by (auto simp: heard_def routes_def)
qed

text \<open>The messages of one client.\<close>

definition of_client :: "socket_addr \<Rightarrow> said list \<Rightarrow> said list" where
  "of_client cl ys = filter (\<lambda>y. fst y = cl) ys"

lemma of_client_append [simp]: "of_client cl (ys @ zs) = of_client cl ys @ of_client cl zs"
  by (simp add: of_client_def)

lemma of_client_own: "\<forall>y \<in> set ys. fst y = cl \<Longrightarrow> of_client cl ys = ys"
  by (simp add: of_client_def)

lemma of_client_other: "\<forall>y \<in> set ys. fst y \<noteq> cl \<Longrightarrow> of_client cl ys = []"
  by (simp add: of_client_def)

lemma of_both_roles: "of_role Client ys = [] \<Longrightarrow> of_role Server ys = [] \<Longrightarrow> ys = []"
proof (induction ys)
  case (Cons y ys)
  then show ?case by (cases "fst (snd y)") (auto simp: of_role_def split: if_splits)
qed simp

subsection \<open>Many connections at once\<close>

text \<open>
  What both sources rely on to keep the messages of their connections apart: one connection moves at a time, says of its own what it
  had to say, and leaves the others as they are. \<open>awaiting k z s\<close> is that connection \<open>k\<close> has \<open>z\<close> still to say in the state \<open>s\<close>.
\<close>

locale merged_streams =
  fixes cls :: "'k \<Rightarrow> socket_addr"
    and awaiting :: "'k \<Rightarrow> (role \<Rightarrow> said list) \<Rightarrow> 's \<Rightarrow> bool"
    and sink :: "'s \<Rightarrow> io"
    and moves :: "'k \<Rightarrow> 's \<Rightarrow> 's \<Rightarrow> bool"
  assumes moves_law: "moves k s s' \<Longrightarrow> awaiting k z s \<Longrightarrow>
            \<exists>ys z'. awaiting k z' s' \<and> heard ys (sink s) (sink s') \<and> (\<forall>y \<in> set ys. fst y = cls k) \<and> (\<forall>r. z r = of_role r ys @ z' r)"
    and others_law: "moves k s s' \<Longrightarrow> l \<noteq> k \<Longrightarrow> awaiting l w s \<Longrightarrow> awaiting l w s'"
begin

text \<open>From the sinks \<open>i\<close> on \<open>ys\<close> was heard, all of it of the connections \<open>K\<close>, and of each the first part of \<open>xs\<close>, what it says in all.\<close>

definition merged :: "'k set \<Rightarrow> ('k \<Rightarrow> role \<Rightarrow> said list) \<Rightarrow> io \<Rightarrow> said list \<Rightarrow> ('k \<Rightarrow> role \<Rightarrow> said list) \<Rightarrow> 's \<Rightarrow> bool" where
  "merged K xs i ys zs s \<longleftrightarrow> heard ys i (sink s) \<and> (\<forall>y \<in> set ys. \<exists>k \<in> K. fst y = cls k)
     \<and> (\<forall>k \<in> K. awaiting k (zs k) s \<and> (\<forall>r. xs k r = of_role r (of_client (cls k) ys) @ zs k r))"

lemma merged_start: "\<forall>k \<in> K. awaiting k (xs k) s \<Longrightarrow> merged K xs (sink s) [] xs s"
  by (simp add: merged_def heard_Nil of_client_def)

lemma merged_keeps:
  "merged K xs i ys zs s \<Longrightarrow> heard [] (sink s) (sink s') \<Longrightarrow> (\<And>k w. k \<in> K \<Longrightarrow> awaiting k w s \<Longrightarrow> awaiting k w s') \<Longrightarrow> merged K xs i ys zs s'"
  using heard_append [of ys i "sink s" "[]" "sink s'"] by (simp add: merged_def)

lemma merged_joins:
  assumes m: "merged K xs i ys zs s" and "k \<notin> K" "inj_on cls (insert k K)" "awaiting k (xs k) s'" "sink s' = sink s"
    and keeps: "\<And>l w. l \<in> K \<Longrightarrow> awaiting l w s \<Longrightarrow> awaiting l w s'"
  shows "merged (insert k K) xs i ys (zs(k := xs k)) s'"
proof -
  have "fst y \<noteq> cls k" if y: "y \<in> set ys" for y
  proof -
    obtain l where "l \<in> K" "fst y = cls l" using m y unfolding merged_def by blast
    then show ?thesis using inj_onD [OF assms(3), of l k] assms(2) by auto
  qed
  then have "of_client (cls k) ys = []" by (simp add: of_client_other)
  moreover have "awaiting l ((zs(k := xs k)) l) s' \<and> (\<forall>r. xs l r = of_role r (of_client (cls l) ys) @ (zs(k := xs k)) l r)" if "l \<in> K" for l
    using m keeps that assms(2) by (auto simp: merged_def)
  ultimately show ?thesis
    using m assms(4,5) by (simp add: merged_def)
qed

lemma merged_moves:
  assumes m: "merged K xs i ys zs s" and inj: "inj_on cls K" and k: "k \<in> K" "moves k s s'"
  shows "\<exists>ys zs. merged K xs i ys zs s'"
proof -
  have was: "awaiting l (zs l) s \<and> (\<forall>r. xs l r = of_role r (of_client (cls l) ys) @ zs l r)" if "l \<in> K" for l
    using m that by (simp add: merged_def)
  obtain ys' z' where said: "awaiting k z' s'" "heard ys' (sink s) (sink s')" "\<forall>y \<in> set ys'. fst y = cls k" "\<forall>r. zs k r = of_role r ys' @ z' r"
    using moves_law [OF k(2)] was [OF k(1)] by blast
  have "awaiting l ((zs(k := z')) l) s' \<and> (\<forall>r. xs l r = of_role r (of_client (cls l) (ys @ ys')) @ (zs(k := z')) l r)" if l: "l \<in> K" for l
  proof (cases "l = k")
    case True
    then show ?thesis using was [OF l] said by (simp add: of_client_own [OF said(3)])
  next
    case False
    then have "cls l \<noteq> cls k" using inj_onD [OF inj, of l k] k(1) l by blast
    then have "\<forall>y \<in> set ys'. fst y \<noteq> cls l" using said(3) by simp
    then show ?thesis using was [OF l] False others_law [OF k(2) False] by (simp add: of_client_other)
  qed
  moreover have "heard (ys @ ys') i (sink s')" using m heard_append [OF _ said(2)] by (simp add: merged_def)
  moreover have "\<forall>y \<in> set (ys @ ys'). \<exists>k \<in> K. fst y = cls k"
    using m said(3) k(1) unfolding merged_def set_append by blast
  ultimately have "merged K xs i (ys @ ys') (zs(k := z')) s'" by (simp add: merged_def)
  then show ?thesis by blast
qed

end

end
