(* ===== verification/Proxy.thy ===== *)
theory Proxy
  imports Flow Decode_Stream
begin

text \<open>
  The proxy of mitm mode (\<open>src/proxy.rs\<close>): how a client connection is answered and its transports chosen, the two pumps that
  decode and relay, and the guard that closes the connection in the registry.

  What the network does to a connection is a script: the results of the reads, writes and handshakes in the order the
  handler makes them, and for each side the chunks its pump will read. The two pumps are tasks: the schedule of the script
  says which one runs next and, when it is about to write, whether the write succeeds; each step of a task is a read with
  the decoding that follows it, or a write. TLS is transparent: the bytes of a stream are those inside it. A write that fails
  counts as having written nothing.
\<close>

subsection \<open>Configuration\<close>

definition SSL_MAGIC :: "u8 list" where "SSL_MAGIC = [0x04, 0xd2, 0x16, 0x2f]"
definition GSS_MAGIC :: "u8 list" where "GSS_MAGIC = [0x04, 0xd2, 0x16, 0x30]"
definition CANCEL_MAGIC :: "u8 list" where "CANCEL_MAGIC = [0x04, 0xd2, 0x16, 0x2e]"
definition SSL_REQUEST :: "u8 list" where "SSL_REQUEST = [0x00, 0x00, 0x00, 0x08, 0x04, 0xd2, 0x16, 0x2f]"

record proxy_opts =
  px_listen :: rstring
  px_upstream :: rstring
  px_tls_dir :: rstring
  px_tls_cert :: "rstring option"
  px_tls_key :: "rstring option"
  px_no_upstream_tls :: bool

type_synonym io_result = "rstring + unit"

text \<open>A read of a pump: a chunk, the end of the stream when it is empty, or an error.\<close>

type_synonym pump_read = "u8 list option"

record conn_script =
  endpoints :: "rstring + socket_addr \<times> socket_addr"
  head_read :: "u8 list option"
  connect_upstream :: io_result
  head_write :: io_result
  reply_write :: io_result
  client_handshake :: io_result
  probe_write :: io_result
  probe_reply :: "u8 option"
  server_handshake :: io_result
  initial_write :: io_result
  incoming :: "role \<Rightarrow> pump_read list"
  schedule :: "(role \<times> bool) list"
  copied :: "role \<Rightarrow> u8 list"
  copy_result :: io_result

subsection \<open>The pumps\<close>

record 'c relay =
  rl_dir :: "role \<Rightarrow> 'c direction"
  rl_incoming :: "role \<Rightarrow> pump_read list"
  rl_pending :: "role \<Rightarrow> u8 list option"
  rl_written :: "role \<Rightarrow> u8 list"

definition traffic_of :: "role \<Rightarrow> traffic_direction" where
  "traffic_of r = (if r = Client then In else Out)"

definition relay_start :: "'c capture_env \<Rightarrow> socket_addr \<Rightarrow> (role \<Rightarrow> pump_read list) \<Rightarrow> u8 list \<Rightarrow> 'c relay" where
  "relay_start ce cl inc initial =
     \<lparr> rl_dir = (\<lambda>r. (for_decoding (default_ctx ce) r cl)\<lparr> rxbuf := if r = Client then initial else [] \<rparr>),
       rl_incoming = inc, rl_pending = (\<lambda>r. None), rl_written = (\<lambda>r. if r = Client then initial else []) \<rparr>"

text \<open>One step of a task; it says whether the task ended.\<close>

definition pump_step ::
    "'c capture_env \<Rightarrow> conn_ref \<Rightarrow> role \<times> bool \<Rightarrow> 'c relay \<times> metrics \<times> io \<Rightarrow> (bool \<times> 'c relay \<times> metrics \<times> io) run" where
  "pump_step ce stats = (\<lambda>(r, write_ok) (rl, m, i).
     case rl_pending rl r of
       Some chunk \<Rightarrow>
         if write_ok
         then Some (False, rl\<lparr> rl_pending := (rl_pending rl)(r := None),
                rl_written := (rl_written rl)(r := rl_written rl r @ chunk) \<rparr>, m, i)
         else Some (True, rl, m, i)
     | None \<Rightarrow>
         (case rl_incoming rl r of
            [] \<Rightarrow> Some (False, rl, m, i)
          | None # rest \<Rightarrow> Some (True, rl, m, i)
          | Some chunk # rest \<Rightarrow>
              if chunk = [] then Some (True, rl, m, i)
              else do {
                let dir = (rl_dir rl r)\<lparr> rxbuf := rxbuf (rl_dir rl r) @ chunk \<rparr>;
                (dir, outcome, i) \<leftarrow> drain_direction (fdec ce) (bdec ce) (cenv ce) dir default_outcome i;
                let m = (if 0 < msgs outcome then record_messages stats (traffic_of r) (msgs outcome) (bytes outcome) m else m);
                Some (False, rl\<lparr> rl_dir := (rl_dir rl)(r := dir), rl_incoming := (rl_incoming rl)(r := rest),
                  rl_pending := (rl_pending rl)(r := Some chunk) \<rparr>, m, i) }))"

text \<open>The relay runs until one task has ended; the other is aborted.\<close>

fun relay_run ::
    "'c capture_env \<Rightarrow> conn_ref \<Rightarrow> (role \<times> bool) list \<Rightarrow> 'c relay \<times> metrics \<times> io \<Rightarrow> ('c relay \<times> metrics \<times> io) run" where
  "relay_run ce stats [] st = Some st"
| "relay_run ce stats (e # es) st = do {
     (ended, st) \<leftarrow> pump_step ce stats e st;
     if ended then Some st else relay_run ce stats es st }"

subsection \<open>A connection\<close>

text \<open>What has become of a connection: the registry and the output, what was written to each socket before the streams
  were set up, whether each stream is in TLS, and the relay.\<close>

record 'c session =
  ss_metrics :: metrics
  ss_io :: io
  ss_to_client :: "u8 list"
  ss_to_server :: "u8 list"
  ss_client_tls :: bool
  ss_server_tls :: bool
  ss_relay :: "'c relay option"

type_synonym 'c handled = "(io_result \<times> 'c session) run"

text \<open>The \<open>?\<close> of the source: the handler goes on after a success and returns the error otherwise.\<close>

definition attempt :: "io_result \<Rightarrow> 'c session \<Rightarrow> ('c session \<Rightarrow> 'c handled) \<Rightarrow> 'c handled" where
  "attempt r s k = (case r of Inl e \<Rightarrow> Some (Inl e, s) | Inr _ \<Rightarrow> k s)"

definition raw_relay :: "conn_script \<Rightarrow> 'c session \<Rightarrow> 'c handled" where
  "raw_relay sc s =
     Some (copy_result sc, s\<lparr> ss_to_server := ss_to_server s @ copied sc Client,
       ss_to_client := ss_to_client s @ copied sc Server \<rparr>)"

definition client_transport :: "conn_script \<Rightarrow> u8 list \<Rightarrow> 'c session \<Rightarrow> ('c session \<Rightarrow> 'c handled) \<Rightarrow> 'c handled" where
  "client_transport sc body s k =
     (if body = SSL_MAGIC then
        attempt (reply_write sc) s (\<lambda>s.
        attempt (client_handshake sc) (s\<lparr> ss_to_client := ss_to_client s @ [83] \<rparr>) (\<lambda>s. k (s\<lparr> ss_client_tls := True \<rparr>)))
      else if body = GSS_MAGIC then
        attempt (reply_write sc) s (\<lambda>s. k (s\<lparr> ss_to_client := ss_to_client s @ [78] \<rparr>))
      else k s)"

definition server_transport :: "proxy_opts \<Rightarrow> conn_script \<Rightarrow> 'c session \<Rightarrow> ('c session \<Rightarrow> 'c handled) \<Rightarrow> 'c handled" where
  "server_transport opts sc s k =
     attempt (connect_upstream sc) s (\<lambda>s.
       if px_no_upstream_tls opts then k s
       else attempt (probe_write sc) s (\<lambda>s.
         let s = s\<lparr> ss_to_server := ss_to_server s @ SSL_REQUEST \<rparr> in
         if probe_reply sc = Some 83
         then attempt (server_handshake sc) s (\<lambda>s. k (s\<lparr> ss_server_tls := True \<rparr>))
         else k s))"

definition initial_bytes :: "u8 list \<Rightarrow> u8 list" where
  "initial_bytes head' = (if drop 4 head' = SSL_MAGIC \<or> drop 4 head' = GSS_MAGIC then [] else head')"

definition handle_body :: "'c capture_env \<Rightarrow> proxy_opts \<Rightarrow> conn_script \<Rightarrow> conn_ref \<Rightarrow> socket_addr \<Rightarrow> 'c session \<Rightarrow> 'c handled" where
  "handle_body ce opts sc stats cl s =
     (case head_read sc of
        None \<Rightarrow> Some (Inr (), s)
      | Some head' \<Rightarrow>
          if drop 4 head' = CANCEL_MAGIC then
            attempt (connect_upstream sc) s (\<lambda>s.
            attempt (head_write sc) s (\<lambda>s. raw_relay sc (s\<lparr> ss_to_server := ss_to_server s @ head' \<rparr>)))
          else
            client_transport sc (drop 4 head') s (\<lambda>s.
            server_transport opts sc s (\<lambda>s.
            let initial = initial_bytes head' in
            attempt (if initial = [] then Inr () else initial_write sc) s (\<lambda>s. do {
              (rl, m, i) \<leftarrow> relay_run ce stats (schedule sc) (relay_start ce cl (incoming sc) initial, ss_metrics s, ss_io s);
              Some (Inr (), s\<lparr> ss_relay := Some rl, ss_metrics := m, ss_io := i \<rparr>) }))))"

definition session_start :: "metrics \<Rightarrow> io \<Rightarrow> 'c session" where
  "session_start m i =
     \<lparr> ss_metrics = m, ss_io = i, ss_to_client = [], ss_to_server = [], ss_client_tls = False, ss_server_tls = False,
       ss_relay = None \<rparr>"

text \<open>The guard closes the connection however the handler returns.\<close>

definition guard_drop :: "'c capture_env \<Rightarrow> conn_ref \<Rightarrow> 'c session \<Rightarrow> 'c session" where
  "guard_drop ce stats s = s\<lparr> ss_metrics := close_connection (instant ce (ss_metrics s)) stats (ss_metrics s) \<rparr>"

definition handle_connection :: "'c capture_env \<Rightarrow> proxy_opts \<Rightarrow> conn_script \<Rightarrow> metrics \<Rightarrow> io \<Rightarrow> 'c handled" where
  "handle_connection ce opts sc m i =
     (case endpoints sc of
        Inl e \<Rightarrow> Some (Inl e, session_start m i)
      | Inr (cl, proxy) \<Rightarrow>
          (let (stats, m) = open_connection (instant ce m) cl proxy False m in
           map_option (\<lambda>(res, s). (res, guard_drop ce stats s)) (handle_body ce opts sc stats cl (session_start m i))))"

text \<open>The task of a connection reports an error as a status line.\<close>

definition connection_task :: "'c capture_env \<Rightarrow> proxy_opts \<Rightarrow> conn_script \<Rightarrow> socket_addr \<Rightarrow> metrics \<Rightarrow> io \<Rightarrow> (metrics \<times> io) run" where
  "connection_task ce opts sc peer m i = do {
     (res, s) \<leftarrow> handle_connection ce opts sc m i;
     Some (ss_metrics s, case res of
       Inl e \<Rightarrow> status (lit ''tapgres: connection from '' @ show_socket_addr peer @ lit '': '' @ e) (ss_io s)
     | Inr _ \<Rightarrow> ss_io s) }"

subsection \<open>What the pumps carry\<close>

text \<open>The bytes a side will send: its chunks up to the end of the stream or an error.\<close>

fun bytes_of :: "pump_read list \<Rightarrow> u8 list" where
  "bytes_of (Some chunk # rest) = (if chunk = [] then [] else chunk @ bytes_of rest)"
| "bytes_of _ = []"

definition pending_bytes :: "'c relay \<Rightarrow> role \<Rightarrow> u8 list" where
  "pending_bytes rl r = (case rl_pending rl r of None \<Rightarrow> [] | Some chunk \<Rightarrow> chunk)"

definition carried :: "'c relay \<Rightarrow> role \<Rightarrow> u8 list" where
  "carried rl r = rl_written rl r @ pending_bytes rl r @ bytes_of (rl_incoming rl r)"

lemma pump_step_carries:
  assumes "frontend_ok (fdec ce)" "backend_ok (bdec ce)"
  shows "\<exists>ended rl' i' ns. pump_step ce stats e (rl, m, i) = Some (ended, rl', fold (\<lambda>n. note_connection n stats) ns m, i')
    \<and> carried rl' = carried rl"
proof -
  obtain r ok where e: "e = (r, ok)" by (cases e)
  have same: "\<exists>ns. m = fold (\<lambda>n. note_connection n stats) ns m" by (rule exI [of _ "[]"]) simp
  consider chunk where "rl_pending rl r = Some chunk"
    | "rl_pending rl r = None" "rl_incoming rl r = []"
    | rest where "rl_pending rl r = None" "rl_incoming rl r = None # rest"
    | rest where "rl_pending rl r = None" "rl_incoming rl r = Some [] # rest"
    | chunk rest where "rl_pending rl r = None" "rl_incoming rl r = Some chunk # rest" "chunk \<noteq> []"
    by (metis list.exhaust option.exhaust)
  then show ?thesis
  proof cases
    case (1 chunk)
    then show ?thesis
      using same by (cases ok) (auto simp: pump_step_def e carried_def pending_bytes_def fun_eq_iff)
  next
    case (5 chunk rest)
    obtain d out i' where dr: "drain_direction (fdec ce) (bdec ce) (cenv ce)
        ((rl_dir rl r)\<lparr> rxbuf := rxbuf (rl_dir rl r) @ chunk \<rparr>) default_outcome i = Some (d, out, i')"
      using drain_direction_drains [OF assms] by (metis prod_cases3)
    have "(if 0 < msgs out then record_messages stats (traffic_of r) (msgs out) (bytes out) m else m)
        = fold (\<lambda>n. note_connection n stats) (if 0 < msgs out then [Traffic_Note (traffic_of r) (msgs out) (bytes out)] else []) m"
      by simp
    then obtain ns where ns: "(if 0 < msgs out then record_messages stats (traffic_of r) (msgs out) (bytes out) m else m)
        = fold (\<lambda>n. note_connection n stats) ns m" by blast
    let ?rl = "rl\<lparr> rl_dir := (rl_dir rl)(r := d), rl_incoming := (rl_incoming rl)(r := rest), rl_pending := (rl_pending rl)(r := Some chunk) \<rparr>"
    have "pump_step ce stats e (rl, m, i) = Some (False, ?rl, fold (\<lambda>n. note_connection n stats) ns m, i')"
      using 5 unfolding ns [symmetric] by (simp add: pump_step_def e dr Let_def)
    moreover have "carried ?rl = carried rl" using 5 by (auto simp: carried_def pending_bytes_def fun_eq_iff)
    ultimately show ?thesis by blast
  qed (use same in \<open>auto simp: pump_step_def e\<close>)
qed

lemma relay_run_carries:
  assumes "frontend_ok (fdec ce)" "backend_ok (bdec ce)"
  shows "\<exists>rl' i' ns. relay_run ce stats es (rl, m, i) = Some (rl', fold (\<lambda>n. note_connection n stats) ns m, i')
    \<and> carried rl' = carried rl"
proof (induction es arbitrary: rl m i)
  case Nil
  show ?case by (rule exI [of _ rl], rule exI [of _ i], rule exI [of _ "[]"]) simp
next
  case (Cons e es)
  obtain ended rl1 i1 ns where s: "pump_step ce stats e (rl, m, i) = Some (ended, rl1, fold (\<lambda>n. note_connection n stats) ns m, i1)"
    "carried rl1 = carried rl"
    using pump_step_carries [OF assms, of stats e rl m i] by (elim exE conjE)
  show ?case
  proof (cases ended)
    case True
    then show ?thesis using s by auto
  next
    case False
    obtain rl' i' ns' where "relay_run ce stats es (rl1, fold (\<lambda>n. note_connection n stats) ns m, i1)
        = Some (rl', fold (\<lambda>n. note_connection n stats) ns' (fold (\<lambda>n. note_connection n stats) ns m), i')" "carried rl' = carried rl1"
      using Cons.IH by blast
    then show ?thesis
      using False s by (intro exI [of _ rl'] exI [of _ i'] exI [of _ "ns @ ns'"]) simp
  qed
qed

subsection \<open>What the pumps decode\<close>

text \<open>What is left of each side's stream will be decoded without error or request for encryption, saying \<open>z r\<close>.\<close>

definition relay_awaits :: "'c capture_env \<Rightarrow> (role \<Rightarrow> said list) \<Rightarrow> 'c relay \<Rightarrow> bool" where
  "relay_awaits ce z rl \<longleftrightarrow> (\<forall>r. role (rl_dir rl r) = r \<and> (\<exists>o1 d2.
     clean_drain (fdec ce) (bdec ce) (cenv ce) ((rl_dir rl r)\<lparr> rxbuf := rxbuf (rl_dir rl r) @ bytes_of (rl_incoming rl r) \<rparr>) (z r) o1 d2
     \<and> server_negotiation_wait o1 = NoWait \<and> \<not> encrypted o1))"

text \<open>A side has been read: its pump has drained its direction at least once.\<close>

definition side_read :: "'c capture_env \<Rightarrow> 'c relay \<Rightarrow> role \<Rightarrow> bool" where
  "side_read ce rl r \<longleftrightarrow> dry (fdec ce) (bdec ce) (rl_dir rl r)"

text \<open>From \<open>rl\<close> to \<open>rl'\<close> the pumps said \<open>ys\<close>, all of it of the client the relay is for.\<close>

definition relay_for :: "socket_addr \<Rightarrow> 'c relay \<Rightarrow> bool" where
  "relay_for cl rl \<longleftrightarrow> (\<forall>r. client (rl_dir rl r) = cl)"

definition relay_said ::
    "'c capture_env \<Rightarrow> (role \<Rightarrow> said list) \<Rightarrow> 'c relay \<Rightarrow> io \<Rightarrow> said list \<Rightarrow> (role \<Rightarrow> said list) \<Rightarrow> 'c relay \<Rightarrow> io \<Rightarrow> bool" where
  "relay_said ce z rl i ys z' rl' i' \<longleftrightarrow> says ys i i' \<and> relay_awaits ce z' rl' \<and> (\<forall>r. z r = of_role r ys @ z' r)
    \<and> (\<forall>r. side_read ce rl r \<longrightarrow> side_read ce rl' r)
    \<and> (\<forall>r. length (bytes_of (rl_incoming rl' r)) < length (bytes_of (rl_incoming rl r)) \<longrightarrow> side_read ce rl' r)
    \<and> (\<forall>cl. relay_for cl rl \<longrightarrow> relay_for cl rl' \<and> (\<forall>y \<in> set ys. fst y = cl))"

lemma relay_said_same:
  "relay_awaits ce z rl \<Longrightarrow> rl_dir rl' = rl_dir rl \<Longrightarrow> rl_incoming rl' = rl_incoming rl \<Longrightarrow> relay_said ce z rl i [] z rl' i"
  by (simp add: relay_said_def says_Nil relay_awaits_def side_read_def relay_for_def)

lemma relay_said_trans:
  assumes "relay_said ce z rl i ys z1 rl1 i1" "relay_said ce z1 rl1 i1 ys2 z2 rl2 i2"
  shows "relay_said ce z rl i (ys @ ys2) z2 rl2 i2"
proof -
  have "side_read ce rl2 r" if "length (bytes_of (rl_incoming rl2 r)) < length (bytes_of (rl_incoming rl r))" for r
    using that assms
    by (cases "length (bytes_of (rl_incoming rl1 r)) < length (bytes_of (rl_incoming rl r))") (simp_all add: relay_said_def)
  moreover have "relay_for cl rl2 \<and> (\<forall>y \<in> set (ys @ ys2). fst y = cl)" if "relay_for cl rl" for cl
  proof -
    have "relay_for cl rl1 \<and> (\<forall>y \<in> set ys. fst y = cl)" using assms(1) that unfolding relay_said_def by blast
    moreover from this have "relay_for cl rl2 \<and> (\<forall>y \<in> set ys2. fst y = cl)" using assms(2) unfolding relay_said_def by blast
    ultimately show ?thesis by (simp add: ball_Un)
  qed
  ultimately show ?thesis
    using assms says_append [of ys i i1 ys2 i2] by (simp add: relay_said_def)
qed

lemma pump_read_says:
  assumes stable: "decoder_stable (fdec ce)" "decoder_stable (bdec ce)" and rl: "relay_awaits ce z rl"
    and "rl_pending rl r = None" "rl_incoming rl r = Some chunk # rest" "chunk \<noteq> []"
  shows "\<exists>rl' m' i' ys z'. pump_step ce stats (r, ok) (rl, m, i) = Some (False, rl', m', i') \<and> relay_said ce z rl i ys z' rl' i'"
proof -
  let ?d = "(rl_dir rl r)\<lparr> rxbuf := rxbuf (rl_dir rl r) @ chunk \<rparr>"
  have bytes: "bytes_of (rl_incoming rl r) = chunk @ bytes_of rest" using assms(5,6) by simp
  obtain o1 d2 where "clean_drain (fdec ce) (bdec ce) (cenv ce) ((rl_dir rl r)\<lparr> rxbuf := rxbuf (rl_dir rl r) @ chunk @ bytes_of rest \<rparr>) (z r) o1 d2"
    and o1: "server_negotiation_wait o1 = NoWait" "\<not> encrypted o1"
    using rl bytes unfolding relay_awaits_def by metis
  then have "clean_drain (fdec ce) (bdec ce) (cenv ce) (?d\<lparr> rxbuf := rxbuf ?d @ bytes_of rest \<rparr>) (z r) o1 d2" by simp
  from clean_drain_split [OF stable this] obtain ys o2 d3 zs o3 where
    split: "clean_drain (fdec ce) (bdec ce) (cenv ce) ?d ys o2 d3"
      "clean_drain (fdec ce) (bdec ce) (cenv ce) (d3\<lparr> rxbuf := rxbuf d3 @ bytes_of rest \<rparr>) zs o3 d2"
      "z r = ys @ zs" "o1 = outcome_add o2 o3"
    by auto
  have out: "server_negotiation_wait o3 = NoWait" "\<not> encrypted o3" using o1 split(4) by (auto split: if_splits)
  have "\<not> encrypted default_outcome" by (simp add: default_outcome_def)
  then obtain i' where run: "drain_direction (fdec ce) (bdec ce) (cenv ce) ?d default_outcome i = Some (d3, o2, i')" "says ys i i'"
    using clean_drain_run [OF split(1)] by (metis outcome_add_default(1))
  note keeps = clean_drain_keeps [OF split(1)]
  have role: "role (rl_dir rl r') = r'" for r' using rl by (simp add: relay_awaits_def)
  let ?rl = "rl\<lparr> rl_dir := (rl_dir rl)(r := d3), rl_incoming := (rl_incoming rl)(r := rest), rl_pending := (rl_pending rl)(r := Some chunk) \<rparr>"
  obtain m' where "pump_step ce stats (r, ok) (rl, m, i) = Some (False, ?rl, m', i')"
    using assms(4-6) run(1) by (simp add: pump_step_def)
  moreover have "relay_awaits ce (z(r := zs)) ?rl"
    using rl split(2) out keeps(4) role by (auto simp: relay_awaits_def)
  moreover have "from_stream r (client (rl_dir rl r)) ys" using keeps(6) role by simp
  then have "z r' = of_role r' ys @ (z(r := zs)) r'" for r' using split(3) by (simp add: of_role_from)
  moreover have "side_read ce ?rl r'" if "r' = r \<or> side_read ce rl r'" for r'
    using that keeps(1) by (auto simp: side_read_def)
  moreover have "relay_for cl ?rl \<and> (\<forall>y \<in> set ys. fst y = cl)" if "relay_for cl rl" for cl
    using that keeps(5,6) by (auto simp: relay_for_def from_stream_def)
  ultimately have "relay_said ce z rl i ys (z(r := zs)) ?rl i'"
    using run(2) by (auto simp: relay_said_def)
  then show ?thesis using \<open>pump_step ce stats (r, ok) (rl, m, i) = Some (False, ?rl, m', i')\<close> by blast
qed

lemma pump_step_says:
  assumes stable: "decoder_stable (fdec ce)" "decoder_stable (bdec ce)" and rl: "relay_awaits ce z rl"
  shows "\<exists>ended rl' m' i' ys z'. pump_step ce stats e (rl, m, i) = Some (ended, rl', m', i') \<and> relay_said ce z rl i ys z' rl' i'"
proof -
  obtain r ok where e: "e = (r, ok)" by (cases e)
  have still: ?thesis
    if "pump_step ce stats e (rl, m, i) = Some (ended, rl', m, i)" "rl_dir rl' = rl_dir rl" "rl_incoming rl' = rl_incoming rl" for ended rl'
    using that relay_said_same [OF rl that(2,3)] by blast
  have skip: ?thesis if "pump_step ce stats e (rl, m, i) = Some (ended, rl, m, i)" for ended
    using still [OF that] by simp
  consider chunk where "rl_pending rl r = Some chunk"
    | "rl_pending rl r = None" "rl_incoming rl r = []"
    | rest where "rl_pending rl r = None" "rl_incoming rl r = None # rest"
    | rest where "rl_pending rl r = None" "rl_incoming rl r = Some [] # rest"
    | chunk rest where "rl_pending rl r = None" "rl_incoming rl r = Some chunk # rest" "chunk \<noteq> []"
    by (metis list.exhaust option.exhaust)
  then show ?thesis
  proof cases
    case (1 chunk)
    show ?thesis
    proof (cases ok)
      case True
      show ?thesis
        by (rule still [of False "rl\<lparr> rl_pending := (rl_pending rl)(r := None), rl_written := (rl_written rl)(r := rl_written rl r @ chunk) \<rparr>"])
          (simp_all add: pump_step_def e 1 True)
    qed (rule skip [of True], simp add: pump_step_def e 1)
  next
    case 2
    then show ?thesis by (intro skip [of False]) (simp add: pump_step_def e)
  next
    case 3
    then show ?thesis by (intro skip [of True]) (simp add: pump_step_def e)
  next
    case 4
    then show ?thesis by (intro skip [of True]) (simp add: pump_step_def e)
  next
    case 5
    then show ?thesis using pump_read_says [OF stable rl 5, of stats ok m i] unfolding e by blast
  qed
qed

lemma relay_run_says:
  assumes stable: "decoder_stable (fdec ce)" "decoder_stable (bdec ce)" and "relay_awaits ce z rl"
  shows "\<exists>rl' m' i' ys z'. relay_run ce stats es (rl, m, i) = Some (rl', m', i') \<and> relay_said ce z rl i ys z' rl' i'"
  using assms(3)
proof (induction es arbitrary: rl m i z)
  case Nil
  then show ?case using relay_said_same [OF Nil refl refl] by auto
next
  case (Cons e es)
  obtain ended rl1 m1 i1 ys1 z1 where 1: "pump_step ce stats e (rl, m, i) = Some (ended, rl1, m1, i1)" "relay_said ce z rl i ys1 z1 rl1 i1"
    using pump_step_says [OF stable Cons.prems] by blast
  show ?case
  proof (cases ended)
    case True
    then show ?thesis using 1 by auto
  next
    case False
    have "relay_awaits ce z1 rl1" using 1(2) by (simp add: relay_said_def)
    then obtain rl' m' i' ys2 z' where "relay_run ce stats es (rl1, m1, i1) = Some (rl', m', i')" "relay_said ce z1 rl1 i1 ys2 z' rl' i'"
      using Cons.IH by blast
    then show ?thesis using 1(1) False relay_said_trans [OF 1(2), of ys2 z' rl' i'] by auto
  qed
qed

subsection \<open>However the handler returns\<close>

text \<open>\<open>returns Q h\<close>: the handler returned and left the session as \<open>Q\<close> says. Before the relay it touches neither the registry
  nor the output.\<close>

definition returns :: "('c session \<Rightarrow> bool) \<Rightarrow> 'c handled \<Rightarrow> bool" where
  "returns Q h \<longleftrightarrow> (\<exists>res s. h = Some (res, s) \<and> Q s)"

definition untouched :: "metrics \<Rightarrow> io \<Rightarrow> 'c session \<Rightarrow> bool" where
  "untouched m i s \<longleftrightarrow> ss_metrics s = m \<and> ss_io s = i \<and> ss_relay s = None"

lemma session_untouched: "untouched m i (session_start m i)"
  by (simp add: untouched_def session_start_def)

lemma returns_now: "Q s \<Longrightarrow> returns Q (Some (res, s))"
  by (simp add: returns_def)

lemma returns_attempt: "Q s \<Longrightarrow> returns Q (k s) \<Longrightarrow> returns Q (attempt r s k)"
  by (cases r) (simp_all add: attempt_def returns_now)

lemma returns_client:
  assumes "\<And>s. untouched m i s \<Longrightarrow> Q s" "untouched m i s" "\<And>s. untouched m i s \<Longrightarrow> returns Q (k s)"
  shows "returns Q (client_transport sc body s k)"
  using assms(2) by (auto simp: client_transport_def untouched_def intro!: returns_attempt assms(1,3))

lemma returns_server:
  assumes "\<And>s. untouched m i s \<Longrightarrow> Q s" "untouched m i s" "\<And>s. untouched m i s \<Longrightarrow> returns Q (k s)"
  shows "returns Q (server_transport opts sc s k)"
  using assms(2) by (auto simp: server_transport_def Let_def untouched_def intro!: returns_attempt assms(1,3))

lemma handle_body_returns:
  assumes none: "\<And>s. untouched m i s \<Longrightarrow> Q s"
    and relay: "\<And>h s. head_read sc = Some h \<Longrightarrow> untouched m i s \<Longrightarrow> \<exists>rl m' i'.
      relay_run ce stats (schedule sc) (relay_start ce cl (incoming sc) (initial_bytes h), m, i) = Some (rl, m', i')
      \<and> Q (s\<lparr> ss_relay := Some rl, ss_metrics := m', ss_io := i' \<rparr>)"
    and s: "untouched m i s"
  shows "returns Q (handle_body ce opts sc stats cl s)"
proof (cases "head_read sc")
  case None
  then show ?thesis using none [OF s] by (simp add: handle_body_def returns_now)
next
  case (Some h)
  have run: "returns Q (Option.bind (relay_run ce stats (schedule sc) (relay_start ce cl (incoming sc) b, ss_metrics s', ss_io s'))
        (\<lambda>(rl, m, i). Some (Inr (), s'\<lparr> ss_relay := Some rl, ss_metrics := m, ss_io := i \<rparr>)))"
    if "untouched m i s'" "b = initial_bytes h" for s' b
    using relay [OF Some that(1)] that by (auto simp: untouched_def returns_def)
  have cancel: "returns Q (attempt (connect_upstream sc) s (\<lambda>s. attempt (head_write sc) s (\<lambda>s.
      raw_relay sc (s\<lparr> ss_to_server := ss_to_server s @ h \<rparr>))))"
    using s by (intro returns_attempt none) (auto simp: raw_relay_def untouched_def intro!: returns_now none)
  show ?thesis
    unfolding handle_body_def Some option.case Let_def
    by (auto intro!: cancel returns_client [of m i] returns_server [of m i] returns_attempt run intro: none s)
qed

definition for_decoding_of :: "'c capture_env \<Rightarrow> socket_addr \<Rightarrow> role \<Rightarrow> 'c direction" where
  "for_decoding_of ce cl r = for_decoding (default_ctx ce) r cl"

definition relayed :: "conn_script \<Rightarrow> 'c relay option \<Rightarrow> bool" where
  "relayed sc rl = (case rl of None \<Rightarrow> True
     | Some rl \<Rightarrow> (\<exists>h. head_read sc = Some h
         \<and> (\<forall>r. carried rl r = (if r = Client then initial_bytes h else []) @ bytes_of (incoming sc r))))"

text \<open>It told the registry at most of traffic, and its relay, if any, carries what the sides send.\<close>

lemma handle_body_settled:
  assumes "frontend_ok (fdec ce)" "backend_ok (bdec ce)" "untouched m i s"
  shows "returns (\<lambda>s. (\<exists>ns. ss_metrics s = fold (\<lambda>n. note_connection n stats) ns m) \<and> relayed sc (ss_relay s))
    (handle_body ce opts sc stats cl s)"
proof (rule handle_body_returns [OF _ _ assms(3)])
  fix s :: "'a session" assume "untouched m i s"
  then show "(\<exists>ns. ss_metrics s = fold (\<lambda>n. note_connection n stats) ns m) \<and> relayed sc (ss_relay s)"
    by (auto simp: untouched_def relayed_def intro: exI [of _ "[]"])
next
  fix h and s :: "'a session" assume h: "head_read sc = Some h"
  have start: "carried (relay_start ce cl (incoming sc) b) r = (if r = Client then b else []) @ bytes_of (incoming sc r)" for b r
    by (simp add: carried_def relay_start_def pending_bytes_def)
  show "\<exists>rl m' i'. relay_run ce stats (schedule sc) (relay_start ce cl (incoming sc) (initial_bytes h), m, i) = Some (rl, m', i')
      \<and> (\<exists>ns. ss_metrics (s\<lparr> ss_relay := Some rl, ss_metrics := m', ss_io := i' \<rparr>) = fold (\<lambda>n. note_connection n stats) ns m)
      \<and> relayed sc (ss_relay (s\<lparr> ss_relay := Some rl, ss_metrics := m', ss_io := i' \<rparr>))"
    using relay_run_carries [OF assms(1,2), of stats "schedule sc" "relay_start ce cl (incoming sc) (initial_bytes h)" m i]
    by (auto simp: relayed_def h start)
qed

text \<open>What it said is what is missing of what the sides had to say.\<close>

lemma relay_start_awaits:
  assumes "decoder_stable (fdec ce)" "decoder_stable (bdec ce)"
    and "streams_decode (fdec ce) (bdec ce) (cenv ce) (for_decoding_of ce cl) (\<lambda>r. (if r = Client then b else []) @ bytes_of (inc r)) xs"
  shows "relay_awaits ce xs (relay_start ce cl inc b)"
  unfolding relay_awaits_def
proof (intro allI conjI)
  fix r
  obtain tot d2 where "clean_drain (fdec ce) (bdec ce) (cenv ce)
      ((for_decoding_of ce cl r)\<lparr> rxbuf := (if r = Client then b else []) @ bytes_of (inc r) \<rparr>) (xs r) tot d2"
    "server_negotiation_wait tot = NoWait \<and> \<not> encrypted tot"
    using streams_decode_clean [OF assms] by blast
  then show "\<exists>o1 d2. clean_drain (fdec ce) (bdec ce) (cenv ce)
      ((rl_dir (relay_start ce cl inc b) r)\<lparr> rxbuf := rxbuf (rl_dir (relay_start ce cl inc b) r) @ bytes_of (rl_incoming (relay_start ce cl inc b) r) \<rparr>)
      (xs r) o1 d2 \<and> server_negotiation_wait o1 = NoWait \<and> \<not> encrypted o1"
    by (intro exI [of _ tot] exI [of _ d2]) (auto simp: relay_start_def for_decoding_of_def)
qed (simp add: relay_start_def for_decoding_def direction_new_def)

lemma handle_body_says:
  assumes "decoder_stable (fdec ce)" "decoder_stable (bdec ce)" "head_read sc = Some h" "untouched m i s"
    and "streams_decode (fdec ce) (bdec ce) (cenv ce) (for_decoding_of ce cl)
      (\<lambda>r. (if r = Client then initial_bytes h else []) @ bytes_of (incoming sc r)) xs"
  shows "returns (\<lambda>s. \<forall>rl. ss_relay s = Some rl \<longrightarrow>
      (\<exists>ys z. relay_said ce xs (relay_start ce cl (incoming sc) (initial_bytes h)) i ys z rl (ss_io s))) (handle_body ce opts sc stats cl s)"
  by (rule handle_body_returns [OF _ _ assms(4)])
    (use relay_run_says [OF assms(1,2) relay_start_awaits [OF assms(1,2,5)], of stats "schedule sc" m i] assms(3)
      in \<open>auto simp: untouched_def\<close>)

text \<open>In a registry, opening a connection, noting about it and closing it leaves no trace among the live ones.\<close>

context connection_registry
begin

lemma notes_keep:
  assumes "inv s" "r \<in> known s"
  shows "inv (fold (\<lambda>n. note_conn n r) ns s) \<and> known (fold (\<lambda>n. note_conn n r) ns s) = known s
    \<and> live (fold (\<lambda>n. note_conn n r) ns s) = live s"
  using assms by (induction ns arbitrary: s) (simp_all add: notes_law)

lemma open_note_close:
  assumes "inv s" "can_open s" "open_conn a s = (r, s')" "r \<notin> live s"
  shows "inv (close_conn t r (fold (\<lambda>n. note_conn n r) ns s')) \<and> live (close_conn t r (fold (\<lambda>n. note_conn n r) ns s')) = live s"
proof -
  have o: "inv s'" "r \<in> known s'" "live s' = insert r (live s)" using opens_law [OF assms(1,2,3)] by auto
  then show ?thesis using notes_keep [OF o(1,2), of ns] closes_law assms(4) by auto
qed

end

lemma gss_refused_run:
  assumes "frontend_ok (fdec ce)" "backend_ok (bdec ce)" "endpoints sc = Inr (cl, px)"
    and "head_read sc = Some h" "drop 4 h = GSS_MAGIC" "reply_write sc = Inr ()" "connect_upstream sc = Inr ()"
    and "px_no_upstream_tls opts \<or> probe_write sc = Inr () \<and> (probe_reply sc = Some 83 \<longrightarrow> server_handshake sc = Inr ())"
  shows "\<exists>s rl. handle_connection ce opts sc m i = Some (Inr (), s) \<and> ss_relay s = Some rl
    \<and> ss_to_client s = [78] \<and> \<not> ss_client_tls s \<and> (ss_server_tls s \<longleftrightarrow> \<not> px_no_upstream_tls opts \<and> probe_reply sc = Some 83)
    \<and> (\<forall>r. carried rl r = bytes_of (incoming sc r))"
proof -
  obtain stats m1 where o: "open_connection (instant ce m) cl px False m = (stats, m1)"
    by (cases "open_connection (instant ce m) cl px False m")
  have magic: "GSS_MAGIC \<noteq> CANCEL_MAGIC" "GSS_MAGIC \<noteq> SSL_MAGIC" by (simp_all add: GSS_MAGIC_def CANCEL_MAGIC_def SSL_MAGIC_def)
  obtain rl i' ns where run: "relay_run ce stats (schedule sc) (relay_start ce cl (incoming sc) [], m1, i)
      = Some (rl, fold (\<lambda>n. note_connection n stats) ns m1, i')"
    "carried rl = carried (relay_start ce cl (incoming sc) [])"
    using relay_run_carries [OF assms(1,2)] by blast
  have "\<forall>r. carried rl r = bytes_of (incoming sc r)"
    by (simp add: run(2)) (simp add: carried_def relay_start_def pending_bytes_def)
  then show ?thesis
    using assms(3-8) magic run(1)
    by (cases "px_no_upstream_tls opts")
      (auto simp: handle_connection_def o handle_body_def client_transport_def server_transport_def attempt_def
        session_start_def initial_bytes_def guard_drop_def Let_def)
qed

subsection \<open>Properties\<close>

text \<open>C33. The proxy relays verbatim: when a connection was relayed, then for each side, however the two tasks were scheduled and
  whatever was decoded, the bytes written to the other side followed by the chunk being written and the bytes not yet read are
  exactly what the side sends, after the part of its first bytes that was not a request for encryption.\<close>

theorem proxy_relays_verbatim:
  assumes "frontend_ok (fdec ce)" "backend_ok (bdec ce)"
    and "handle_connection ce opts sc m i = Some (res, s)" "ss_relay s = Some rl"
  shows "\<exists>h. head_read sc = Some h \<and> (\<forall>r. rl_written rl r @ pending_bytes rl r @ bytes_of (rl_incoming rl r)
    = (if r = Client then initial_bytes h else []) @ bytes_of (incoming sc r))"
proof (cases "endpoints sc")
  case (Inl e)
  then show ?thesis using assms(3,4) by (auto simp: handle_connection_def session_start_def)
next
  case (Inr ep)
  obtain cl px where ep: "ep = (cl, px)" by (cases ep)
  obtain stats m1 where o: "open_connection (instant ce m) cl px False m = (stats, m1)"
    by (cases "open_connection (instant ce m) cl px False m")
  obtain res' s' where "handle_body ce opts sc stats cl (session_start m1 i) = Some (res', s')" "relayed sc (ss_relay s')"
    using handle_body_settled [OF assms(1,2) session_untouched] unfolding returns_def by blast
  then have "relayed sc (ss_relay s)"
    using assms(3) by (auto simp: handle_connection_def Inr ep o guard_drop_def)
  then show ?thesis by (simp add: relayed_def assms(4) carried_def)
qed

text \<open>C12. What the proxy decodes of streams that decode does not depend on how the network cut them or how its two tasks were scheduled.
  The conditions are that the decoders read messages delimited by their lengths (\<open>decoder_stable\<close>), and that all that each side sends (with the part of the client's first bytes that was not a request for encryption), drained
  at once, decodes without a decode error and holds no request for encryption; it may end inside a message. After a decode error what is
  shown does depend on the cuts, since the rest of the buffer is dropped. Then, of a connection that was relayed, the messages
  shown of each side, in order, are the first of those that decoding at once all it sends gives, and all of them once its pump has
  read every byte.\<close>

theorem proxied_messages_are_prefix:
  assumes "decoder_stable (fdec ce)" "decoder_stable (bdec ce)" "endpoints sc = Inr (cl, px)" "head_read sc = Some h"
    and "streams_decode (fdec ce) (bdec ce) (cenv ce) (for_decoding_of ce cl)
      (\<lambda>r. (if r = Client then initial_bytes h else []) @ bytes_of (incoming sc r)) xs"
    and "handle_connection ce opts sc m i = Some (res, s)" "ss_relay s = Some rl"
  shows "\<exists>ys. says ys i (ss_io s) \<and> (\<forall>r. \<exists>rest. xs r = of_role r ys @ rest
    \<and> (bytes_of (incoming sc r) \<noteq> [] \<and> bytes_of (rl_incoming rl r) = [] \<longrightarrow> rest = []))"
proof -
  obtain stats m1 where o: "open_connection (instant ce m) cl px False m = (stats, m1)"
    by (cases "open_connection (instant ce m) cl px False m")
  obtain res' s' where "handle_body ce opts sc stats cl (session_start m1 i) = Some (res', s')"
    "\<forall>rl. ss_relay s' = Some rl \<longrightarrow> (\<exists>ys z. relay_said ce xs (relay_start ce cl (incoming sc) (initial_bytes h)) i ys z rl (ss_io s'))"
    using handle_body_says [OF assms(1,2,4) session_untouched assms(5)] unfolding returns_def by blast
  then obtain ys z where said: "relay_said ce xs (relay_start ce cl (incoming sc) (initial_bytes h)) i ys z rl (ss_io s)"
    using assms(3,6,7) by (auto simp: handle_connection_def o guard_drop_def)
  have "z r = []" if some: "bytes_of (incoming sc r) \<noteq> []" and all: "bytes_of (rl_incoming rl r) = []" for r
  proof -
    have "dry (fdec ce) (bdec ce) (rl_dir rl r)"
      using said some all by (simp add: relay_said_def relay_start_def side_read_def)
    moreover obtain o1 d2 where "clean_drain (fdec ce) (bdec ce) (cenv ce) (rl_dir rl r) (z r) o1 d2"
      using said all by (auto simp: relay_said_def relay_awaits_def dest: spec [of _ r])
    ultimately show ?thesis using clean_drain_dry by blast
  qed
  moreover have "says ys i (ss_io s)" "\<forall>r. xs r = of_role r ys @ z r" using said by (simp_all add: relay_said_def)
  ultimately show ?thesis by (intro exI [of _ ys]) auto
qed

text \<open>C37. Every connection the proxy accepts is closed in the registry, however its handler returns: the handler never panics, and
  after it, on every error, cancel request, short read or end of the relay, the live connections are those there were before.\<close>

theorem proxied_connection_is_closed:
  assumes "frontend_ok (fdec ce)" "backend_ok (bdec ce)" "metrics_inv m" "room m"
  shows "\<exists>res s. handle_connection ce opts sc m i = Some (res, s) \<and> metrics_inv (ss_metrics s)
    \<and> open_refs (ss_metrics s) = open_refs m \<and> conns_live (ss_metrics s) = conns_live m"
proof (cases "endpoints sc")
  case (Inl e)
  then show ?thesis using assms(3) by (simp add: handle_connection_def session_start_def)
next
  case (Inr ep)
  obtain cl px where ep: "ep = (cl, px)" by (cases ep)
  obtain stats m1 where o: "open_connection (instant ce m) cl px False m = (stats, m1)"
    by (cases "open_connection (instant ce m) cl px False m")
  obtain res s ns where b: "handle_body ce opts sc stats cl (session_start m1 i) = Some (res, s)"
    "ss_metrics s = fold (\<lambda>n. note_connection n stats) ns m1"
    using handle_body_settled [OF assms(1,2) session_untouched] unfolding returns_def by blast
  have "stats \<notin> open_refs m" using o by (auto simp: open_connection_def Let_def open_refs_def)
  then have c: "metrics_inv (close_connection t stats (ss_metrics s))" "open_refs (close_connection t stats (ss_metrics s)) = open_refs m" for t
    using registry.open_note_close [OF assms(3,4), of "(instant ce m, cl, px, False)" stats m1] o b(2) by auto
  then have "conns_live (close_connection t stats (ss_metrics s)) = conns_live m" for t
    using registry_counts [OF c(1) [of t]] registry_counts [OF assms(3)] assms(3) c(1) [of t] by (simp add: metrics_inv_def)
  then show ?thesis using b(1) c by (simp add: handle_connection_def Inr ep o guard_drop_def)
qed

text \<open>C34. A client that asks for GSSAPI encryption first can no longer get TLS: after the refusal, when the upstream can be reached and, if TLS
  to it is not turned off, its own negotiation does not fail, the SSL request the client sends next, however it is cut and however
  the two tasks are scheduled, is not answered by the proxy. The handler wrote the refusal and nothing else to the client, whose stream stays outside
  TLS; the bytes of the request are relayed to the server like any others, inside TLS when the server accepted it; and what the relay writes to
  the client is what the server sends.\<close>

theorem gss_refusal_relays_ssl_request:
  assumes "frontend_ok (fdec ce)" "backend_ok (bdec ce)" "endpoints sc = Inr (cl, px)"
    and "head_read sc = Some h" "drop 4 h = GSS_MAGIC" "reply_write sc = Inr ()" "connect_upstream sc = Inr ()"
    and "px_no_upstream_tls opts \<or> probe_write sc = Inr () \<and> (probe_reply sc = Some 83 \<longrightarrow> server_handshake sc = Inr ())"
    and "bytes_of (incoming sc Client) = SSL_REQUEST @ rest"
  shows "\<exists>s rl. handle_connection ce opts sc m i = Some (Inr (), s) \<and> ss_relay s = Some rl
    \<and> ss_to_client s = [78] \<and> \<not> ss_client_tls s \<and> (ss_server_tls s \<longleftrightarrow> \<not> px_no_upstream_tls opts \<and> probe_reply sc = Some 83)
    \<and> rl_written rl Client @ pending_bytes rl Client @ bytes_of (rl_incoming rl Client) = SSL_REQUEST @ rest
    \<and> rl_written rl Server @ pending_bytes rl Server @ bytes_of (rl_incoming rl Server) = bytes_of (incoming sc Server)"
  using gss_refused_run [OF assms(1-8), of m i] unfolding carried_def assms(9) [symmetric] by blast

subsection \<open>Witnesses\<close>

definition sample_capture_env :: "unit capture_env" where
  "sample_capture_env = \<lparr> fdec = typed_decoder sample_frontend, bdec = typed_decoder sample_backend, cenv = sample_env,
     default_ctx = clear_ctx, instant = (\<lambda>m. 0) \<rparr>"

definition sample_opts :: proxy_opts where
  "sample_opts = \<lparr> px_listen = lit ''127.0.0.1:6432'', px_upstream = lit ''127.0.0.1:5432'', px_tls_dir = lit ''tls'',
     px_tls_cert = None, px_tls_key = None, px_no_upstream_tls = True \<rparr>"

definition sample_script :: conn_script where
  "sample_script = \<lparr> endpoints = Inr (sample_client, (IpV4 0x7F000001, 6432)), head_read = Some ([0, 0, 0, 8] @ GSS_MAGIC),
     connect_upstream = Inr (), head_write = Inr (), reply_write = Inr (), client_handshake = Inr (), probe_write = Inr (),
     probe_reply = None, server_handshake = Inr (), initial_write = Inr (),
     incoming = (\<lambda>r. if r = Client then [Some SSL_REQUEST, Some []] else []), schedule = [(Client, True), (Client, True)],
     copied = (\<lambda>r. []), copy_result = Inr () \<rparr>"

lemma sample_decoders: "frontend_ok (fdec sample_capture_env)" "backend_ok (bdec sample_capture_env)"
  by (simp_all add: sample_capture_env_def sample_frontend_ok sample_backend_ok)

lemma sample_room: "metrics_inv new_metrics" "room new_metrics"
  by (simp_all add: new_metrics_def room_def) (simp_all add: with_limits_def ID_SPACE_def)

lemma sample_gss_run:
  "\<exists>s rl. handle_connection sample_capture_env sample_opts sample_script new_metrics sample_io = Some (Inr (), s) \<and> ss_relay s = Some rl"
  using gss_refused_run [OF sample_decoders, of sample_script _ _ "[0, 0, 0, 8] @ GSS_MAGIC" sample_opts new_metrics sample_io]
  by (auto simp: sample_script_def sample_opts_def GSS_MAGIC_def)

theorem proxy_relays_verbatim_witness:
  "\<exists>s rl. handle_connection sample_capture_env sample_opts sample_script new_metrics sample_io = Some (Inr (), s) \<and> ss_relay s = Some rl
    \<and> rl_written rl Client @ pending_bytes rl Client @ bytes_of (rl_incoming rl Client) = SSL_REQUEST"
proof -
  obtain s rl where r: "handle_connection sample_capture_env sample_opts sample_script new_metrics sample_io = Some (Inr (), s)" "ss_relay s = Some rl"
    using sample_gss_run by blast
  obtain h where "head_read sample_script = Some h"
    "rl_written rl Client @ pending_bytes rl Client @ bytes_of (rl_incoming rl Client) = initial_bytes h @ bytes_of (incoming sample_script Client)"
    using proxy_relays_verbatim [OF sample_decoders r] by force
  then show ?thesis
    using r by (auto simp: sample_script_def initial_bytes_def GSS_MAGIC_def SSL_MAGIC_def SSL_REQUEST_def)
qed

text \<open>The server accepts TLS, and the SSL request comes in two pieces.\<close>

definition gss_tls_script :: conn_script where
  "gss_tls_script = sample_script\<lparr> probe_reply := Some 83,
     incoming := (\<lambda>r. if r = Client then [Some (take 3 SSL_REQUEST), Some (drop 3 SSL_REQUEST), Some []] else [Some [69]]),
     schedule := [(Client, True), (Server, True), (Client, True), (Client, True), (Client, True)] \<rparr>"

theorem gss_refusal_relays_ssl_request_witness:
  "\<exists>s rl. handle_connection sample_capture_env (sample_opts\<lparr> px_no_upstream_tls := False \<rparr>) gss_tls_script new_metrics sample_io = Some (Inr (), s)
    \<and> ss_relay s = Some rl \<and> ss_to_client s = [78] \<and> \<not> ss_client_tls s \<and> ss_server_tls s
    \<and> rl_written rl Client @ pending_bytes rl Client @ bytes_of (rl_incoming rl Client) = SSL_REQUEST"
proof -
  let ?opts = "sample_opts\<lparr> px_no_upstream_tls := False \<rparr>"
  have script: "endpoints gss_tls_script = Inr (sample_client, (IpV4 0x7F000001, 6432))" "head_read gss_tls_script = Some ([0, 0, 0, 8] @ GSS_MAGIC)"
    "drop 4 ([0, 0, 0, 8] @ GSS_MAGIC) = GSS_MAGIC" "reply_write gss_tls_script = Inr ()" "connect_upstream gss_tls_script = Inr ()"
    "px_no_upstream_tls ?opts \<or> probe_write gss_tls_script = Inr () \<and> (probe_reply gss_tls_script = Some 83 \<longrightarrow> server_handshake gss_tls_script = Inr ())"
    "bytes_of (incoming gss_tls_script Client) = SSL_REQUEST @ []"
    by (simp_all add: gss_tls_script_def sample_script_def SSL_REQUEST_def)
  have "probe_reply gss_tls_script = Some 83" by (simp add: gss_tls_script_def)
  then show ?thesis
    using gss_refusal_relays_ssl_request [OF sample_decoders script, of new_metrics sample_io] by auto
qed

theorem proxied_connection_is_closed_witness:
  "\<exists>res s. handle_connection sample_capture_env sample_opts sample_script new_metrics sample_io = Some (res, s)
    \<and> open_refs (ss_metrics s) = {} \<and> conns_live (ss_metrics s) = 0"
proof -
  have "open_refs new_metrics = {}" "conns_live new_metrics = 0" by (simp_all add: new_metrics_def with_limits_def open_refs_def)
  then show ?thesis
    using proxied_connection_is_closed [OF sample_decoders sample_room, of sample_opts sample_script sample_io] by auto
qed

text \<open>A client that starts in cleartext: its first eight bytes end inside the second message.\<close>

definition sample_head :: "u8 list" where "sample_head = [81, 0, 0, 0, 6, 65, 0, 83]"

definition cleartext_script :: conn_script where
  "cleartext_script = sample_script\<lparr> head_read := Some sample_head,
     incoming := (\<lambda>r. if r = Client then [Some [0, 0], Some [0, 4], Some []] else [Some [67, 0, 0, 0, 6, 79, 0]]),
     schedule := [(Client, True), (Server, True), (Client, True), (Client, True), (Server, True), (Client, True)] \<rparr>"

definition cleartext_said :: "role \<Rightarrow> said list" where
  "cleartext_said r = (if r = Client
     then [(sample_client, FrontendToBackend, lit ''Query'', lit ''A'', None), (sample_client, FrontendToBackend, lit ''Sync'', [], None)]
     else [(sample_client, BackendToFrontend, lit ''CommandComplete'', lit ''O'', None)])"

lemmas sample_eval = sample_capture_env_def drain_direction_def drain_loop.simps typed_decoder_def be_nat_def sample_frontend_def
  sample_backend_def handle_frontend_def handle_backend_def default_outcome_def count_message_def emit_def emit_with_detail_def
  now_def deliver_def sample_env_def ascii_text_def Let_def

lemma cleartext_streams:
  "streams_decode (fdec sample_capture_env) (bdec sample_capture_env) (cenv sample_capture_env) (for_decoding_of sample_capture_env sample_client)
     (\<lambda>r. (if r = Client then initial_bytes sample_head else []) @ bytes_of (incoming cleartext_script r)) cleartext_said"
  unfolding streams_decode_def
proof
  fix r
  show "\<exists>tot rs. decoded_at_once (fdec sample_capture_env) (bdec sample_capture_env) (cenv sample_capture_env)
       (for_decoding_of sample_capture_env sample_client r)
       ((if r = Client then initial_bytes sample_head else []) @ bytes_of (incoming cleartext_script r)) = Some (tot, rs)
     \<and> map spoken rs = map Some (cleartext_said r) \<and> server_negotiation_wait tot = NoWait \<and> \<not> encrypted tot"
    by (cases r)
      (simp_all add: cleartext_script_def cleartext_said_def sample_head_def initial_bytes_def SSL_MAGIC_def GSS_MAGIC_def for_decoding_of_def
        for_decoding_def direction_new_def decoded_at_once_def start_capture_def quiet_io_def take_output_capture_def sample_eval lit_def)
qed

lemma cleartext_run:
  "\<exists>s rl. handle_connection sample_capture_env sample_opts cleartext_script new_metrics sample_io = Some (Inr (), s) \<and> ss_relay s = Some rl
    \<and> rl_incoming rl Client = [Some []]"
proof -
  obtain stats m1 where o: "open_connection 0 sample_client (IpV4 0x7F000001, 6432) False new_metrics = (stats, m1)"
    by (cases "open_connection 0 sample_client (IpV4 0x7F000001, 6432) False new_metrics")
  show ?thesis
    by (simp add: handle_connection_def cleartext_script_def sample_script_def sample_opts_def handle_body_def sample_head_def CANCEL_MAGIC_def
        SSL_MAGIC_def GSS_MAGIC_def client_transport_def server_transport_def attempt_def session_start_def initial_bytes_def guard_drop_def o
        pump_step_def relay_start_def for_decoding_def direction_new_def traffic_of_def sample_eval)
qed

theorem proxied_messages_are_prefix_witness:
  "\<exists>s ys. handle_connection sample_capture_env sample_opts cleartext_script new_metrics sample_io = Some (Inr (), s)
    \<and> says ys sample_io (ss_io s) \<and> of_role Client ys
      = [(sample_client, FrontendToBackend, lit ''Query'', lit ''A'', None), (sample_client, FrontendToBackend, lit ''Sync'', [], None)]"
proof -
  obtain s rl where r: "handle_connection sample_capture_env sample_opts cleartext_script new_metrics sample_io = Some (Inr (), s)"
    "ss_relay s = Some rl" "rl_incoming rl Client = [Some []]"
    using cleartext_run by blast
  have dec: "decoder_stable (fdec sample_capture_env)" "decoder_stable (bdec sample_capture_env)"
    by (simp_all add: sample_capture_env_def typed_decoder_stable)
  have ep: "endpoints cleartext_script = Inr (sample_client, (IpV4 0x7F000001, 6432))" "head_read cleartext_script = Some sample_head"
    by (simp_all add: cleartext_script_def sample_script_def)
  obtain ys where ys: "says ys sample_io (ss_io s)" "\<exists>rest. cleartext_said Client = of_role Client ys @ rest
      \<and> (bytes_of (incoming cleartext_script Client) \<noteq> [] \<and> bytes_of (rl_incoming rl Client) = [] \<longrightarrow> rest = [])"
    using proxied_messages_are_prefix [OF dec ep cleartext_streams r(1,2)] by blast
  then have "of_role Client ys = cleartext_said Client"
    using r(3) by (auto simp: cleartext_script_def)
  then show ?thesis using r(1) ys(1) by (auto simp: cleartext_said_def)
qed

end
