(* ===== verification/Program.thy ===== *)
theory Program
  imports Tui_View Capture Proxy
begin

text \<open>
  The program around its parts: the source of a replay, the consumer thread that prints and records (\<open>src/main.rs\<close>),
  the start of the interactive view (\<open>src/tui.rs\<close>, \<open>run\<close> and its callers), the check that a replay is not
  recorded onto itself, and the choice \<open>main\<close> makes from the arguments (\<open>src/cli.rs\<close>).

  The consumer receives the records of the channel in the order they were sent; what a source sends and how it ends is a
  function of the disk it finds. Paths are texts; \<open>path_lib\<close> holds what the standard library does with them.
\<close>

subsection \<open>The consumer thread\<close>

record printer =
  pr_recorder :: "session_writer option"
  pr_error :: "rstring option"
  pr_stdout :: "rstring list"
  pr_stderr :: "rstring list"

definition printer_start :: "session_writer option \<Rightarrow> printer" where
  "printer_start rec = \<lparr> pr_recorder = rec, pr_error = None, pr_stdout = [], pr_stderr = [] \<rparr>"

definition record_first :: "('re, 'v) tui_env \<Rightarrow> output_record \<Rightarrow> printer \<times> world \<Rightarrow> printer \<times> world" where
  "record_first te r = (\<lambda>(p, w).
     case pr_recorder p of
       None \<Rightarrow> (p, w)
     | Some writer \<Rightarrow>
         (case session_write (storage te) (stamp te (w_readings w)) r writer (w_disk w) of
            (Inl err, fs) \<Rightarrow>
              (let message = lit ''tapgres: recording stopped: '' @ show_session_error err
               in (p\<lparr> pr_stderr := pr_stderr p @ [message], pr_error := Some message, pr_recorder := None \<rparr>,
                   \<lparr> w_disk = fs, w_readings = Suc (w_readings w) \<rparr>))
          | (Inr _, fs) \<Rightarrow> (p, \<lparr> w_disk = fs, w_readings = Suc (w_readings w) \<rparr>)))"

fun print_output :: "output_record \<Rightarrow> printer \<Rightarrow> printer" where
  "print_output (Message m d) p = p\<lparr> pr_stdout := pr_stdout p @ [dm_rendered m] \<rparr>"
| "print_output (Line s) p = p\<lparr> pr_stdout := pr_stdout p @ [s] \<rparr>"
| "print_output (Status s) p = p\<lparr> pr_stderr := pr_stderr p @ [s] \<rparr>"

definition consume :: "('re, 'v) tui_env \<Rightarrow> 're display_filter \<Rightarrow> output_record \<Rightarrow> printer \<times> world \<Rightarrow> printer \<times> world" where
  "consume te f r pw =
     (let (p, w) = record_first te r pw
      in (if output_matches (is_match te) f r then print_output r p else p, w))"

definition printer_end :: "printer \<times> world \<Rightarrow> io_result" where
  "printer_end = (\<lambda>(p, w).
     case (case pr_recorder p of Some writer \<Rightarrow> session_flush writer (w_disk w) | None \<Rightarrow> Inr ()) of
       Inl err \<Rightarrow> Inl (show_session_error err)
     | Inr _ \<Rightarrow> (case pr_error p of Some e \<Rightarrow> Inl e | None \<Rightarrow> Inr ()))"

text \<open>What a source sends and how it ends, given the disk.\<close>

type_synonym source = "disk \<Rightarrow> output_record list \<times> io_result"

definition create_recorder :: "rstring option \<Rightarrow> world \<Rightarrow> (rstring + session_writer option) \<times> world" where
  "create_recorder save w =
     (case save of
        None \<Rightarrow> (Inr None, w)
      | Some path \<Rightarrow>
          (case session_create path (w_disk w) of
             (Inl err, fs) \<Rightarrow> (Inl (show_session_error err), w\<lparr> w_disk := fs \<rparr>)
           | (Inr writer, fs) \<Rightarrow> (Inr (Some writer), w\<lparr> w_disk := fs \<rparr>)))"

definition run_stdout ::
    "('re, 'v) tui_env \<Rightarrow> 're display_filter \<Rightarrow> rstring option \<Rightarrow> source \<Rightarrow> world \<Rightarrow> io_result \<times> printer \<times> world" where
  "run_stdout te f save source w =
     (case create_recorder save w of
        (Inl err, w) \<Rightarrow> (Inl err, printer_start None, w)
      | (Inr rec, w) \<Rightarrow>
          (let (records, result) = source (w_disk w);
               (p, w) = fold (consume te f) records (printer_start rec, w)
           in (case result of Inl err \<Rightarrow> Inl err | Inr _ \<Rightarrow> printer_end (p, w), p, w)))"

subsection \<open>Replay\<close>

text \<open>The source of a replay in line mode: every record of the file, until the first bad line.\<close>

definition replay_source :: "('re, 'v) tui_env \<Rightarrow> rstring \<Rightarrow> source" where
  "replay_source te path fs =
     (case read_with (storage te) fs path (\<lambda>r outs. outs @ [r]) [] of
        (Inl err, outs) \<Rightarrow> (outs, Inl (show_session_error err))
      | (Inr _, outs) \<Rightarrow> (outs, Inr ()))"

text \<open>The source of a replay in the interactive view.\<close>

definition replay_notice :: "nat \<Rightarrow> output_record" where
  "replay_notice dropped = Status (lit ''replay: showing the newest '' @ show_nat HISTORY_CAP @ lit '' records; '' @ show_nat dropped
     @ lit '' earlier records are outside TUI history'')"

definition replay_tui_source :: "('re, 'v) tui_env \<Rightarrow> rstring \<Rightarrow> disk \<Rightarrow> output_record list" where
  "replay_tui_source te path fs =
     (case read_tail (storage te) fs path HISTORY_CAP of
        Inr (outputs, dropped) \<Rightarrow>
          (if 0 < dropped then [replay_notice dropped] else []) @ outputs
      | Inl err \<Rightarrow> [Status ([warn_sign] @ lit '' replay source error: '' @ show_session_error err)])"

subsection \<open>The start of the interactive view\<close>

definition pcap_splash_lines :: "pcap_opts \<Rightarrow> rstring list" where
  "pcap_splash_lines opts =
     [lit ''capturing interface:  '' @ (case po_interface opts of Some nm \<Rightarrow> nm | None \<Rightarrow> lit ''lo (loopback, default)''),
      lit ''monitoring port:      '' @ show_nat (unat (po_port opts)),
      lit ''cleartext connections only'']"

definition mitm_splash_lines :: "proxy_opts \<Rightarrow> rstring list" where
  "mitm_splash_lines opts =
     [lit ''point your client at:  '' @ px_listen opts,
      lit ''forwarding to:         '' @ px_upstream opts,
      (if px_tls_cert opts \<noteq> None then lit ''client TLS:  user-supplied certificate''
       else lit ''client TLS:  auto CA in '' @ px_tls_dir opts),
      (if px_no_upstream_tls opts then lit ''upstream:     cleartext'' else lit ''upstream:     TLS auto-negotiate'')]"

text \<open>The recorder is created before the source is started; the records it sends are in the channel of the view.\<close>

definition tui_run ::
    "rstring \<Rightarrow> metrics \<Rightarrow> bool \<Rightarrow> 're display_filter \<Rightarrow> rstring list \<Rightarrow> rstring option \<Rightarrow> (disk \<Rightarrow> output_record list) \<Rightarrow> world
      \<Rightarrow> (rstring + 're app) \<times> world" where
  "tui_run md m is_rich f splash save source w =
     (case create_recorder save w of
        (Inl err, w) \<Rightarrow> (Inl err, w)
      | (Inr rec, w) \<Rightarrow> (Inr ((app_new (source (w_disk w)) md m is_rich f splash)\<lparr> recorder := rec \<rparr>), w))"

definition run_replay ::
    "('re, 'v) tui_env \<Rightarrow> rstring \<Rightarrow> metrics \<Rightarrow> bool \<Rightarrow> 're display_filter \<Rightarrow> rstring option \<Rightarrow> world \<Rightarrow> (rstring + 're app) \<times> world" where
  "run_replay te path m is_rich f save w = tui_run (lit ''replay'') m is_rich f [] save (replay_tui_source te path) w"

text \<open>A live source in the view: its error, which in line mode ends the program, is the last status of the channel. The proxy may fail to
  build its runtime.\<close>

definition live_source :: "rstring \<Rightarrow> source \<Rightarrow> disk \<Rightarrow> output_record list" where
  "live_source what source fs =
     (case source fs of
        (records, Inl e) \<Rightarrow> records @ [Status ([warn_sign, 32] @ what @ e)]
      | (records, Inr _) \<Rightarrow> records)"

definition run_pcap ::
    "pcap_opts \<Rightarrow> source \<Rightarrow> metrics \<Rightarrow> bool \<Rightarrow> 're display_filter \<Rightarrow> rstring option \<Rightarrow> world \<Rightarrow> (rstring + 're app) \<times> world" where
  "run_pcap opts src m is_rich f save w =
     tui_run (lit ''pcap'') m is_rich f (pcap_splash_lines opts) save (live_source (lit ''pcap source error: '') src) w"

definition run_mitm ::
    "proxy_opts \<Rightarrow> io_result \<Rightarrow> source \<Rightarrow> metrics \<Rightarrow> bool \<Rightarrow> 're display_filter \<Rightarrow> rstring option \<Rightarrow> world \<Rightarrow> (rstring + 're app) \<times> world" where
  "run_mitm opts runtime proxy_serve m is_rich f save w =
     tui_run (lit ''mitm'') m is_rich f (mitm_splash_lines opts) save
       (case runtime of
          Inl e \<Rightarrow> (\<lambda>fs. [Status ([warn_sign, 32] @ lit ''failed to start mitm runtime: '' @ e)])
        | Inr _ \<Rightarrow> live_source (lit ''mitm source error: '') proxy_serve) w"

subsection \<open>Files\<close>

record path_lib =
  canonicalize :: "rstring \<Rightarrow> rstring + rstring"
  path_exists :: "rstring \<Rightarrow> bool"
  path_parent :: "rstring \<Rightarrow> rstring option"
  path_file_name :: "rstring \<Rightarrow> rstring option"
  path_join :: "rstring \<Rightarrow> rstring \<Rightarrow> rstring"
  metadata :: "rstring \<Rightarrow> rstring + nat \<times> nat"

definition files_share_identity :: "path_lib \<Rightarrow> rstring \<Rightarrow> rstring \<Rightarrow> rstring + bool" where
  "files_share_identity pl left' right' =
     (case metadata pl left' of
        Inl e \<Rightarrow> Inl e
      | Inr l \<Rightarrow> (case metadata pl right' of Inl e \<Rightarrow> Inl e | Inr r \<Rightarrow> Inr (l = r)))"

definition resolve_output :: "path_lib \<Rightarrow> rstring \<Rightarrow> rstring + rstring" where
  "resolve_output pl out' =
     (if path_exists pl out' then canonicalize pl out'
      else let parent = (case path_parent pl out' of Some p \<Rightarrow> if p = [] then lit ''.'' else p | None \<Rightarrow> lit ''.'') in
        (case path_file_name pl out' of
           None \<Rightarrow> Inl (lit ''invalid --save path'')
         | Some nm \<Rightarrow> (case canonicalize pl parent of Inl e \<Rightarrow> Inl e | Inr d \<Rightarrow> Inr (path_join pl d nm))))"

definition overwrite_error :: rstring where
  "overwrite_error = lit ''--save must not overwrite the --replay input file''"

definition ensure_distinct_files :: "path_lib \<Rightarrow> rstring \<Rightarrow> rstring \<Rightarrow> io_result" where
  "ensure_distinct_files pl input out' =
     (case canonicalize pl input of
        Inl e \<Rightarrow> Inl e
      | Inr i \<Rightarrow>
          (case resolve_output pl out' of
             Inl e \<Rightarrow> Inl e
           | Inr o' \<Rightarrow>
               if i = o' then Inl overwrite_error
               else if path_exists pl out' then
                 (case files_share_identity pl i o' of
                    Inl e \<Rightarrow> Inl e
                  | Inr same \<Rightarrow> if same then Inl overwrite_error else Inr ())
               else Inr ()))"

definition default_tls_dir :: "path_lib \<Rightarrow> (rstring \<Rightarrow> rstring option) \<Rightarrow> rstring" where
  "default_tls_dir pl var =
     (case var (lit ''XDG_CONFIG_HOME'') of
        Some d \<Rightarrow> path_join pl d (lit ''tapgres'')
      | None \<Rightarrow>
          (case var (lit ''HOME'') of
             Some h \<Rightarrow> path_join pl (path_join pl h (lit ''.config'')) (lit ''tapgres'')
           | None \<Rightarrow> lit ''.tapgres''))"

subsection \<open>The arguments and the choice of the source\<close>

datatype run_mode = Pcap | Mitm

record 're args =
  a_mode :: run_mode
  a_tui :: bool
  a_tui_rich :: bool
  a_display_filter :: "'re display_filter option"
  a_save :: "rstring option"
  a_replay :: "rstring option"
  a_conn_history :: nat
  a_rate_history :: nat
  a_port :: u16
  a_interface :: "rstring option"
  a_no_promisc :: bool
  a_snaplen :: int
  a_listen :: rstring
  a_upstream :: rstring
  a_tls_dir :: "rstring option"
  a_tls_cert :: "rstring option"
  a_tls_key :: "rstring option"
  a_no_upstream_tls :: bool

definition default_args :: "'re args" where
  "default_args = \<lparr> a_mode = Pcap, a_tui = False, a_tui_rich = False, a_display_filter = None, a_save = None, a_replay = None,
     a_conn_history = DEFAULT_CONNECTION_CAP, a_rate_history = DEFAULT_RATE_HISTORY, a_port = 5432, a_interface = None,
     a_no_promisc = False, a_snaplen = 65535, a_listen = lit ''127.0.0.1:15432'', a_upstream = lit ''127.0.0.1:5432'',
     a_tls_dir = None, a_tls_cert = None, a_tls_key = None, a_no_upstream_tls = False \<rparr>"

datatype 're action =
    Refuse rstring
  | ReplayTui rstring metrics bool "'re display_filter" "rstring option"
  | ReplayLines rstring "'re display_filter" "rstring option"
  | CaptureTui pcap_opts metrics bool "'re display_filter" "rstring option"
  | CaptureLines pcap_opts metrics "'re display_filter" "rstring option"
  | ProxyTui proxy_opts metrics bool "'re display_filter" "rstring option"
  | ProxyLines proxy_opts metrics "'re display_filter" "rstring option"

definition pcap_opts_of :: "'re args \<Rightarrow> pcap_opts" where
  "pcap_opts_of a = \<lparr> po_port = a_port a, po_interface = a_interface a, po_no_promisc = a_no_promisc a, po_snaplen = a_snaplen a \<rparr>"

definition proxy_opts_of :: "path_lib \<Rightarrow> (rstring \<Rightarrow> rstring option) \<Rightarrow> 're args \<Rightarrow> proxy_opts" where
  "proxy_opts_of pl var a = \<lparr> px_listen = a_listen a, px_upstream = a_upstream a,
     px_tls_dir = (case a_tls_dir a of Some d \<Rightarrow> d | None \<Rightarrow> default_tls_dir pl var),
     px_tls_cert = a_tls_cert a, px_tls_key = a_tls_key a, px_no_upstream_tls = a_no_upstream_tls a \<rparr>"

definition main_action :: "path_lib \<Rightarrow> (rstring \<Rightarrow> rstring option) \<Rightarrow> 're args \<Rightarrow> 're action" where
  "main_action pl var a =
     (let f = (case a_display_filter a of Some f \<Rightarrow> f | None \<Rightarrow> default_filter);
          m = with_limits (a_conn_history a) (a_rate_history a) in
      case a_replay a of
        Some input \<Rightarrow>
          (case (case a_save a of Some save \<Rightarrow> ensure_distinct_files pl input save | None \<Rightarrow> Inr ()) of
             Inl e \<Rightarrow> Refuse e
           | Inr _ \<Rightarrow> if a_tui a then ReplayTui input m (a_tui_rich a) f (a_save a) else ReplayLines input f (a_save a))
      | None \<Rightarrow>
          (case a_mode a of
             Pcap \<Rightarrow> if a_tui a then CaptureTui (pcap_opts_of a) m (a_tui_rich a) f (a_save a)
                      else CaptureLines (pcap_opts_of a) m f (a_save a)
           | Mitm \<Rightarrow> if a_tui a then ProxyTui (proxy_opts_of pl var a) m (a_tui_rich a) f (a_save a)
                      else ProxyLines (proxy_opts_of pl var a) m f (a_save a)))"

subsection \<open>What the consumer prints and records\<close>

definition is_status :: "output_record \<Rightarrow> bool" where
  "is_status r = (case r of Status s \<Rightarrow> True | _ \<Rightarrow> False)"

definition shown_lines :: "('re, 'v) tui_env \<Rightarrow> 're display_filter \<Rightarrow> output_record list \<Rightarrow> rstring list" where
  "shown_lines te f rs = map rendered (filter (\<lambda>r. output_matches (is_match te) f r \<and> \<not> is_status r) rs)"

definition shown_statuses :: "output_record list \<Rightarrow> rstring list" where
  "shown_statuses rs = map rendered (filter is_status rs)"

lemma shown_simps [simp]:
  "shown_lines te f [] = []" "shown_statuses [] = []"
  "shown_lines te f (r # rs) = (if output_matches (is_match te) f r \<and> \<not> is_status r then rendered r # shown_lines te f rs else shown_lines te f rs)"
  "shown_statuses (r # rs) = (if is_status r then rendered r # shown_statuses rs else shown_statuses rs)"
  by (simp_all add: shown_lines_def shown_statuses_def)

lemma print_output_shown:
  "(if output_matches (is_match te) f r then print_output r p else p)
     = p\<lparr> pr_stdout := pr_stdout p @ shown_lines te f [r], pr_stderr := pr_stderr p @ shown_statuses [r] \<rparr>"
  by (cases r) (simp_all add: is_status_def)

text \<open>\<open>printed\<close>: the consumer has taken the records \<open>rs\<close>: what the filter selects is printed, all of it is in the file, and the
  recorder still runs.\<close>

definition printed :: "('re, 'v) tui_env \<Rightarrow> 're display_filter \<Rightarrow> rstring \<Rightarrow> disk \<Rightarrow> output_record list \<Rightarrow> printer \<times> world \<Rightarrow> bool" where
  "printed te f path fs rs = (\<lambda>(p, w).
     p = (printer_start (Some \<lparr> sw_path = path \<rparr>))\<lparr> pr_stdout := shown_lines te f rs, pr_stderr := shown_statuses rs \<rparr>
     \<and> reliable fs path \<and> (\<exists>ars. map snd ars = rs \<and> (\<forall>ar \<in> set ars. storable (storage te) ar)
         \<and> w_disk w = put_file path (lines_text (storage te) ars) fs))"

lemma shown_append [simp]:
  "shown_lines te f (as @ bs) = shown_lines te f as @ shown_lines te f bs" "shown_statuses (as @ bs) = shown_statuses as @ shown_statuses bs"
  by (simp_all add: shown_lines_def shown_statuses_def)

lemma consume_printed:
  assumes "printed te f path fs rs (p, w)" "storable_any te r"
  shows "printed te f path fs (rs @ [r]) (consume te f r (p, w))"
proof -
  obtain ars where a: "p = (printer_start (Some \<lparr> sw_path = path \<rparr>))\<lparr> pr_stdout := shown_lines te f rs, pr_stderr := shown_statuses rs \<rparr>"
    "reliable fs path" "map snd ars = rs" "\<forall>ar \<in> set ars. storable (storage te) ar"
    "w_disk w = put_file path (lines_text (storage te) ars) fs"
    using assms(1) by (auto simp: printed_def)
  let ?ar = "(stamp te (w_readings w), r)"
  have st: "storable (storage te) ?ar" using assms(2) by (simp add: storable_any_def)
  have "session_write (storage te) (stamp te (w_readings w)) r \<lparr> sw_path = path \<rparr> (w_disk w)
      = (Inr (), put_file path (lines_text (storage te) (ars @ [?ar])) fs)"
    using session_write_reliable [OF st a(2)] by (simp add: a(5))
  moreover have "pr_recorder p = Some \<lparr> sw_path = path \<rparr>" by (simp add: a(1) printer_start_def)
  ultimately have "record_first te r (p, w)
      = (p, \<lparr> w_disk = put_file path (lines_text (storage te) (ars @ [?ar])) fs, w_readings = Suc (w_readings w) \<rparr>)"
    by (simp add: record_first_def del: lines_text_simps)
  then have c: "consume te f r (p, w) = (p\<lparr> pr_stdout := pr_stdout p @ shown_lines te f [r], pr_stderr := pr_stderr p @ shown_statuses [r] \<rparr>,
      \<lparr> w_disk = put_file path (lines_text (storage te) (ars @ [?ar])) fs, w_readings = Suc (w_readings w) \<rparr>)"
    by (simp only: consume_def Let_def prod.case print_output_shown)
  have "map snd (ars @ [?ar]) = rs @ [r] \<and> (\<forall>ar \<in> set (ars @ [?ar]). storable (storage te) ar)" using a(3,4) st by auto
  moreover have "p\<lparr> pr_stdout := pr_stdout p @ shown_lines te f [r], pr_stderr := pr_stderr p @ shown_statuses [r] \<rparr>
      = (printer_start (Some \<lparr> sw_path = path \<rparr>))\<lparr> pr_stdout := shown_lines te f (rs @ [r]), pr_stderr := shown_statuses (rs @ [r]) \<rparr>"
    by (simp add: a(1) del: shown_simps)
  ultimately show ?thesis
    using a(2) unfolding printed_def c prod.case by (intro conjI exI [of _ "ars @ [?ar]"]) (auto simp del: lines_text_simps)
qed

interpretation print_log: append_log "consume te f" "printed te f path fs" "storable_any te" for te f path fs
proof
  fix rs r and pw :: "printer \<times> world"
  assume "printed te f path fs rs pw" "storable_any te r"
  then show "printed te f path fs (rs @ [r]) (consume te f r pw)"
    using consume_printed [of te f path fs rs "fst pw" "snd pw" r] by simp
qed

lemma read_lines_other:
  "p \<noteq> q \<Longrightarrow> read_lines sd (put_file q t fs) p i ls c a = read_lines sd fs p i ls c a"
  by (induction ls arbitrary: i a) (simp_all split: option.split sum.split)

lemma read_with_other: "p \<noteq> q \<Longrightarrow> read_with sd (put_file q t fs) p c a = read_with sd fs p c a"
  by (simp add: read_with_def read_lines_other split: option.split)

text \<open>A run that records to a file that does not fail: what the source sends is printed and in the file.\<close>

lemma run_stdout_recorded:
  assumes "reliable (w_disk w) q" "src (put_file q [] (w_disk w)) = (all, Inr ())" "\<forall>r \<in> set all. storable_any te r"
  shows "\<exists>pr w'. run_stdout te f (Some q) src w = (Inr (), pr, w')
    \<and> pr_stdout pr = shown_lines te f all \<and> pr_stderr pr = shown_statuses all \<and> read_all (storage te) (w_disk w') q = Inr all"
proof -
  let ?start = "(printer_start (Some \<lparr> sw_path = q \<rparr>), w\<lparr> w_disk := put_file q [] (w_disk w) \<rparr>)"
  have create: "create_recorder (Some q) w = (Inr (Some \<lparr> sw_path = q \<rparr>), w\<lparr> w_disk := put_file q [] (w_disk w) \<rparr>)"
    using assms(1) by (simp add: create_recorder_def session_create_def reliable_def)
  have "printed te f q (w_disk w) [] ?start" using assms(1) by (simp add: printed_def printer_start_def)
  from print_log.pushes_logged [OF this assms(3)]
  obtain pr w' where run: "fold (consume te f) all ?start = (pr, w')" and pr: "printed te f q (w_disk w) all (pr, w')"
    by (cases "fold (consume te f) all ?start") simp
  have "printer_end (pr, w') = Inr ()"
    using pr assms(1) by (auto simp: printed_def printer_end_def printer_start_def session_flush_def reliable_def)
  moreover have "read_all (storage te) (w_disk w') q = Inr all" using pr by (auto simp: printed_def read_all_written)
  moreover have "pr_stdout pr = shown_lines te f all" "pr_stderr pr = shown_statuses all" using pr by (auto simp: printed_def)
  ultimately show ?thesis using run by (simp add: run_stdout_def create assms(2))
qed

subsection \<open>Properties\<close>

text \<open>C35. A replay that is saved is a copy: replaying a whole session into a different file that does not fail prints, in order,
  exactly the lines the filter selects, the statuses apart on the error stream, ends without an error, and the new file
  reads as the same records, those the filter hides included.\<close>

theorem saved_replay_is_copy:
  assumes "read_all (storage te) (w_disk w) p = Inr all" "p \<noteq> q" "reliable (w_disk w) q"
    and "\<forall>r \<in> set all. \<forall>n. storable (storage te) (stamp te n, r)"
  shows "\<exists>pr w'. run_stdout te f (Some q) (replay_source te p) w = (Inr (), pr, w')
    \<and> pr_stdout pr = shown_lines te f all \<and> pr_stderr pr = shown_statuses all \<and> read_all (storage te) (w_disk w') q = Inr all"
proof (rule run_stdout_recorded [OF assms(3)])
  show "replay_source te p (put_file q [] (w_disk w)) = (all, Inr ())"
    using assms(1) read_with_other [OF assms(2), of "storage te" "[]" "w_disk w" "\<lambda>r outs. outs @ [r]" "[]"]
    by (auto simp: replay_source_def read_all_def split: prod.splits sum.splits)
qed (use assms(4) in \<open>simp add: storable_any_def\<close>)

lemma read_all_other: "p \<noteq> q \<Longrightarrow> read_all sd (put_file q t fs) p = read_all sd fs p"
  by (simp add: read_all_def read_with_other)

text \<open>C36. Saving from the interactive replay loses the start of a long session, though the saving is documented to precede the cap of
  the view's history: when the session has more records than the cap, what the view receives and the file it saves to
  hold are a status line and the newest records only.\<close>

theorem replay_in_view_saves_tail_only:
  assumes "read_all (storage te) (w_disk w) p = Inr all" "HISTORY_CAP < length all" "p \<noteq> q" "reliable (w_disk w) q"
    and "notice = replay_notice (min USIZE_MAX (length all - HISTORY_CAP))"
    and "\<forall>r \<in> insert notice (set all). \<forall>n. storable (storage te) (stamp te n, r)"
  shows "\<exists>a w'. run_replay te p m is_rich f (Some q) w = (Inr a, w')
    \<and> rx a = notice # lastn HISTORY_CAP all
    \<and> read_all (storage te) (w_disk (snd (drain_channel te (rx a) (a\<lparr> rx := [] \<rparr>, w')))) q = Inr (notice # lastn HISTORY_CAP all)"
proof -
  let ?sd = "storage te" and ?fs = "put_file q [] (w_disk w)"
  have create: "create_recorder (Some q) w = (Inr (Some \<lparr> sw_path = q \<rparr>), w\<lparr> w_disk := ?fs \<rparr>)"
    using assms(4) by (simp add: create_recorder_def session_create_def reliable_def)
  have "read_tail ?sd ?fs p HISTORY_CAP = Inr (lastn HISTORY_CAP all, min USIZE_MAX (length all - HISTORY_CAP))"
    using read_tail_all [of ?sd ?fs p HISTORY_CAP] assms(1) by (simp add: read_all_other [OF assms(3)])
  moreover have "0 < min USIZE_MAX (length all - HISTORY_CAP)" using assms(2) by (simp add: USIZE_MAX_def)
  ultimately have src: "replay_tui_source te p ?fs = notice # lastn HISTORY_CAP all"
    by (simp add: replay_tui_source_def assms(5))
  define a where "a = (app_new (notice # lastn HISTORY_CAP all) (lit ''replay'') m is_rich f [])\<lparr> recorder := Some \<lparr> sw_path = q \<rparr> \<rparr>"
  have run: "run_replay te p m is_rich f (Some q) w = (Inr a, w\<lparr> w_disk := ?fs \<rparr>)"
    by (simp add: run_replay_def tui_run_def create src a_def)
  have rx: "rx a = notice # lastn HISTORY_CAP all" by (simp add: a_def app_new_def)
  have "recorded te q [] (a\<lparr> rx := [] \<rparr>, w\<lparr> w_disk := ?fs \<rparr>)"
    using assms(4) by (auto simp: recorded_def a_def intro!: exI [of _ "w_disk w"])
  moreover have "accept_source_records (fst (a\<lparr> rx := [] \<rparr>, w\<lparr> w_disk := ?fs \<rparr>))" by (simp add: a_def app_new_def)
  moreover have "\<forall>r \<in> set (rx a). storable_any te r"
    using assms(6) set_lastn_subset [of HISTORY_CAP all] by (auto simp: rx storable_any_def)
  ultimately have "recorded te q ([] @ rx a) (drain_channel te (rx a) (a\<lparr> rx := [] \<rparr>, w\<lparr> w_disk := ?fs \<rparr>))"
    by (rule drain_recorded)
  moreover obtain b v where "drain_channel te (rx a) (a\<lparr> rx := [] \<rparr>, w\<lparr> w_disk := ?fs \<rparr>) = (b, v)"
    by (cases "drain_channel te (rx a) (a\<lparr> rx := [] \<rparr>, w\<lparr> w_disk := ?fs \<rparr>)")
  ultimately show ?thesis
    using run rx recorded_reads [of te q "rx a" b v] by (simp add: rx)
qed

subsection \<open>Witnesses\<close>

lemma sample_status_storable: "10 \<notin> set tx \<Longrightarrow> storable sample_serde ([], Status tx)"
  by (simp add: storable_def serde_ok_def sample_serde_def SCHEMA_VERSION_def trim_def is_ws_def sample_message_def)

lemma sample_line_storable: "10 \<notin> set tx \<Longrightarrow> storable sample_serde ([], Line tx)"
  by (simp add: storable_def serde_ok_def sample_serde_def SCHEMA_VERSION_def trim_def is_ws_def sample_message_def)

text \<open>A disk with a session of \<open>n\<close> lines and a status.\<close>

definition long_records :: "nat \<Rightarrow> (rstring \<times> output_record) list" where
  "long_records n = ([], Status (lit ''start'')) # replicate n ([], Line (lit ''opened''))"

definition long_world :: "nat \<Rightarrow> world" where
  "long_world n = \<lparr> w_disk = put_file (lit ''a'') (lines_text sample_serde (long_records n)) sample_disk, w_readings = 0 \<rparr>"

lemma long_records_storable: "\<forall>ar \<in> set (long_records n). storable sample_serde ar"
  by (auto simp: long_records_def sample_status_storable sample_line_storable str_simps)

lemma long_world_reads: "read_all (storage sample_env) (w_disk (long_world n)) (lit ''a'') = Inr (map snd (long_records n))"
  using read_all_written [OF sample_reliable long_records_storable, of "lit ''a''" n] by (simp add: long_world_def sample_env_def)

lemma long_world_ok:
  "lit ''a'' \<noteq> lit ''b''" "reliable (w_disk (long_world n)) (lit ''b'')"
  "\<forall>r \<in> set (map snd (long_records n)). \<forall>k. storable (storage sample_env) (stamp sample_env k, r)"
  by (auto simp: long_world_def sample_reliable long_records_def sample_env_def sample_status_storable sample_line_storable str_simps)

theorem saved_replay_is_copy_witness:
  "\<exists>pr w'. run_stdout sample_env default_filter (Some (lit ''b'')) (replay_source sample_env (lit ''a'')) (long_world 2) = (Inr (), pr, w')
    \<and> pr_stdout pr = [lit ''opened'', lit ''opened''] \<and> pr_stderr pr = [lit ''start'']
    \<and> read_all sample_serde (w_disk w') (lit ''b'') = Inr [Status (lit ''start''), Line (lit ''opened''), Line (lit ''opened'')]"
proof -
  have recs: "map snd (long_records 2) = [Status (lit ''start''), Line (lit ''opened''), Line (lit ''opened'')]"
    by (simp add: long_records_def eval_nat_numeral)
  have "storage sample_env = sample_serde" by (simp add: sample_env_def)
  then show ?thesis
    using saved_replay_is_copy [OF long_world_reads [of 2] long_world_ok, of default_filter]
    by (simp add: recs is_status_def)
qed

theorem replay_in_view_saves_tail_only_witness:
  "\<exists>a w'. run_replay sample_env (lit ''a'') new_metrics False default_filter (Some (lit ''b'')) (long_world HISTORY_CAP) = (Inr a, w')
    \<and> read_all (storage sample_env) (w_disk (snd (drain_channel sample_env (rx a) (a\<lparr> rx := [] \<rparr>, w')))) (lit ''b'')
        = Inr (replay_notice 1 # replicate HISTORY_CAP (Line (lit ''opened'')))"
proof -
  let ?all = "map snd (long_records HISTORY_CAP)"
  have len: "length ?all = Suc HISTORY_CAP" by (simp add: long_records_def)
  have last: "lastn HISTORY_CAP ?all = replicate HISTORY_CAP (Line (lit ''opened''))"
    by (simp add: lastn_def long_records_def)
  have one: "replay_notice 1 = replay_notice (min USIZE_MAX (length ?all - HISTORY_CAP))" unfolding len by (simp add: USIZE_MAX_def)
  have digits: "10 \<notin> set (show_nat n)" for n using show_nat_digits [of n] by (auto simp: is_dec_def)
  have "storable (storage sample_env) (stamp sample_env k, replay_notice 1)" for k
    using digits by (simp add: sample_env_def replay_notice_def) (intro sample_status_storable, simp add: str_simps)
  then have "\<forall>r \<in> insert (replay_notice 1) (set ?all). \<forall>n. storable (storage sample_env) (stamp sample_env n, r)"
    using long_world_ok(3) by blast
  moreover have "HISTORY_CAP < length ?all" unfolding len by simp
  ultimately show ?thesis
    using replay_in_view_saves_tail_only [OF long_world_reads _ long_world_ok(1,2) one, of new_metrics False default_filter]
    unfolding last by blast
qed

end
