(* ===== verification/Capture_Stream.thy ===== *)
theory Capture_Stream
  imports Decode_Stream Capture
begin

text \<open>
  What is shown of a captured connection depends on its two byte streams alone, not on how the network cut them, in which
  order the segments were captured, or how the two directions were interleaved: reassembly (\<open>Reassembly\<close>), draining
  (\<open>Decode_Stream\<close>) and the connection table (\<open>Flow\<close>) together. The reference is \<open>decoded_at_once\<close>, one drain of the
  whole stream.

  The two directions are indexed by their role.
\<close>

definition dir_of :: "role \<Rightarrow> 'c connection \<Rightarrow> 'c direction" where
  "dir_of r c = (if r = Client then cn_client c else cn_server c)"

definition with_dir :: "role \<Rightarrow> 'c direction \<Rightarrow> 'c connection \<Rightarrow> 'c connection" where
  "with_dir r d c = (if r = Client then c\<lparr> cn_client := d \<rparr> else c\<lparr> cn_server := d \<rparr>)"

lemma with_dir_simps [simp]:
  "dir_of r' (with_dir r d c) = (if r' = r then d else dir_of r' c)"
  "cn_encrypted (with_dir r d c) = cn_encrypted c" "metrics_closed (with_dir r d c) = metrics_closed c" "cn_stats (with_dir r d c) = cn_stats c"
  by (cases r; cases r'; simp add: dir_of_def with_dir_def)+

definition side :: "u16 \<Rightarrow> tcp_segment \<Rightarrow> role" where
  "side pg_port seg = (if seg_dst_port seg = pg_port then Client else Server)"

subsection \<open>A direction that waits for the rest of its stream\<close>

text \<open>The first \<open>n\<close> bytes of \<open>s\<close> were delivered, the decoder asks for more, and what is left of the stream will be decoded
  without error or request for encryption, saying \<open>zs\<close>.\<close>

definition awaits :: "'c capture_env \<Rightarrow> u32 \<Rightarrow> u8 list \<Rightarrow> nat \<Rightarrow> said list \<Rightarrow> 'c direction \<Rightarrow> bool" where
  "awaits ce base s n zs d \<longleftrightarrow> stream_inv base s n d \<and> dry (fdec ce) (bdec ce) d
     \<and> (\<exists>o1 d2. clean_drain (fdec ce) (bdec ce) (cenv ce) (d\<lparr> rxbuf := rxbuf d @ drop n s \<rparr>) zs o1 d2
          \<and> server_negotiation_wait o1 = NoWait \<and> \<not> encrypted o1)"

lemma feed_fields [simp]:
  "role (feed seq syn data d) = role d" "client (feed seq syn data d) = client d"
  "ctx (feed seq syn data d) = ctx d" "row_desc (feed seq syn data d) = row_desc d"
  by (simp_all add: feed_def Let_def append_chunk_def split_beta split: option.split)

lemma with_transport_fields:
  "with_transport (next_seq f) (ooo f) (rxbuf f) d = f \<longleftrightarrow>
     role f = role d \<and> client f = client d \<and> ctx f = ctx d \<and> row_desc f = row_desc d"
  by (cases f; cases d) (auto simp: with_transport_def)

lemma rxbuf_given: "with_transport ns q b (d\<lparr> rxbuf := x \<rparr>) = with_transport ns q b d"
  by (simp add: with_transport_def)

lemma feed_transport:
  "with_transport (next_seq (feed seq syn data d)) (ooo (feed seq syn data d)) (rxbuf (feed seq syn data d)) d = feed seq syn data d"
  by (simp add: with_transport_fields)

text \<open>A piece of the stream arrives and the direction is drained.\<close>

lemma awaits_feed:
  assumes stable: "decoder_stable (fdec ce)" "decoder_stable (bdec ce)"
    and d: "awaits ce base s n zs d" and p: "piece s k data" and len: "length s < 2 ^ 31"
  shows "\<exists>n' ys o1 d1 zs'. (\<forall>i. \<exists>i1. drain_direction (fdec ce) (bdec ce) (cenv ce) (feed (seq_at base k) False data d) default_outcome i
        = Some (d1, o1, i1) \<and> says ys i i1)
    \<and> server_negotiation_wait o1 = NoWait \<and> \<not> encrypted o1 \<and> zs = ys @ zs' \<and> from_stream (role d) (client d) ys
    \<and> awaits ce base s n' zs' d1 \<and> role d1 = role d \<and> client d1 = client d
    \<and> next_seq d1 = next_seq (feed (seq_at base k) False data d) \<and> ooo d1 = ooo (feed (seq_at base k) False data d)
    \<and> (\<exists>u. rxbuf (feed (seq_at base k) False data d) = u @ rxbuf d1)"
proof -
  define f where "f = feed (seq_at base k) False data d"
  have inv: "stream_inv base s n d" using d by (simp add: awaits_def)
  have "k \<le> length s" "n \<le> length s" using p inv by (simp_all add: piece_def stream_inv_def)
  then have "\<bar>int k - int n\<bar> < 2 ^ 31" using len by simp
  then obtain n' where n': "stream_inv base s n' f" "delivers s n n' (rxbuf d) (rxbuf f)"
    using feed_stream [OF inv p] len unfolding f_def SEQ_SPACE_def by auto
  obtain o0 d2 where c: "clean_drain (fdec ce) (bdec ce) (cenv ce) (d\<lparr> rxbuf := rxbuf d @ drop n s \<rparr>) zs o0 d2"
    "server_negotiation_wait o0 = NoWait" "\<not> encrypted o0"
    using d by (auto simp: awaits_def)
  have "take (n' - n) (drop n s) @ drop n' s = drop n s"
    using n'(2) by (metis append_take_drop_id delivers_def drop_drop le_add_diff_inverse2)
  then have rest: "rxbuf d @ drop n s = rxbuf f @ drop n' s"
    using n'(2) by (simp add: delivers_def)
  have f: "with_transport (next_seq f) (ooo f) b d = f\<lparr> rxbuf := b \<rparr>" for b
    unfolding f_def by (subst feed_transport [symmetric]) simp
  have "clean_drain (fdec ce) (bdec ce) (cenv ce) (f\<lparr> rxbuf := rxbuf f @ drop n' s \<rparr>) zs o0 (with_transport (next_seq f) (ooo f) (rxbuf d2) d2)"
    using clean_drain_transport [OF c(1), of "next_seq f" "ooo f"] by (simp add: rest rxbuf_given f)
  from clean_drain_split [OF stable this] obtain ys o1 d3 zs' o2 where
    split: "clean_drain (fdec ce) (bdec ce) (cenv ce) f ys o1 d3"
      "clean_drain (fdec ce) (bdec ce) (cenv ce) (d3\<lparr> rxbuf := rxbuf d3 @ drop n' s \<rparr>) zs' o2 (with_transport (next_seq f) (ooo f) (rxbuf d2) d2)"
      "zs = ys @ zs'" "o0 = outcome_add o1 o2" "\<exists>u. rxbuf f = u @ rxbuf d3"
    by auto
  have out: "server_negotiation_wait o1 = NoWait \<and> \<not> encrypted o1" "server_negotiation_wait o2 = NoWait \<and> \<not> encrypted o2"
    using c(2,3) split(4) by (auto split: if_splits)
  have "\<not> encrypted default_outcome" by (simp add: default_outcome_def)
  then have run: "\<exists>i1. drain_direction (fdec ce) (bdec ce) (cenv ce) f default_outcome i = Some (d3, o1, i1) \<and> says ys i i1" for i
    using clean_drain_run [OF split(1), of default_outcome i] by simp
  note keeps = clean_drain_keeps [OF split(1)]
  have "awaits ce base s n' zs' d3"
    using n'(1) keeps split(2) out(2) by (auto simp: awaits_def stream_inv_def)
  then show ?thesis
    using run out(1) split(3,5) keeps unfolding f_def [symmetric]
    by (intro exI [of _ n'] exI [of _ ys] exI [of _ o1] exI [of _ d3] exI [of _ zs']) (simp add: f_def)
qed

text \<open>Nothing of a fixed segmentation is lost while the decoder takes from the front.\<close>

definition arrived :: "u32 \<Rightarrow> u8 list list \<Rightarrow> nat set \<Rightarrow> 'c direction \<Rightarrow> bool" where
  "arrived base cs A d \<longleftrightarrow> (\<exists>seen. segments_inv base cs A d seen)"

lemma arrived_feed:
  assumes "\<forall>c \<in> set cs. c \<noteq> []" "length (concat cs) < 2 ^ 31" "i < length cs" "arrived base cs A d"
    and "next_seq d1 = next_seq (feed (seq_key base cs i) False (cs ! i) d)" "ooo d1 = ooo (feed (seq_key base cs i) False (cs ! i) d)"
    and "rxbuf (feed (seq_key base cs i) False (cs ! i) d) = u @ rxbuf d1"
  shows "arrived base cs (insert i A) d1"
proof -
  obtain seen where "segments_inv base cs A d seen" using assms(4) by (auto simp: arrived_def)
  then have "segments_inv base cs (insert i A) (feed (seq_key base cs i) False (cs ! i) d) seen"
    by (rule feed_segment [OF assms(1-3)])
  then have "segments_inv base cs (insert i A) d1 (seen @ u)"
    using assms(5-7) by (simp add: segments_inv_def)
  then show ?thesis by (auto simp: arrived_def)
qed

text \<open>When all of it has arrived the whole stream was delivered, and nothing is left to be said.\<close>

lemma awaits_all:
  assumes "awaits ce base (concat cs) n zs d" "arrived base cs A d" "\<forall>i < length cs. i \<in> A" "length (concat cs) < 2 ^ 31"
  shows "zs = []"
proof -
  obtain j B seen where j: "A = {..<j} \<union> B" "B \<subseteq> {Suc j..<length cs}" "j \<le> length cs" "next_seq d = Some (seq_key base cs j)"
    using assms(2) by (auto simp: arrived_def segments_inv_def)
  have "\<not> j < length cs" using assms(3) j(1,2) by auto
  then have "next_seq d = Some (seq_at base (length (concat cs)))" using j(3,4) by (simp add: seq_key_def off_def)
  moreover have "next_seq d = Some (seq_at base n)" "n \<le> length (concat cs)"
    using assms(1) by (simp_all add: awaits_def stream_inv_def)
  ultimately have "n = length (concat cs)"
    using assms(4) by (intro seq_at_inj [of base]) (simp_all add: SEQ_SPACE_def)
  then obtain o1 d2 where "clean_drain (fdec ce) (bdec ce) (cenv ce) d zs o1 d2" "dry (fdec ce) (bdec ce) d"
    using assms(1) by (auto simp: awaits_def)
  then show ?thesis using clean_drain_dry by blast
qed

subsection \<open>A connection\<close>

lemma connection_handle_side:
  assumes "\<not> cn_encrypted c" "\<not> seg_syn seg" "server_negotiation_wait o1 = NoWait" "\<not> encrypted o1"
    and "drain_direction (fdec ce) (bdec ce) (cenv ce) (feed (seg_seq seg) False (seg_payload seg) (dir_of (side pg_port seg) c)) default_outcome i
      = Some (d1, o1, i1)"
  shows "\<exists>m'. connection_handle ce seg pg_port c m i = Some (with_dir (side pg_port seg) d1 c, m', i1)"
  using assms
  by (cases "seg_dst_port seg = pg_port")
    (simp_all add: connection_handle_def side_def dir_of_def with_dir_def arm_server_def Let_def)

definition plain_segment :: "u16 \<Rightarrow> conn_key \<Rightarrow> tcp_segment \<Rightarrow> bool" where
  "plain_segment pg_port k seg \<longleftrightarrow> classify seg pg_port = Some k \<and> \<not> seg_syn seg \<and> \<not> seg_rst seg \<and> \<not> seg_fin seg"

definition stream_segment :: "u16 \<Rightarrow> conn_key \<Rightarrow> (role \<Rightarrow> u32) \<Rightarrow> (role \<Rightarrow> u8 list) \<Rightarrow> tcp_segment \<Rightarrow> bool" where
  "stream_segment pg_port k base s seg \<longleftrightarrow> plain_segment pg_port k seg
     \<and> (\<exists>p. seg_seq seg = seq_at (base (side pg_port seg)) p \<and> piece (s (side pg_port seg)) p (seg_payload seg))"

text \<open>The same where the segment may be the last of its side.\<close>

definition stream_data :: "u16 \<Rightarrow> conn_key \<Rightarrow> (role \<Rightarrow> u32) \<Rightarrow> (role \<Rightarrow> u8 list) \<Rightarrow> tcp_segment \<Rightarrow> bool" where
  "stream_data pg_port k base s seg \<longleftrightarrow> classify seg pg_port = Some k \<and> \<not> seg_syn seg \<and> \<not> seg_rst seg
     \<and> (\<exists>p. seg_seq seg = seq_at (base (side pg_port seg)) p \<and> piece (s (side pg_port seg)) p (seg_payload seg))"

lemma stream_segment_data: "stream_segment pg_port k base s seg \<Longrightarrow> stream_data pg_port k base s seg"
  by (simp add: stream_segment_def stream_data_def plain_segment_def)

definition conn_awaits ::
    "'c capture_env \<Rightarrow> (role \<Rightarrow> u32) \<Rightarrow> (role \<Rightarrow> u8 list) \<Rightarrow> (role \<Rightarrow> nat) \<Rightarrow> (role \<Rightarrow> said list) \<Rightarrow> 'c connection \<Rightarrow> bool" where
  "conn_awaits ce base s n z c \<longleftrightarrow> \<not> cn_encrypted c
     \<and> (\<forall>r. role (dir_of r c) = r \<and> awaits ce (base r) (s r) (n r) (z r) (dir_of r c))"

text \<open>The indices of the segments of a fixed segmentation that have arrived on a side.\<close>

definition whole_segments :: "u16 \<Rightarrow> (role \<Rightarrow> u32) \<Rightarrow> role \<Rightarrow> u8 list list \<Rightarrow> tcp_segment list \<Rightarrow> bool" where
  "whole_segments pg_port base r cs segs \<longleftrightarrow>
     (\<forall>seg \<in> set segs. side pg_port seg = r \<longrightarrow> (\<exists>i < length cs. seg_seq seg = seq_key (base r) cs i \<and> seg_payload seg = cs ! i))"

definition indices :: "u16 \<Rightarrow> (role \<Rightarrow> u32) \<Rightarrow> role \<Rightarrow> u8 list list \<Rightarrow> tcp_segment list \<Rightarrow> nat set" where
  "indices pg_port base r cs segs = {i. i < length cs \<and> (\<exists>seg \<in> set segs. side pg_port seg = r \<and> seg_seq seg = seq_key (base r) cs i)}"

lemma indices_one:
  assumes "\<forall>c \<in> set cs. c \<noteq> []" "length (concat cs) < 2 ^ 31" "i < length cs" "seg_seq seg = seq_key (base (side pg_port seg)) cs i"
  shows "indices pg_port base (side pg_port seg) cs [seg] = {i}"
proof -
  have "length (concat cs) < SEQ_SPACE" using assms(2) by (simp add: SEQ_SPACE_def)
  then have "seq_key (base (side pg_port seg)) cs i = seq_key (base (side pg_port seg)) cs j \<longleftrightarrow> j = i" if "j < length cs" for j
    using seq_key_inj [OF assms(1), of i j "base (side pg_port seg)"] assms(3) that by auto
  then show ?thesis using assms(3,4) by (auto simp: indices_def)
qed

text \<open>What arrived on either side grows by the segments \<open>segs\<close>, for any segmentation they are of.\<close>

definition grows :: "u16 \<Rightarrow> (role \<Rightarrow> u32) \<Rightarrow> tcp_segment list \<Rightarrow> 'c connection \<Rightarrow> 'c connection \<Rightarrow> bool" where
  "grows pg_port base segs c c' \<longleftrightarrow> (\<forall>r cs A. (\<forall>c \<in> set cs. c \<noteq> []) \<and> length (concat cs) < 2 ^ 31 \<and> arrived (base r) cs A (dir_of r c)
     \<and> whole_segments pg_port base r cs segs \<longrightarrow> arrived (base r) cs (A \<union> indices pg_port base r cs segs) (dir_of r c'))"

lemma grows_Nil: "grows pg_port base [] c c"
  by (simp add: grows_def indices_def)

lemma grows_append:
  assumes "grows pg_port base as c c1" "grows pg_port base bs c1 c2"
  shows "grows pg_port base (as @ bs) c c2"
  unfolding grows_def
proof (intro allI impI)
  fix r cs A
  assume cs: "(\<forall>c \<in> set cs. c \<noteq> []) \<and> length (concat cs) < 2 ^ 31 \<and> arrived (base r) cs A (dir_of r c) \<and> whole_segments pg_port base r cs (as @ bs)"
  have "A \<union> indices pg_port base r cs (as @ bs) = (A \<union> indices pg_port base r cs as) \<union> indices pg_port base r cs bs"
    by (auto simp: indices_def)
  moreover have "whole_segments pg_port base r cs as" "whole_segments pg_port base r cs bs"
    using cs by (auto simp: whole_segments_def)
  ultimately show "arrived (base r) cs (A \<union> indices pg_port base r cs (as @ bs)) (dir_of r c2)"
    using assms cs unfolding grows_def by metis
qed

text \<open>All messages of a connection are labelled with its client.\<close>

definition conn_for :: "socket_addr \<Rightarrow> 'c connection \<Rightarrow> bool" where
  "conn_for cl c \<longleftrightarrow> (\<forall>r. client (dir_of r c) = cl)"

lemma stream_grows:
  assumes "role d1 = side pg_port seg" "next_seq d1 = next_seq f" "ooo d1 = ooo f" "rxbuf f = u @ rxbuf d1"
    and "f = feed (seg_seq seg) False (seg_payload seg) (dir_of (side pg_port seg) c)"
  shows "grows pg_port base [seg] c (with_dir (side pg_port seg) d1 c)"
  unfolding grows_def
proof (intro allI impI)
  fix r cs A
  assume cs: "(\<forall>c \<in> set cs. c \<noteq> []) \<and> length (concat cs) < 2 ^ 31 \<and> arrived (base r) cs A (dir_of r c) \<and> whole_segments pg_port base r cs [seg]"
  show "arrived (base r) cs (A \<union> indices pg_port base r cs [seg]) (dir_of r (with_dir (side pg_port seg) d1 c))"
  proof (cases "r = side pg_port seg")
    case False
    then have "indices pg_port base r cs [seg] = {}" by (auto simp: indices_def)
    then show ?thesis using cs False by simp
  next
    case True
    then obtain i where i: "i < length cs" "seg_seq seg = seq_key (base r) cs i" "seg_payload seg = cs ! i"
      using cs by (auto simp: whole_segments_def)
    have ne: "\<forall>c \<in> set cs. c \<noteq> []" "length (concat cs) < 2 ^ 31" "arrived (base r) cs A (dir_of r c)" using cs by blast+
    show ?thesis
      using arrived_feed [OF ne(1,2) i(1) ne(3), of d1 u] indices_one [OF ne(1,2) i(1), of seg base pg_port] assms i True by simp
  qed
qed

lemma stream_handled:
  assumes stable: "decoder_stable (fdec ce)" "decoder_stable (bdec ce)"
    and c: "conn_awaits ce base s n z c" and len: "\<forall>r. length (s r) < 2 ^ 31" and seg: "stream_data pg_port k base s seg"
  shows "\<exists>c' m' i' n' z' xs. connection_handle ce seg pg_port c m i = Some (c', m', i') \<and> conn_awaits ce base s n' z' c'
    \<and> says xs i i' \<and> (\<forall>r. z r = of_role r xs @ z' r) \<and> grows pg_port base [seg] c c' \<and> cn_stats c' = cn_stats c \<and> metrics_closed c' = metrics_closed c
    \<and> (\<forall>cl. conn_for cl c \<longrightarrow> conn_for cl c' \<and> (\<forall>x \<in> set xs. fst x = cl))"
proof -
  let ?r = "side pg_port seg" and ?d = "dir_of (side pg_port seg) c"
  obtain p where p: "seg_seq seg = seq_at (base ?r) p" "piece (s ?r) p (seg_payload seg)" and plain: "\<not> seg_syn seg"
    using seg by (auto simp: stream_data_def)
  let ?f = "feed (seg_seq seg) False (seg_payload seg) ?d"
  have a: "awaits ce (base ?r) (s ?r) (n ?r) (z ?r) ?d" "role ?d = ?r" "\<not> cn_encrypted c"
    using c by (simp_all add: conn_awaits_def)
  have "length (s ?r) < 2 ^ 31" using len by blast
  from awaits_feed [OF stable a(1) p(2) this] obtain n' ys o1 d1 zs' u where
    d1: "\<forall>i. \<exists>i1. drain_direction (fdec ce) (bdec ce) (cenv ce) ?f default_outcome i = Some (d1, o1, i1) \<and> says ys i i1"
      "server_negotiation_wait o1 = NoWait" "\<not> encrypted o1" "z ?r = ys @ zs'" "from_stream ?r (client ?d) ys" "client d1 = client ?d"
      "awaits ce (base ?r) (s ?r) n' zs' d1" "role d1 = ?r" "next_seq d1 = next_seq ?f" "ooo d1 = ooo ?f" "rxbuf ?f = u @ rxbuf d1"
    unfolding p(1) [symmetric] a(2) by blast
  obtain i1 where i1: "drain_direction (fdec ce) (bdec ce) (cenv ce) ?f default_outcome i = Some (d1, o1, i1)" "says ys i i1"
    using d1(1) by blast
  let ?c = "with_dir ?r d1 c" and ?n = "n(?r := n')" and ?z = "z(?r := zs')"
  obtain m' where "connection_handle ce seg pg_port c m i = Some (?c, m', i1)"
    using connection_handle_side [OF a(3) plain d1(2,3) i1(1)] by blast
  moreover have "conn_awaits ce base s ?n ?z ?c" using c d1(7,8) by (auto simp: conn_awaits_def)
  moreover have "z r = of_role r ys @ ?z r" for r using d1(4) of_role_from [OF d1(5)] by simp
  moreover have "grows pg_port base [seg] c ?c" by (rule stream_grows [OF d1(8-11) refl])
  moreover have "conn_for cl ?c \<and> (\<forall>x \<in> set ys. fst x = cl)" if "conn_for cl c" for cl
    using that d1(5,6) by (simp add: conn_for_def from_stream_def)
  ultimately show ?thesis
    using i1(2) by (intro exI [of _ ?c] exI [of _ m'] exI [of _ i1] exI [of _ ?n] exI [of _ ?z] exI [of _ ys]) simp
qed

lemma stream_step:
  assumes stable: "decoder_stable (fdec ce)" "decoder_stable (bdec ce)"
    and c: "map_of (fl_map st) k = Some c" "conn_awaits ce base s n z c" and len: "\<forall>r. length (s r) < 2 ^ 31"
    and seg: "stream_segment pg_port k base s seg"
  shows "\<exists>st' c' n' z' xs. table_handle ce seg pg_port st = Some st' \<and> map_of (fl_map st') k = Some c' \<and> conn_awaits ce base s n' z' c'
    \<and> says xs (fl_io st) (fl_io st') \<and> (\<forall>r. z r = of_role r xs @ z' r) \<and> grows pg_port base [seg] c c'"
proof -
  obtain c' m' i' n' z' xs where h: "connection_handle ce seg pg_port c (fl_metrics st) (fl_io st) = Some (c', m', i')"
    "conn_awaits ce base s n' z' c'" "says xs (fl_io st) i'" "\<forall>r. z r = of_role r xs @ z' r" "grows pg_port base [seg] c c'"
    using stream_handled [OF stable c(2) len stream_segment_data [OF seg]] by blast
  have "classify seg pg_port = Some k" "\<not> seg_syn seg" "\<not> seg_fin seg" "\<not> seg_rst seg"
    using seg by (simp_all add: stream_segment_def plain_segment_def)
  from table_handle_data [OF c(1) this h(1)] show ?thesis
    using h(2-) by (intro exI [of _ "\<lparr> fl_map = AList.update k c' (fl_map st), fl_metrics = m', fl_io = i' \<rparr>"] exI [of _ c'] exI [of _ n'] exI [of _ z'] exI [of _ xs])
      (simp add: update_conv')
qed

lemma stream_run:
  assumes stable: "decoder_stable (fdec ce)" "decoder_stable (bdec ce)" and len: "\<forall>r. length (s r) < 2 ^ 31"
    and "map_of (fl_map st) k = Some c" "conn_awaits ce base s n z c" "\<forall>seg \<in> set segs. stream_segment pg_port k base s seg"
  shows "\<exists>st' c' n' z' xs. capture_run ce pg_port segs st = Some st' \<and> map_of (fl_map st') k = Some c' \<and> conn_awaits ce base s n' z' c'
    \<and> says xs (fl_io st) (fl_io st') \<and> (\<forall>r. z r = of_role r xs @ z' r) \<and> grows pg_port base segs c c'"
  using assms(4-)
proof (induction segs arbitrary: st c n z)
  case Nil
  then show ?case
    by (intro exI [of _ st] exI [of _ c] exI [of _ n] exI [of _ z] exI [of _ "[]"]) (simp add: says_Nil grows_Nil)
next
  case (Cons seg segs)
  obtain st1 c1 n1 z1 xs1 where 1: "table_handle ce seg pg_port st = Some st1" "map_of (fl_map st1) k = Some c1"
    "conn_awaits ce base s n1 z1 c1" "says xs1 (fl_io st) (fl_io st1)" "\<forall>r. z r = of_role r xs1 @ z1 r" "grows pg_port base [seg] c c1"
    using stream_step [OF stable Cons.prems(1,2) len, of pg_port seg] Cons.prems(3) by auto
  obtain st' c' n' z' xs2 where 2: "capture_run ce pg_port segs st1 = Some st'" "map_of (fl_map st') k = Some c'"
    "conn_awaits ce base s n' z' c'" "says xs2 (fl_io st1) (fl_io st')" "\<forall>r. z1 r = of_role r xs2 @ z' r" "grows pg_port base segs c1 c'"
    using Cons.IH [OF 1(2,3)] Cons.prems(3) by auto
  then show ?case
    using 1(1,5) says_append [OF 1(4) 2(4)] grows_append [OF 1(6) 2(6)]
    by (intro exI [of _ st'] exI [of _ c'] exI [of _ n'] exI [of _ z'] exI [of _ "xs1 @ xs2"]) simp
qed

subsection \<open>From the handshake on\<close>

text \<open>The SYN of one side, on its own.\<close>

definition syn_of :: "u16 \<Rightarrow> conn_key \<Rightarrow> (role \<Rightarrow> u32) \<Rightarrow> role \<Rightarrow> tcp_segment \<Rightarrow> bool" where
  "syn_of pg_port k isn r seg \<longleftrightarrow> classify seg pg_port = Some k \<and> side pg_port seg = r \<and> seg_syn seg \<and> \<not> seg_fin seg \<and> \<not> seg_rst seg
     \<and> seg_seq seg = isn r \<and> seg_payload seg = []"

lemma drain_empty:
  assumes "decoder_stable (fdec ce)" "decoder_stable (bdec ce)" "rxbuf d = []"
  shows "drain_direction (fdec ce) (bdec ce) (cenv ce) d default_outcome i = Some (d, default_outcome, i)"
proof -
  have "dry (fdec ce) (bdec ce) d" using assms by (simp add: dry_def decoder_stable_def)
  then have "clean_drain (fdec ce) (bdec ce) (cenv ce) d [] default_outcome d"
    by (simp add: clean_drain_def dry_def decodes.dry)
  then show ?thesis
    using assms by (simp add: drain_direction_def drain_loop.simps decoder_stable_def default_outcome_def)
qed

lemma connection_handle_syn:
  assumes "decoder_stable (fdec ce)" "decoder_stable (bdec ce)" "\<not> cn_encrypted c" "syn_of pg_port k isn r seg" "rxbuf (dir_of r c) = []"
  shows "connection_handle ce seg pg_port c m i = Some (with_dir r ((dir_of r c)\<lparr> next_seq := Some (isn r + 1) \<rparr>) c, m, i)"
proof -
  have f: "feed (seg_seq seg) (seg_syn seg) (seg_payload seg) (dir_of r c) = (dir_of r c)\<lparr> next_seq := Some (isn r + 1) \<rparr>"
    using assms(4) by (simp add: syn_of_def feed_def)
  have dr: "drain_direction (fdec ce) (bdec ce) (cenv ce) ((dir_of r c)\<lparr> next_seq := Some (isn r + 1) \<rparr>) default_outcome i
      = Some ((dir_of r c)\<lparr> next_seq := Some (isn r + 1) \<rparr>, default_outcome, i)"
    by (rule drain_empty) (use assms in simp_all)
  have out: "\<not> encrypted default_outcome" "msgs default_outcome = 0" "server_negotiation_wait default_outcome = NoWait"
    by (simp_all add: default_outcome_def)
  show ?thesis
  proof (cases "seg_dst_port seg = pg_port")
    case True
    then have "r = Client" using assms(4) by (simp add: syn_of_def side_def)
    then show ?thesis
      using assms(3) True f dr out by (simp add: connection_handle_def dir_of_def with_dir_def arm_server_def)
  next
    case False
    then have "r = Server" using assms(4) by (simp add: syn_of_def side_def)
    then show ?thesis
      using assms(3) False f dr out by (simp add: connection_handle_def dir_of_def with_dir_def)
  qed
qed

definition opened_io :: "'c capture_env \<Rightarrow> conn_key \<Rightarrow> u16 \<Rightarrow> io \<Rightarrow> io" where
  "opened_io ce k pg_port i = out_ts (cenv ce) (new_connection_line (ck_client k) (ck_server k) pg_port) i"

text \<open>Between the two SYNs only the client's side has its place in the sequence space.\<close>

definition half_open :: "'c capture_env \<Rightarrow> conn_key \<Rightarrow> (role \<Rightarrow> u32) \<Rightarrow> 'c connection \<Rightarrow> bool" where
  "half_open ce k isn c \<longleftrightarrow> \<not> cn_encrypted c \<and> \<not> metrics_closed c
     \<and> dir_of Client c = (direction_new (default_ctx ce) Client (ck_client k))\<lparr> next_seq := Some (isn Client + 1) \<rparr>
     \<and> dir_of Server c = direction_new (default_ctx ce) Server (ck_client k)"

lemma syn_opens:
  assumes "decoder_stable (fdec ce)" "decoder_stable (bdec ce)" "map_of (fl_map st) k = None" "syn_of pg_port k isn Client syn"
  shows "\<exists>st' c. table_handle ce syn pg_port st = Some st' \<and> map_of (fl_map st') k = Some c \<and> half_open ce k isn c
    \<and> fl_io st' = opened_io ce k pg_port (fl_io st)"
proof -
  obtain stats m1 where o: "open_connection (instant ce (fl_metrics st)) (ck_client k) (ck_server k) False (fl_metrics st) = (stats, m1)"
    by (cases "open_connection (instant ce (fl_metrics st)) (ck_client k) (ck_server k) False (fl_metrics st)")
  define c0 where "c0 = connection_new ce m1 stats"
  have "cs_client (heap m1 ! stats) = ck_client k" using o by (auto simp: open_connection_def Let_def nth_append)
  then have c0: "dir_of r c0 = direction_new (default_ctx ce) r (ck_client k)" "\<not> cn_encrypted c0" "\<not> metrics_closed c0" for r
    by (cases r) (simp_all add: c0_def connection_new_def dir_of_def Let_def)
  define c1 where "c1 = with_dir Client ((dir_of Client c0)\<lparr> next_seq := Some (isn Client + 1) \<rparr>) c0"
  have "connection_handle ce syn pg_port c0 m1 j = Some (c1, m1, j)" for j
    using connection_handle_syn [OF assms(1,2) c0(2) assms(4)] by (simp add: c0(1) direction_new_def c1_def)
  then have "table_handle ce syn pg_port st
      = Some \<lparr> fl_map = AList.update k c1 (AList.update k c0 (fl_map st)), fl_metrics = m1, fl_io = opened_io ce k pg_port (fl_io st) \<rparr>"
    using assms(3,4) o
    by (simp add: table_handle_def should_open_def open_flow_def syn_of_def Let_def c0_def [symmetric] opened_io_def update_conv')
  moreover have "half_open ce k isn c1" by (simp add: half_open_def c1_def c0)
  ultimately show ?thesis by (auto simp: update_conv')
qed

lemma syn_answered:
  assumes "decoder_stable (fdec ce)" "decoder_stable (bdec ce)" "map_of (fl_map st) k = Some c" "half_open ce k isn c" "syn_of pg_port k isn Server syn_ack"
  shows "\<exists>st' c'. table_handle ce syn_ack pg_port st = Some st' \<and> map_of (fl_map st') k = Some c' \<and> fl_io st' = fl_io st \<and> \<not> cn_encrypted c'
    \<and> (\<forall>r. dir_of r c' = (direction_new (default_ctx ce) r (ck_client k))\<lparr> next_seq := Some (isn r + 1) \<rparr>)"
proof -
  define c' where "c' = with_dir Server ((dir_of Server c)\<lparr> next_seq := Some (isn Server + 1) \<rparr>) c"
  have "connection_handle ce syn_ack pg_port c (fl_metrics st) (fl_io st) = Some (c', fl_metrics st, fl_io st)"
    using connection_handle_syn [OF assms(1,2) _ assms(5), of c] assms(4) by (simp add: half_open_def direction_new_def c'_def)
  then have "table_handle ce syn_ack pg_port st
      = Some \<lparr> fl_map = AList.update k c' (fl_map st), fl_metrics = fl_metrics st, fl_io = fl_io st \<rparr>"
    using assms(3-5) by (simp add: table_handle_def should_open_def syn_of_def half_open_def)
  moreover have "dir_of r c' = (direction_new (default_ctx ce) r (ck_client k))\<lparr> next_seq := Some (isn r + 1) \<rparr>" for r
    using assms(4) by (cases r) (simp_all add: half_open_def c'_def)
  moreover have "\<not> cn_encrypted c'" using assms(4) by (simp add: half_open_def c'_def)
  ultimately show ?thesis by (simp add: update_conv')
qed

lemma handshake_run:
  assumes "decoder_stable (fdec ce)" "decoder_stable (bdec ce)" "syn_of pg_port k isn Client syn" "syn_of pg_port k isn Server syn_ack"
  shows "\<exists>st c. capture_run ce pg_port [syn, syn_ack] (conn_table_with_metrics m i) = Some st \<and> map_of (fl_map st) k = Some c
    \<and> fl_io st = opened_io ce k pg_port i \<and> \<not> cn_encrypted c
    \<and> (\<forall>r. dir_of r c = (direction_new (default_ctx ce) r (ck_client k))\<lparr> next_seq := Some (isn r + 1) \<rparr>)"
proof -
  obtain st1 c1 where 1: "table_handle ce syn pg_port (conn_table_with_metrics m i) = Some st1" "map_of (fl_map st1) k = Some c1"
    "half_open ce k isn c1" "fl_io st1 = opened_io ce k pg_port i"
    using syn_opens [OF assms(1,2) _ assms(3), of "conn_table_with_metrics m i"] by (auto simp: conn_table_with_metrics_def)
  show ?thesis
    using syn_answered [OF assms(1,2) 1(2,3) assms(4)] 1(1,4) by auto
qed

lemma handshake_awaits:
  assumes stable: "decoder_stable (fdec ce)" "decoder_stable (bdec ce)" and "streams_decode (fdec ce) (bdec ce) (cenv ce) (\<lambda>r. direction_new (default_ctx ce) r (ck_client k)) s xs" "\<not> cn_encrypted c"
    and d: "\<forall>r. dir_of r c = (direction_new (default_ctx ce) r (ck_client k))\<lparr> next_seq := Some (isn r + 1) \<rparr>"
  shows "conn_awaits ce (\<lambda>r. isn r + 1) s (\<lambda>r. 0) xs c" "arrived (isn r + 1) cs {} (dir_of r c)"
proof -
  have "awaits ce (isn r + 1) (s r) 0 (xs r) (dir_of r c)" for r
  proof -
    let ?new = "direction_new (default_ctx ce) r (ck_client k)"
    obtain tot d2 where clean: "clean_drain (fdec ce) (bdec ce) (cenv ce) (?new\<lparr> rxbuf := s r \<rparr>) (xs r) tot d2"
      and t: "server_negotiation_wait tot = NoWait" "\<not> encrypted tot"
      using streams_decode_clean [OF stable assms(3)] by blast
    from clean_drain_transport [OF clean, of "Some (isn r + 1)" "[]"]
    have "clean_drain (fdec ce) (bdec ce) (cenv ce) ((dir_of r c)\<lparr> rxbuf := rxbuf (dir_of r c) @ drop 0 (s r) \<rparr>) (xs r) tot
        (with_transport (Some (isn r + 1)) [] (rxbuf d2) d2)"
      by (simp add: d direction_new_def with_transport_def)
    moreover have "dry (fdec ce) (bdec ce) (dir_of r c)"
      using stable by (simp add: dry_def decoder_stable_def d direction_new_def)
    moreover have "stream_inv (isn r + 1) (s r) 0 (dir_of r c)" by (simp add: stream_inv_def pieces_def d direction_new_def)
    ultimately show ?thesis using t by (auto simp: awaits_def)
  qed
  moreover have "role (dir_of r c) = r" for r by (simp add: d direction_new_def)
  ultimately show "conn_awaits ce (\<lambda>r. isn r + 1) s (\<lambda>r. 0) xs c" using assms(4) by (simp add: conn_awaits_def)
  have "segments_inv (isn r + 1) cs {} (dir_of r c) []"
    unfolding segments_inv_def
    by (intro exI [of _ 0] exI [of _ "{}"]) (simp add: d direction_new_def seq_key_def off_def buffers_def)
  then show "arrived (isn r + 1) cs {} (dir_of r c)" by (auto simp: arrived_def)
qed

lemma capture_run_append: "capture_run ce pg_port (as @ bs) st = Option.bind (capture_run ce pg_port as st) (capture_run ce pg_port bs)"
proof (induction as arbitrary: st)
  case (Cons seg as)
  then show ?case by (cases "table_handle ce seg pg_port st") simp_all
qed simp

lemma segment_piece: "i < length cs \<Longrightarrow> piece (concat cs) (off cs i) (cs ! i)"
  using id_take_nth_drop [of i cs] off_end [of i "Suc i" cs] off_bound [of cs "Suc i"]
  by (simp add: piece_def off_def) (metis append_eq_conv_conj concat.simps(2) concat_append)

lemma whole_segment_stream:
  assumes "plain_segment pg_port k seg" "seg \<in> set segs" "\<forall>r. whole_segments pg_port base r (cs r) segs \<and> P r"
  shows "stream_segment pg_port k base (\<lambda>r. concat (cs r)) seg"
proof -
  obtain i where "i < length (cs (side pg_port seg))" "seg_seq seg = seq_key (base (side pg_port seg)) (cs (side pg_port seg)) i"
    "seg_payload seg = cs (side pg_port seg) ! i"
    using assms(2,3) unfolding whole_segments_def by blast
  then show ?thesis using assms(1) segment_piece unfolding stream_segment_def seq_key_def by metis
qed

lemma captured_streams:
  assumes "decoder_stable (fdec ce)" "decoder_stable (bdec ce)" "\<forall>r. length (s r) < 2 ^ 31" "streams_decode (fdec ce) (bdec ce) (cenv ce) (\<lambda>r. direction_new (default_ctx ce) r (ck_client k)) s xs"
    and "syn_of pg_port k isn Client syn" "syn_of pg_port k isn Server syn_ack"
    and "\<forall>seg \<in> set segs. stream_segment pg_port k (\<lambda>r. isn r + 1) s seg"
  shows "\<exists>st' c' n' z' ys. capture_run ce pg_port (syn # syn_ack # segs) (conn_table_with_metrics m i) = Some st'
    \<and> conn_awaits ce (\<lambda>r. isn r + 1) s n' z' c' \<and> says ys (opened_io ce k pg_port i) (fl_io st') \<and> (\<forall>r. xs r = of_role r ys @ z' r)
    \<and> (\<forall>r cs. (\<forall>c \<in> set cs. c \<noteq> []) \<and> length (concat cs) < 2 ^ 31 \<and> whole_segments pg_port (\<lambda>r. isn r + 1) r cs segs
        \<longrightarrow> arrived (isn r + 1) cs (indices pg_port (\<lambda>r. isn r + 1) r cs segs) (dir_of r c'))"
proof -
  obtain st c where start: "capture_run ce pg_port [syn, syn_ack] (conn_table_with_metrics m i) = Some st" "map_of (fl_map st) k = Some c"
    "fl_io st = opened_io ce k pg_port i" "\<not> cn_encrypted c"
    "\<forall>r. dir_of r c = (direction_new (default_ctx ce) r (ck_client k))\<lparr> next_seq := Some (isn r + 1) \<rparr>"
    using handshake_run [OF assms(1,2,5,6)] by blast
  note awaits = handshake_awaits [OF assms(1,2,4) start(4,5)]
  obtain st' c' n' z' ys where run: "capture_run ce pg_port segs st = Some st'" "conn_awaits ce (\<lambda>r. isn r + 1) s n' z' c'"
    "says ys (fl_io st) (fl_io st')" "\<forall>r. xs r = of_role r ys @ z' r"
    "grows pg_port (\<lambda>r. isn r + 1) segs c c'"
    using stream_run [OF assms(1-3) start(2) awaits(1) assms(7)] by blast
  have "capture_run ce pg_port ([syn, syn_ack] @ segs) (conn_table_with_metrics m i) = Some st'"
    using start(1) run(1) by (subst capture_run_append) simp
  moreover have "arrived (isn r + 1) cs (indices pg_port (\<lambda>r. isn r + 1) r cs segs) (dir_of r c')"
    if "\<forall>c \<in> set cs. c \<noteq> []" "length (concat cs) < 2 ^ 31" "whole_segments pg_port (\<lambda>r. isn r + 1) r cs segs" for r cs
    using run(5) [unfolded grows_def, THEN spec, of r, THEN spec, of cs, THEN spec, of "{}"] that awaits(2) by simp
  ultimately show ?thesis
    using run(2-4) start(3)
    by (intro exI [of _ st'] exI [of _ c'] exI [of _ n'] exI [of _ z'] exI [of _ ys]) simp
qed

subsection \<open>Properties\<close>

text \<open>However a connection was captured, what is shown of it is what was said: from the SYNs on, whatever segments of the two
  streams arrive, in any order, cut or repeated in any way, the messages shown of each direction, in order, are the first of those
  that decoding its whole stream at once gives, and nothing else is shown.\<close>

theorem captured_messages_are_prefix:
  assumes "decoder_stable (fdec ce)" "decoder_stable (bdec ce)" "\<forall>r. length (s r) < 2 ^ 31" "streams_decode (fdec ce) (bdec ce) (cenv ce) (\<lambda>r. direction_new (default_ctx ce) r (ck_client k)) s xs"
    and "syn_of pg_port k isn Client syn" "syn_of pg_port k isn Server syn_ack"
    and "\<forall>seg \<in> set segs. stream_segment pg_port k (\<lambda>r. isn r + 1) s seg"
  shows "\<exists>st' ys. capture_run ce pg_port (syn # syn_ack # segs) (conn_table_with_metrics m i) = Some st'
    \<and> says ys (opened_io ce k pg_port i) (fl_io st') \<and> (\<forall>r. \<exists>rest. xs r = of_role r ys @ rest)"
  using captured_streams [OF assms, of m i] by blast

text \<open>The order of arrival does not matter: when every segment of a fixed segmentation of the two streams has arrived at least
  once, in any order, with any copies and the two directions interleaved in any way, the messages shown of each direction are
  exactly those that decoding its whole stream at once gives.\<close>

theorem capture_order_irrelevant:
  assumes "decoder_stable (fdec ce)" "decoder_stable (bdec ce)" "streams_decode (fdec ce) (bdec ce) (cenv ce) (\<lambda>r. direction_new (default_ctx ce) r (ck_client k)) (\<lambda>r. concat (cs r)) xs"
    and cs: "\<forall>r. length (concat (cs r)) < 2 ^ 31 \<and> (\<forall>c \<in> set (cs r). c \<noteq> [])"
    and "syn_of pg_port k isn Client syn" "syn_of pg_port k isn Server syn_ack"
    and plain: "\<forall>seg \<in> set segs. plain_segment pg_port k seg"
    and whole: "\<forall>r. whole_segments pg_port (\<lambda>r. isn r + 1) r (cs r) segs \<and> indices pg_port (\<lambda>r. isn r + 1) r (cs r) segs = {..<length (cs r)}"
  shows "\<exists>st' ys. capture_run ce pg_port (syn # syn_ack # segs) (conn_table_with_metrics m i) = Some st'
    \<and> says ys (opened_io ce k pg_port i) (fl_io st') \<and> (\<forall>r. of_role r ys = xs r)"
proof -
  have len: "\<forall>r. length (concat (cs r)) < 2 ^ 31" using cs by blast
  have segs: "\<forall>seg \<in> set segs. stream_segment pg_port k (\<lambda>r. isn r + 1) (\<lambda>r. concat (cs r)) seg"
    using plain whole whole_segment_stream by blast
  obtain st' c' n' z' ys where run: "capture_run ce pg_port (syn # syn_ack # segs) (conn_table_with_metrics m i) = Some st'"
    "conn_awaits ce (\<lambda>r. isn r + 1) (\<lambda>r. concat (cs r)) n' z' c'" "says ys (opened_io ce k pg_port i) (fl_io st')"
    "\<forall>r. xs r = of_role r ys @ z' r"
    "\<forall>r cs. (\<forall>c \<in> set cs. c \<noteq> []) \<and> length (concat cs) < 2 ^ 31 \<and> whole_segments pg_port (\<lambda>r. isn r + 1) r cs segs
        \<longrightarrow> arrived (isn r + 1) cs (indices pg_port (\<lambda>r. isn r + 1) r cs segs) (dir_of r c')"
    using captured_streams [OF assms(1,2) len assms(3,5,6) segs, of m i] by blast
  have "z' r = []" for r
  proof (rule awaits_all)
    show "awaits ce (isn r + 1) (concat (cs r)) (n' r) (z' r) (dir_of r c')" using run(2) by (simp add: conn_awaits_def)
    show "arrived (isn r + 1) (cs r) {..<length (cs r)} (dir_of r c')" using run(5) whole cs by metis
  qed (use cs in auto)
  then show ?thesis using run(1,3,4) by auto
qed

subsection \<open>Witnesses\<close>

lemma decoder_stable_switch:
  assumes "decoder_stable dec" "\<And>c. \<not> w c \<Longrightarrow> dec' c = dec c"
    and "\<And>c b x. w c \<Longrightarrow> dec' c [] = (NeedMore, []) \<and> (case dec' c b of
       (NeedMore, b') \<Rightarrow> b' = b
     | (Decoded m, b') \<Rightarrow> (\<exists>u. b = u @ b') \<and> dec' c (b @ x) = (Decoded m, b' @ x)
     | (DecodeError e, b') \<Rightarrow> \<exists>e' b''. dec' c (b @ x) = (DecodeError e', b''))"
  shows "decoder_stable dec'"
  unfolding decoder_stable_def
proof (intro allI)
  fix c b x
  show "dec' c [] = (NeedMore, []) \<and> (case dec' c b of
       (NeedMore, b') \<Rightarrow> b' = b
     | (Decoded m, b') \<Rightarrow> (\<exists>u. b = u @ b') \<and> dec' c (b @ x) = (Decoded m, b' @ x)
     | (DecodeError e, b') \<Rightarrow> \<exists>e' b''. dec' c (b @ x) = (DecodeError e', b''))"
  proof (cases "w c")
    case False
    show ?thesis
      unfolding assms(2) [OF False] by (rule assms(1) [unfolded decoder_stable_def, THEN spec, THEN spec, THEN spec])
  qed (rule assms(3))
qed

lemma negotiating_stable: "decoder_stable negotiating_frontend" "decoder_stable negotiating_backend"
proof -
  have drop: "\<exists>u. b = u @ drop 8 b" for b :: "u8 list" by (rule exI [of _ "take 8 b"]) simp
  show "decoder_stable negotiating_frontend"
    by (rule decoder_stable_switch [OF typed_decoder_stable [of sample_frontend], of awaiting_frontend_ssl])
      (auto simp: negotiating_frontend_def drop)
  show "decoder_stable negotiating_backend"
    by (rule decoder_stable_switch [OF typed_decoder_stable [of sample_backend], of awaiting_backend_ssl_response])
      (auto simp: negotiating_backend_def split: list.split)
qed

text \<open>A query and a synchronisation cut inside the messages, the second part captured first; and the answer of the server.\<close>

definition sample_cuts :: "role \<Rightarrow> u8 list list" where
  "sample_cuts r = (if r = Client then [[81, 0, 0], [0, 6, 65, 0, 83, 0, 0, 0, 4]] else [[67, 0, 0, 0, 6], [79, 0]])"

definition sample_said :: "role \<Rightarrow> said list" where
  "sample_said r = (if r = Client
     then [(sample_client, FrontendToBackend, lit ''Query'', lit ''A'', None), (sample_client, FrontendToBackend, lit ''Sync'', [], None)]
     else [(sample_client, BackendToFrontend, lit ''CommandComplete'', lit ''O'', None)])"

definition sample_segments :: "tcp_segment list" where
  "sample_segments = [from_client 103 [0, 6, 65, 0, 83, 0, 0, 0, 4], from_server 500 [67, 0, 0, 0, 6], from_client 100 [81, 0, 0],
     from_server 505 [79, 0], from_client 100 [81, 0, 0]]"

definition sample_isn :: "role \<Rightarrow> u32" where "sample_isn r = (if r = Client then 99 else 499)"

lemma sample_streams:
  "streams_decode (fdec sample_capture) (bdec sample_capture) (cenv sample_capture)
    (\<lambda>r. direction_new (default_ctx sample_capture) r (ck_client sample_key)) (\<lambda>r. concat (sample_cuts r)) sample_said"
  unfolding streams_decode_def
proof
  fix r
  show "\<exists>tot rs. decoded_at_once (fdec sample_capture) (bdec sample_capture) (cenv sample_capture)
       (direction_new (default_ctx sample_capture) r (ck_client sample_key)) (concat (sample_cuts r)) = Some (tot, rs)
     \<and> map spoken rs = map Some (sample_said r) \<and> server_negotiation_wait tot = NoWait \<and> \<not> encrypted tot"
    by (cases r)
      (simp_all add: sample_cuts_def sample_said_def sample_key_def sample_capture_def decoded_at_once_def drain_direction_def direction_new_def
        drain_loop.simps negotiating_frontend_def negotiating_backend_def clear_ctx_def ssl_request_def typed_decoder_def be_nat_def
        sample_frontend_def sample_backend_def handle_frontend_def handle_backend_def default_outcome_def count_message_def
        emit_def emit_with_detail_def now_def deliver_def start_capture_def quiet_io_def take_output_capture_def sample_env_def ascii_text_def lit_def Let_def)
qed

definition sample_syn :: "role \<Rightarrow> tcp_segment" where
  "sample_syn r = (if r = Client then from_client 99 [] else from_server 499 [])\<lparr> seg_syn := True \<rparr>"

lemma sample_syn_ok: "syn_of 5432 sample_key sample_isn r (sample_syn r)"
  by (cases r) (simp_all add: syn_of_def sample_syn_def sample_isn_def side_def classify_def sample_key_def from_client_def from_server_def sample_client_def)

lemma sample_plain: "\<forall>seg \<in> set sample_segments. plain_segment 5432 sample_key seg"
  by (simp add: sample_segments_def plain_segment_def)

lemma sample_keys:
  "seq_key 100 (sample_cuts Client) 0 = 100" "seq_key 100 (sample_cuts Client) (Suc 0) = 103"
  "seq_key 500 (sample_cuts Server) 0 = 500" "seq_key 500 (sample_cuts Server) (Suc 0) = 505"
  by (simp_all add: seq_key_def seq_at_def off_def sample_cuts_def)

lemma sample_whole:
  "whole_segments 5432 (\<lambda>r. sample_isn r + 1) r (sample_cuts r) sample_segments
   \<and> indices 5432 (\<lambda>r. sample_isn r + 1) r (sample_cuts r) sample_segments = {..<length (sample_cuts r)}"
proof -
  have two: "i < length (sample_cuts r) \<longleftrightarrow> i = 0 \<or> i = 1" for i by (auto simp: sample_cuts_def)
  have nth: "sample_cuts Client ! 0 = [81, 0, 0]" "sample_cuts Client ! Suc 0 = [0, 6, 65, 0, 83, 0, 0, 0, 4]"
    "sample_cuts Server ! 0 = [67, 0, 0, 0, 6]" "sample_cuts Server ! Suc 0 = [79, 0]"
    by (simp_all add: sample_cuts_def)
  have w: "whole_segments 5432 (\<lambda>r. sample_isn r + 1) r (sample_cuts r) sample_segments"
    unfolding whole_segments_def two
    by (cases r) (auto simp: sample_segments_def side_def sample_isn_def sample_keys nth)
  have "indices 5432 (\<lambda>r. sample_isn r + 1) r (sample_cuts r) sample_segments = {i. i < length (sample_cuts r)}"
    unfolding indices_def two
    by (cases r) (auto simp: sample_segments_def side_def sample_isn_def sample_keys)
  then show ?thesis using w by auto
qed

theorem captured_messages_are_prefix_witness:
  "\<exists>st' ys rest. capture_run sample_capture 5432 (sample_syn Client # sample_syn Server # sample_segments) (conn_table_with_metrics new_metrics sample_io) = Some st'
    \<and> says ys (opened_io sample_capture sample_key 5432 sample_io) (fl_io st') \<and> sample_said Client = of_role Client ys @ rest"
proof -
  have dec: "decoder_stable (fdec sample_capture)" "decoder_stable (bdec sample_capture)"
    by (simp_all add: sample_capture_def negotiating_stable)
  have len: "\<forall>r. length (concat (sample_cuts r)) < 2 ^ 31" by (simp add: sample_cuts_def)
  have segs: "\<forall>seg \<in> set sample_segments. stream_segment 5432 sample_key (\<lambda>r. sample_isn r + 1) (\<lambda>r. concat (sample_cuts r)) seg"
    using sample_plain sample_whole whole_segment_stream by blast
  show ?thesis
    using captured_messages_are_prefix [OF dec len sample_streams sample_syn_ok sample_syn_ok segs, of new_metrics sample_io] by blast
qed

theorem capture_order_irrelevant_witness:
  "\<exists>st' ys. capture_run sample_capture 5432 (sample_syn Client # sample_syn Server # sample_segments) (conn_table_with_metrics new_metrics sample_io) = Some st'
    \<and> says ys (opened_io sample_capture sample_key 5432 sample_io) (fl_io st')
    \<and> of_role Client ys = [(sample_client, FrontendToBackend, lit ''Query'', lit ''A'', None), (sample_client, FrontendToBackend, lit ''Sync'', [], None)]"
proof -
  have dec: "decoder_stable (fdec sample_capture)" "decoder_stable (bdec sample_capture)"
    by (simp_all add: sample_capture_def negotiating_stable)
  have cuts: "\<forall>r. length (concat (sample_cuts r)) < 2 ^ 31 \<and> (\<forall>c \<in> set (sample_cuts r). c \<noteq> [])" by (simp add: sample_cuts_def)
  have "\<forall>r. whole_segments 5432 (\<lambda>r. sample_isn r + 1) r (sample_cuts r) sample_segments
      \<and> indices 5432 (\<lambda>r. sample_isn r + 1) r (sample_cuts r) sample_segments = {..<length (sample_cuts r)}"
    using sample_whole by blast
  from capture_order_irrelevant [OF dec sample_streams cuts sample_syn_ok sample_syn_ok sample_plain this, of new_metrics sample_io]
  obtain st' ys where "capture_run sample_capture 5432 (sample_syn Client # sample_syn Server # sample_segments)
      (conn_table_with_metrics new_metrics sample_io) = Some st'"
    "says ys (opened_io sample_capture sample_key 5432 sample_io) (fl_io st')" "of_role Client ys = sample_said Client" by blast
  then show ?thesis by (auto simp: sample_said_def)
qed

end
