(* ===== verification/Wire.thy ===== *)
theory Wire
  imports Net
begin

text \<open>
  The packet formats as encoders (the specification side, not code of \<open>src/\<close>): TCP, IPv4,
  IPv6 with extension headers, and the link-layer headers. The lemmas state that
  \<open>Net.parse_frame\<close> inverts them.
\<close>

subsection \<open>Nibbles and flag bits\<close>

lemma unat_high_nibble: "unat (drop_bit 4 (b :: u8)) = unat b div 16"
  by (simp add: drop_bit_eq_div unat_div_distrib)

lemma unat_low_nibble: "unat ((b :: u8) AND 15) = unat b mod 16"
proof -
  have "b AND 15 = take_bit 4 b"
    by (simp add: take_bit_eq_mask mask_eq_exp_minus_1)
  then show ?thesis
    by (simp add: take_bit_eq_mod unat_mod_distrib)
qed

lemma flag_bits: "(f :: u8) AND 1 \<noteq> 0 \<longleftrightarrow> bit f 0" "f AND 2 \<noteq> 0 \<longleftrightarrow> bit f 1" "f AND 4 \<noteq> 0 \<longleftrightarrow> bit f 2"
  using and_exp_eq_0_iff_not_bit [of f 0] and_exp_eq_0_iff_not_bit [of f 1]
    and_exp_eq_0_iff_not_bit [of f 2]
  by simp_all

subsection \<open>TCP\<close>

text \<open>
  The header of a segment: ports, sequence numbers, the data offset in the high nibble (with
  \<open>r\<close> in the reserved one), the flag byte, \<open>rest\<close> for window, checksum and urgent pointer,
  then the options and the payload.
\<close>

definition tcp_wire :: "tcp_segment \<Rightarrow> nat \<Rightarrow> u8 \<Rightarrow> u8 list \<Rightarrow> u8 list \<Rightarrow> u8 list" where
  "tcp_wire seg r flags rest opts =
     enc_be 2 (seg_src_port seg) @ enc_be 2 (seg_dst_port seg)
       @ enc_be 4 (seg_seq seg) @ enc_be 4 (seg_ack seg)
       @ [of_nat ((5 + length opts div 4) * 16 + r), flags] @ rest @ opts @ seg_payload seg"

definition tcp_fields_ok :: "tcp_segment \<Rightarrow> nat \<Rightarrow> u8 \<Rightarrow> u8 list \<Rightarrow> u8 list \<Rightarrow> bool" where
  "tcp_fields_ok seg r flags rest opts \<longleftrightarrow> r < 16 \<and> length rest = 6 \<and> 4 dvd length opts \<and> length opts \<le> 40
     \<and> seg_fin seg = bit flags 0 \<and> seg_syn seg = bit flags 1 \<and> seg_rst seg = bit flags 2"

lemma enc_be_2: "enc_be 2 w = [of_nat (unat w div 256), of_nat (unat w)]"
  by (simp add: enc_be_def numeral_2_eq_2)

lemma enc_be_4: "enc_be 4 w = [of_nat (unat w div 16777216), of_nat (unat w div 65536),
    of_nat (unat w div 256), of_nat (unat w)]"
proof -
  have "rev [0..<4] = [3, 2, 1, 0::nat]" by (simp add: upt_rec)
  then show ?thesis by (simp add: enc_be_def)
qed

lemma parse_tcp_wire:
  assumes ok: "tcp_fields_ok seg r flags rest opts"
  shows "parse_tcp (tcp_wire seg r flags rest opts) (seg_src seg) (seg_dst seg) = Some (Some seg)"
proof -
  let ?l4 = "tcp_wire seg r flags rest opts"
  define off where "off = (5 + length opts div 4) * 16 + r"
  from ok have r: "r < 16" and rest: "length rest = 6" and dvd: "4 dvd length opts" and le: "length opts \<le> 40"
    and fl: "seg_fin seg = bit flags 0" "seg_syn seg = bit flags 1" "seg_rst seg = bit flags 2"
    by (simp_all add: tcp_fields_ok_def)
  have "off < 256" "off div 16 = 5 + length opts div 4" using r le by (simp_all add: off_def)
  then have hi: "unat (drop_bit 4 (of_nat off :: u8)) = 5 + length opts div 4"
    by (simp add: unat_high_nibble unat_of_nat_u8)
  have dataoff: "unat (drop_bit 4 (of_nat off :: u8)) * 4 = 20 + length opts"
    using dvd hi by auto
  have l4: "?l4 = enc_be 2 (seg_src_port seg) @ enc_be 2 (seg_dst_port seg)
       @ enc_be 4 (seg_seq seg) @ enc_be 4 (seg_ack seg)
       @ [of_nat off, flags] @ rest @ opts @ seg_payload seg"
    by (simp add: tcp_wire_def off_def)
  have at: "?l4 ! 12 = of_nat off" "?l4 ! 13 = flags"
    "[?l4 ! 0, ?l4 ! 1] = enc_be 2 (seg_src_port seg)"
    "[?l4 ! 2, ?l4 ! 3] = enc_be 2 (seg_dst_port seg)"
    "[?l4 ! 4, ?l4 ! 5, ?l4 ! 6, ?l4 ! 7] = enc_be 4 (seg_seq seg)"
    "[?l4 ! 8, ?l4 ! 9, ?l4 ! 10, ?l4 ! 11] = enc_be 4 (seg_ack seg)"
    by (simp_all add: l4 nth_append enc_be_2 enc_be_4)
  have len: "20 \<le> length ?l4" "length ?l4 = 20 + length opts + length (seg_payload seg)"
    using rest by (simp_all add: l4)
  have drop: "drop (20 + length opts) ?l4 = seg_payload seg"
    using rest by (simp add: l4 drop_Cons')
  show ?thesis
    unfolding parse_tcp_eq [OF len(1)] at dataoff Let_def
    using len drop fl by (simp add: flag_bits be_word_enc)
qed

subsection \<open>IPv4\<close>

text \<open>\<open>mid\<close> holds identification, fragment field and TTL, \<open>cks\<close> the header checksum.\<close>

definition ipv4_wire :: "u32 \<Rightarrow> u32 \<Rightarrow> u8 \<Rightarrow> u8 list \<Rightarrow> u8 list \<Rightarrow> u8 list \<Rightarrow> u8 list \<Rightarrow> u8 list" where
  "ipv4_wire src dst tos mid cks opts body =
     [of_nat (64 + (5 + length opts div 4)), tos]
       @ enc_be 2 (of_nat (20 + length opts + length body) :: u16)
       @ mid @ [6] @ cks @ enc_be 4 src @ enc_be 4 dst @ opts @ body"

definition ipv4_fields_ok :: "u8 list \<Rightarrow> u8 list \<Rightarrow> u8 list \<Rightarrow> u8 list \<Rightarrow> bool" where
  "ipv4_fields_ok mid cks opts body \<longleftrightarrow> length mid = 5 \<and> length cks = 2 \<and> 4 dvd length opts
     \<and> length opts \<le> 40 \<and> 20 + length opts + length body < 65536"

lemma unat_of_nat_u16: "n < 65536 \<Longrightarrow> unat (of_nat n :: u16) = n"
  by (simp add: unat_of_nat)

lemma ipv4_first_octet:
  assumes "(n::nat) \<le> 10"
  shows "64 + (5 + n) < 256" "(64 + (5 + n)) div 16 = 4" "(64 + (5 + n)) mod 16 = 5 + n"
proof -
  have "64 + (5 + n) = (5 + n) + 4 * 16" by simp
  then have "(64 + (5 + n)) mod 16 = (5 + n) mod 16" by (simp only: mod_mult_self1)
  then show "(64 + (5 + n)) mod 16 = 5 + n" using assms by simp
qed (use assms in \<open>auto intro: div_nat_eqI\<close>)

lemma parse_ipv4_wire:
  assumes ok: "ipv4_fields_ok mid cks opts body"
  shows "parse_ip (ipv4_wire src dst tos mid cks opts body @ pad) = parse_tcp body (IpV4 src) (IpV4 dst)"
proof -
  let ?b = "ipv4_wire src dst tos mid cks opts body @ pad"
  define h where "h = 64 + (5 + length opts div 4)"
  define tl where "tl = (of_nat (20 + length opts + length body) :: u16)"
  from ok have len: "length mid = 5" "length cks = 2" "4 dvd length opts" "length opts \<le> 40"
    "20 + length opts + length body < 65536"
    by (simp_all add: ipv4_fields_ok_def)
  have "length opts div 4 \<le> 10" using len(4) by simp
  then have h: "h < 256" "h div 16 = 4" "h mod 16 = 5 + length opts div 4"
    unfolding h_def by (simp_all only: ipv4_first_octet)
  have b: "?b = [of_nat h, tos] @ enc_be 2 tl @ mid @ [6] @ cks @ enc_be 4 src @ enc_be 4 dst @ opts @ body @ pad"
    by (simp add: ipv4_wire_def h_def tl_def)
  have at: "?b ! 0 = of_nat h" "?b ! 9 = 6"
    "[?b ! 2, ?b ! 3] = enc_be 2 tl"
    "[?b ! 12, ?b ! 13, ?b ! 14, ?b ! 15] = enc_be 4 src"
    "[?b ! 16, ?b ! 17, ?b ! 18, ?b ! 19] = enc_be 4 dst"
    using len by (simp_all add: b nth_append enc_be_2 enc_be_4 nth_Cons')
  have v4: "(drop_bit 4 (of_nat h) :: u8) = 4"
    using h by (simp add: word_unat_eq_iff unat_high_nibble unat_of_nat_u8)
  have ihl: "unat ((of_nat h :: u8) AND 15) * 4 = 20 + length opts"
    using h len(3) by (auto simp: unat_low_nibble unat_of_nat_u8)
  have "be_word (enc_be 2 tl) = tl" by (simp add: be_word_enc)
  then have total: "unat (be_word (enc_be 2 tl) :: u16) = 20 + length opts + length body"
    unfolding tl_def by (simp only: unat_of_nat_u16 [OF len(5)])
  have lb: "length ?b = 20 + length opts + length body + length pad"
    using len by (simp add: b)
  have l4: "take (length body) (drop (20 + length opts) ?b) = body"
    using len by (simp add: b drop_Cons')
  have nn: "?b \<noteq> []" "20 \<le> length ?b" using lb by auto
  have "parse_ip ?b = parse_ipv4 ?b"
    using nn(1) by (rule parse_ip_v4) (simp only: at(1) v4)
  also have "\<dots> = parse_tcp body (IpV4 src) (IpV4 dst)"
    unfolding parse_ipv4_eq [OF nn(2)] at ihl total Let_def
    using lb l4 by (simp add: be_word_enc)
  finally show ?thesis .
qed

subsection \<open>IPv6\<close>

text \<open>
  An extension header is its type and its bytes after the next-header octet; \<open>ext_size\<close> is the
  length its second octet announces (RFC 8200, RFC 4302).
\<close>

type_synonym ext_hdr = "u8 \<times> u8 list"

fun first_header :: "ext_hdr list \<Rightarrow> u8" where
  "first_header [] = 6"
| "first_header ((t, _) # _) = t"

fun ext_wire :: "ext_hdr list \<Rightarrow> u8 list" where
  "ext_wire [] = []"
| "ext_wire ((_, c) # es) = first_header es # c @ ext_wire es"

definition ext_size :: "u8 \<Rightarrow> u8 list \<Rightarrow> nat" where
  "ext_size t c = (if t = 44 then 8 else if t = 51 then (unat (c ! 0) + 2) * 4 else (unat (c ! 0) + 1) * 8)"

definition ext_ok :: "ext_hdr \<Rightarrow> bool" where
  "ext_ok e \<longleftrightarrow> is_extension_header (fst e) \<and> snd e \<noteq> [] \<and> Suc (length (snd e)) = ext_size (fst e) (snd e)"

definition ipv6_wire :: "128 word \<Rightarrow> 128 word \<Rightarrow> nat \<Rightarrow> u8 list \<Rightarrow> u8 \<Rightarrow> ext_hdr list \<Rightarrow> u8 list \<Rightarrow> u8 list" where
  "ipv6_wire src dst tc flow hop exts body =
     [of_nat (96 + tc)] @ flow
       @ enc_be 2 (of_nat (length (ext_wire exts) + length body) :: u16)
       @ [first_header exts, hop] @ enc_be 16 src @ enc_be 16 dst @ ext_wire exts @ body"

definition ipv6_fields_ok :: "nat \<Rightarrow> u8 list \<Rightarrow> ext_hdr list \<Rightarrow> u8 list \<Rightarrow> bool" where
  "ipv6_fields_ok tc flow exts body \<longleftrightarrow> tc < 16 \<and> length flow = 3 \<and> (\<forall>e \<in> set exts. ext_ok e)
     \<and> length (ext_wire exts) + length body < 65536"

lemma ext_size_ge: "8 \<le> ext_size t c"
  by (simp add: ext_size_def)

lemma extension_header_len_wire:
  assumes "ext_ok (t, c)"
  shows "extension_header_len t (n # c @ rest) = Some (Some (Suc (length c)))"
proof -
  obtain a c' where c: "c = a # c'" using assms by (cases c) (auto simp: ext_ok_def)
  have "Suc (length c) = ext_size t c" using assms by (simp add: ext_ok_def)
  moreover have "extension_header_len t (n # c @ rest) = Some (Some (ext_size t c))"
    by (simp add: extension_header_len_def ext_size_def c idx_def)
  ultimately show ?thesis by simp
qed

lemma walk_extensions_wire:
  assumes "\<forall>e \<in> set es. ext_ok e"
    and "drop off b = ext_wire es @ rest" and "off + length (ext_wire es) \<le> body_end"
    and "body_end \<le> length b"
  shows "walk_extensions b body_end (first_header es) off = Some (Some (6, off + length (ext_wire es)))"
  using assms
proof (induction es arbitrary: off)
  case Nil
  then show ?case by (subst walk_extensions.simps) (simp add: is_extension_header_def)
next
  case (Cons e es)
  obtain t c where e: "e = (t, c)" by (cases e)
  have ok: "ext_ok (t, c)" and es: "\<forall>e \<in> set es. ext_ok e"
    using Cons.prems(1) e by auto
  have t: "is_extension_header t" using ok by (simp add: ext_ok_def)
  have "8 \<le> Suc (length c)" using ok ext_size_ge [of t c] by (simp add: ext_ok_def)
  then have off8: "off + 8 \<le> body_end" using Cons.prems(3) e by simp
  have offb: "off < length b" using off8 Cons.prems(4) by simp
  have drop: "drop off b = first_header es # c @ ext_wire es @ rest"
    using Cons.prems(2) e by simp
  then have "b ! off = first_header es" using offb
    by (metis Cons_nth_drop_Suc list.inject)
  then have i: "idx b off = Some (first_header es)" using offb by (simp add: idx_def)
  have sl: "slice b off body_end = Some (first_header es # c @ take (body_end - off - Suc (length c)) (ext_wire es @ rest))"
    using Cons.prems(3,4) off8 e by (simp add: slice_def drop take_Cons')
  have next': "drop (off + Suc (length c)) b = ext_wire es @ rest"
    using arg_cong [OF drop, of "drop (Suc (length c))"] by (simp add: add.commute)
  have "walk_extensions b body_end (first_header es) (off + Suc (length c))
      = Some (Some (6, off + Suc (length c) + length (ext_wire es)))"
    using Cons.IH [OF es next'] Cons.prems(3,4) e by simp
  moreover have "walk_extensions b body_end t off
      = walk_extensions b body_end (first_header es) (off + Suc (length c))"
    using t off8 Cons.prems(3) e
    by (subst walk_extensions.simps) (simp add: i sl extension_header_len_wire [OF ok])
  ultimately show ?case using e by simp
qed

lemma ipv6_first_octet:
  assumes "(tc::nat) < 16"
  shows "96 + tc < 256" "(96 + tc) div 16 = 6"
  using assms by (auto intro: div_nat_eqI)

lemma parse_ipv6_wire:
  assumes ok: "ipv6_fields_ok tc flow exts body"
  shows "parse_ip (ipv6_wire src dst tc flow hop exts body @ pad) = parse_tcp body (IpV6 src) (IpV6 dst)"
proof -
  let ?b = "ipv6_wire src dst tc flow hop exts body @ pad"
  define h where "h = 96 + tc"
  define pl where "pl = (of_nat (length (ext_wire exts) + length body) :: u16)"
  define be where "be = 40 + length (ext_wire exts) + length body"
  from ok have tc: "tc < 16" and fl: "length flow = 3" and es: "\<forall>e \<in> set exts. ext_ok e"
    and size: "length (ext_wire exts) + length body < 65536"
    by (simp_all add: ipv6_fields_ok_def)
  have h: "h < 256" "h div 16 = 6"
    unfolding h_def by (rule ipv6_first_octet [OF tc])+
  have b: "?b = [of_nat h] @ flow @ enc_be 2 pl @ [first_header exts, hop] @ enc_be 16 src @ enc_be 16 dst
      @ ext_wire exts @ body @ pad"
    by (simp add: ipv6_wire_def h_def pl_def)
  have at: "?b ! 0 = of_nat h" "[?b ! 4, ?b ! 5] = enc_be 2 pl" "?b ! 6 = first_header exts"
    using fl by (simp_all add: b nth_append enc_be_2 nth_Cons')
  have addr: "take 16 (drop 8 ?b) = enc_be 16 src" "take 16 (drop 24 ?b) = enc_be 16 dst"
    using fl by (simp_all add: b drop_Cons')
  have lb: "length ?b = be + length pad" using fl by (simp add: b be_def)
  have v6: "(drop_bit 4 (of_nat h) :: u8) = 6"
    using h by (simp add: word_unat_eq_iff unat_high_nibble unat_of_nat_u8)
  have "be_word (enc_be 2 pl) = pl" by (simp add: be_word_enc)
  then have end': "min (40 + unat (be_word (enc_be 2 pl) :: u16)) (length ?b) = be"
    unfolding pl_def lb by (simp only: unat_of_nat_u16 [OF size] be_def)
  have d40: "drop 40 ?b = ext_wire exts @ body @ pad"
    using fl by (simp add: b drop_Cons')
  have walk: "walk_extensions ?b be (first_header exts) 40 = Some (Some (6, 40 + length (ext_wire exts)))"
    by (rule walk_extensions_wire [OF es d40]) (simp_all only: lb, simp_all add: be_def)
  have sl: "slice ?b (40 + length (ext_wire exts)) be = Some body"
  proof -
    have "drop (40 + length (ext_wire exts)) ?b = drop (length (ext_wire exts)) (drop 40 ?b)"
      by (simp only: drop_drop add.commute)
    then have "drop (40 + length (ext_wire exts)) ?b = body @ pad" unfolding d40 by simp
    moreover have "40 + length (ext_wire exts) \<le> be" "be \<le> length ?b"
      unfolding lb by (simp_all add: be_def)
    ultimately show ?thesis by (simp only: slice_Some) (simp add: be_def)
  qed
  have nn: "?b \<noteq> []" "40 \<le> length ?b" using lb by (auto simp: be_def)
  have "parse_ip ?b = parse_ipv6 ?b"
    using nn(1) by (rule parse_ip_v6) (simp only: at(1) v6)
  also have "\<dots> = parse_tcp body (IpV6 src) (IpV6 dst)"
    unfolding parse_ipv6_eq [OF nn(2)] at addr Let_def end' walk
    by (simp add: sl be_word_enc)
  finally show ?thesis .
qed

subsection \<open>Link layers\<close>

text \<open>
  The link-layer header in front of the IP packet: two MAC addresses and an Ethertype, nothing,
  or a cooked header of 4, 16 or 20 octets.
\<close>

definition link_header :: "int \<Rightarrow> u8 list \<Rightarrow> bool" where
  "link_header dlt h \<longleftrightarrow>
     (dlt = DLT_EN10MB \<and> length h = 14 \<and> (drop 12 h = enc_be 2 (0x0800 :: u16) \<or> drop 12 h = enc_be 2 (0x86DD :: u16)))
     \<or> (dlt \<in> {DLT_RAW, DLT_RAW_OLD, DLT_IPV4, DLT_IPV6} \<and> h = [])
     \<or> (dlt = DLT_NULL \<and> length h = 4)
     \<or> (dlt = DLT_LINUX_SLL \<and> length h = 16)
     \<or> (dlt = DLT_LINUX_SLL2 \<and> length h = 20)"

lemma strip_link_ethernet:
  assumes "length h = 14" and "14 \<le> length data" and "data = h @ p"
  shows "strip_link data DLT_EN10MB =
     (skip_vlan (be_word (drop 12 h)) p \<bind>
        (\<lambda>(ethertype, payload). Some (if ethertype = 0x0800 \<or> ethertype = 0x86DD then Some payload else None)))"
proof -
  have "drop 12 h = [h ! 12, h ! 13]"
    using assms(1) by (simp add: list_eq_iff_nth_eq less_Suc_eq numeral_2_eq_2)
  moreover have "idxs data [12, 13] = Some [h ! 12, h ! 13]"
    using assms by (auto simp: idxs_def idx_def nth_append)
  ultimately show ?thesis
    using assms by (simp add: strip_link_def run_simps)
qed

lemma skip_vlan_untagged: "e \<noteq> 0x8100 \<Longrightarrow> skip_vlan e p = Some (e, p)"
  by (subst skip_vlan.simps) simp

lemma strip_link_header: "link_header dlt h \<Longrightarrow> strip_link (h @ p) dlt = Some (Some p)"
proof (cases "dlt = DLT_EN10MB")
  case True
  assume l: "link_header dlt h"
  then have h: "length h = 14" and et: "drop 12 h = enc_be 2 (0x0800 :: u16) \<or> drop 12 h = enc_be 2 (0x86DD :: u16)"
    using True by (auto simp: link_header_def dlt_defs)
  have s: "strip_link (h @ p) dlt = (skip_vlan (be_word (drop 12 h)) p \<bind>
        (\<lambda>(ethertype, payload). Some (if ethertype = 0x0800 \<or> ethertype = 0x86DD then Some payload else None)))"
    unfolding True by (rule strip_link_ethernet [OF h]) (simp_all add: h)
  from et show ?thesis
    unfolding s by (auto simp: be_word_enc skip_vlan_untagged)
next
  case False
  assume "link_header dlt h"
  with False show ?thesis
    by (auto simp: link_header_def strip_link_def dlt_defs run_simps)
qed

subsection \<open>Whole frames\<close>

text \<open>C13. On every supported link type \<open>parse_frame\<close> recovers the TCP segment of an IPv4 frame
  exactly: addresses, ports, sequence numbers, flags and payload, whatever the IP and TCP
  options, and without the link-layer padding behind the packet.
\<close>

theorem parse_frame_ipv4:
  assumes "link_header dlt hdr"
    and "tcp_fields_ok seg r flags rest opts"
    and "seg_src seg = IpV4 src" and "seg_dst seg = IpV4 dst"
    and "ipv4_fields_ok mid cks ipopts (tcp_wire seg r flags rest opts)"
  shows "parse_frame (hdr @ ipv4_wire src dst tos mid cks ipopts (tcp_wire seg r flags rest opts) @ pad) dlt
           = Some (Some seg)"
  using strip_link_header [OF assms(1)] parse_ipv4_wire [OF assms(5)] parse_tcp_wire [OF assms(2)] assms(3,4)
  by (simp add: parse_frame_def)

definition sample_segment :: "ip_addr \<Rightarrow> ip_addr \<Rightarrow> tcp_segment" where
  "sample_segment src dst = \<lparr> seg_src = src, seg_dst = dst, seg_src_port = 40005, seg_dst_port = 5432,
     seg_seq = 7, seg_ack = 9, seg_syn = False, seg_fin = True, seg_rst = False, seg_payload = [88, 0, 0, 0, 4] \<rparr>"

theorem parse_frame_ipv4_witness:
  "parse_frame ((replicate 12 0 @ [8, 0])
      @ ipv4_wire 0x7F000001 0x7F000001 0 [0, 1, 0, 0, 64] [0, 0] []
          (tcp_wire (sample_segment (IpV4 0x7F000001) (IpV4 0x7F000001)) 0 17 [1, 2, 3, 4, 5, 6] [1, 1, 1, 1])
      @ [0, 0]) DLT_EN10MB
    = Some (Some (sample_segment (IpV4 0x7F000001) (IpV4 0x7F000001)))"
proof (rule parse_frame_ipv4)
  show "link_header DLT_EN10MB (replicate 12 0 @ [8, 0])"
    by (simp add: link_header_def enc_be_2)
  show "tcp_fields_ok (sample_segment (IpV4 0x7F000001) (IpV4 0x7F000001)) 0 17 [1, 2, 3, 4, 5, 6] [1, 1, 1, 1]"
    by (simp add: tcp_fields_ok_def sample_segment_def numeral_eq_Suc)
  show "ipv4_fields_ok [0, 1, 0, 0, 64] [0, 0] []
     (tcp_wire (sample_segment (IpV4 0x7F000001) (IpV4 0x7F000001)) 0 17 [1, 2, 3, 4, 5, 6] [1, 1, 1, 1])"
    by (simp add: ipv4_fields_ok_def tcp_wire_def sample_segment_def)
qed (simp_all add: sample_segment_def)

text \<open>C19. The same for IPv6: the chain of extension headers (hop-by-hop, routing, fragment,
  authentication, destination options) in front of TCP is walked to its end.
\<close>

theorem parse_frame_ipv6:
  assumes "link_header dlt hdr"
    and "tcp_fields_ok seg r flags rest opts"
    and "seg_src seg = IpV6 src" and "seg_dst seg = IpV6 dst"
    and "ipv6_fields_ok tc flow exts (tcp_wire seg r flags rest opts)"
  shows "parse_frame (hdr @ ipv6_wire src dst tc flow hop exts (tcp_wire seg r flags rest opts) @ pad) dlt
           = Some (Some seg)"
  using strip_link_header [OF assms(1)] parse_ipv6_wire [OF assms(5)] parse_tcp_wire [OF assms(2)] assms(3,4)
  by (simp add: parse_frame_def)

theorem parse_frame_ipv6_witness:
  "parse_frame ([0, 0, 0, 0]
      @ ipv6_wire 1 1 0 [0, 0, 0] 64 [(0, [0, 1, 4, 0, 0, 0, 0]), (51, [0, 0, 0, 0, 0, 0, 9])]
          (tcp_wire (sample_segment (IpV6 1) (IpV6 1)) 0 17 [1, 2, 3, 4, 5, 6] []) @ []) DLT_NULL
    = Some (Some (sample_segment (IpV6 1) (IpV6 1)))"
proof (rule parse_frame_ipv6)
  show "link_header DLT_NULL [0, 0, 0, 0]"
    by (simp add: link_header_def dlt_defs)
  show "tcp_fields_ok (sample_segment (IpV6 1) (IpV6 1)) 0 17 [1, 2, 3, 4, 5, 6] []"
    by (simp add: tcp_fields_ok_def sample_segment_def)
  show "ipv6_fields_ok 0 [0, 0, 0] [(0, [0, 1, 4, 0, 0, 0, 0]), (51, [0, 0, 0, 0, 0, 0, 9])]
     (tcp_wire (sample_segment (IpV6 1) (IpV6 1)) 0 17 [1, 2, 3, 4, 5, 6] [])"
    by (simp add: ipv6_fields_ok_def ext_ok_def ext_size_def is_extension_header_def tcp_wire_def sample_segment_def)
qed (simp_all add: sample_segment_def)

text \<open>A frame with an 802.1Q tag is not decoded: \<open>strip_link\<close> reads the next Ethertype from
  the tag's control information (octets 0 and 1 behind the tag) instead of octets 2 and 3, so
  whatever IP packet follows, the frame is dropped unless the tag's 16 bits happen to equal
  an IP Ethertype or the tag's own.
\<close>

theorem parse_frame_vlan_dropped:
  assumes "length macs = 12" and "length tci = 2" and "2 \<le> length rest"
    and "be_word tci \<notin> {0x0800, 0x86DD, 0x8100 :: u16}"
  shows "parse_frame (macs @ [0x81, 0x00] @ tci @ rest) DLT_EN10MB = Some None"
proof -
  have tag: "be_word [0x81, 0x00] = (0x8100 :: u16)"
    by (simp add: be_word_def be_nat_def)
  obtain a b where tci: "tci = [a, b]"
    using assms(2) by (auto simp: length_Suc_conv numeral_2_eq_2)
  have "idxs (tci @ rest) [0, 1] = Some tci"
    by (simp add: tci idxs_def idx_def)
  then have "skip_vlan 0x8100 (tci @ rest) = skip_vlan (be_word tci) (drop 4 (tci @ rest))"
    using assms(2,3) by (subst skip_vlan.simps) (simp add: run_simps)
  also have "\<dots> = Some (be_word tci, drop 4 (tci @ rest))"
    using assms(4) by (intro skip_vlan_untagged) auto
  finally have sk: "skip_vlan 0x8100 (tci @ rest) = Some (be_word tci, drop 4 (tci @ rest))" .
  have "strip_link ((macs @ [0x81, 0x00]) @ tci @ rest) DLT_EN10MB = Some None"
    using assms(1,4) strip_link_ethernet [of "macs @ [0x81, 0x00]" _ "tci @ rest"]
    by (simp add: tag sk)
  then show ?thesis by (simp add: parse_frame_def)
qed

theorem parse_frame_vlan_dropped_witness:
  "parse_frame (replicate 12 0 @ [0x81, 0x00] @ [0, 100] @ [8, 0]
     @ ipv4_wire 0x7F000001 0x7F000001 0 [0, 1, 0, 0, 64] [0, 0] []
         (tcp_wire (sample_segment (IpV4 0x7F000001) (IpV4 0x7F000001)) 0 17 [1, 2, 3, 4, 5, 6] [])) DLT_EN10MB
   = Some None"
proof (rule parse_frame_vlan_dropped)
  show "be_word [0, 100] \<notin> {0x0800, 0x86DD, 0x8100 :: u16}"
    by (simp add: be_word_def be_nat_def)
qed simp_all

end
