(* ===== verification/Capture_Path.thy ===== *)
theory Capture_Path
  imports Capture_Stream Wire
begin

text \<open>
  The whole path of a capture, from frames to messages: frames that carry the segments of any number of connections, interleaved
  in any way with each other and with frames that are not TCP, are parsed (\<open>Net\<close>, \<open>Wire\<close>), handled by the connection
  table (\<open>Flow\<close>) and shown (\<open>Decode\<close>). \<open>Capture_Stream\<close> is about one connection; here the connections of a table are kept apart through
  the locale \<open>merged_streams\<close>, as those of the proxy are in \<open>Serve_Stream\<close>.
\<close>

subsection \<open>Packets that carry segments\<close>

text \<open>A frame that holds a segment, over IPv4 or IPv6, with any options, extension headers and padding; and the packets that carry
  the segments \<open>segs\<close> in that order, among timeouts and frames without a TCP segment.\<close>

inductive frame_of :: "int \<Rightarrow> tcp_segment \<Rightarrow> u8 list \<Rightarrow> bool" for dlt :: int and seg :: tcp_segment where
  over_ipv4: "link_header dlt hdr \<Longrightarrow> tcp_fields_ok seg r flags rest opts \<Longrightarrow> seg_src seg = IpV4 src \<Longrightarrow> seg_dst seg = IpV4 dst \<Longrightarrow>
     ipv4_fields_ok mid cks ipopts (tcp_wire seg r flags rest opts) \<Longrightarrow>
     frame_of dlt seg (hdr @ ipv4_wire src dst tos mid cks ipopts (tcp_wire seg r flags rest opts) @ pad)"
| over_ipv6: "link_header dlt hdr \<Longrightarrow> tcp_fields_ok seg r flags rest opts \<Longrightarrow> seg_src seg = IpV6 src' \<Longrightarrow> seg_dst seg = IpV6 dst' \<Longrightarrow>
     ipv6_fields_ok tc flow exts (tcp_wire seg r flags rest opts) \<Longrightarrow>
     frame_of dlt seg (hdr @ ipv6_wire src' dst' tc flow hop exts (tcp_wire seg r flags rest opts) @ pad)"

lemma parse_frame_of: "frame_of dlt seg f \<Longrightarrow> parse_frame f dlt = Some (Some seg)"
proof (induction rule: frame_of.induct)
  case (over_ipv4 hdr r flags rest opts src dst mid cks ipopts tos pad)
  then show ?case
    using strip_link_header [OF over_ipv4(1)] parse_ipv4_wire [OF over_ipv4(5)] parse_tcp_wire [OF over_ipv4(2)]
    by (simp add: parse_frame_def)
next
  case (over_ipv6 hdr r flags rest opts src' dst' tc flow exts hop pad)
  then show ?case
    using strip_link_header [OF over_ipv6(1)] parse_ipv6_wire [OF over_ipv6(5)] parse_tcp_wire [OF over_ipv6(2)]
    by (simp add: parse_frame_def)
qed

inductive carries :: "int \<Rightarrow> packet_result list \<Rightarrow> tcp_segment list \<Rightarrow> bool" for dlt :: int where
  no_more: "carries dlt [] []"
| a_frame: "frame_of dlt seg f \<Longrightarrow> carries dlt ps segs \<Longrightarrow> carries dlt (Packet f # ps) (seg # segs)"
| noise: "parse_frame f dlt = Some None \<Longrightarrow> carries dlt ps segs \<Longrightarrow> carries dlt (Packet f # ps) segs"
| idle: "carries dlt ps segs \<Longrightarrow> carries dlt (TimeoutExpired # ps) segs"

lemma carries_parsed: "carries dlt ps segs \<Longrightarrow> parsed_segments dlt ps = segs \<and> end_of ps = Waiting"
  by (induction rule: carries.induct) (simp_all add: parse_frame_of)

subsection \<open>A segment touches its own connection only\<close>

lemma open_flow_others: "k \<noteq> k' \<Longrightarrow> map_of (fl_map (open_flow ce k' pg_port st)) k = map_of (fl_map st) k"
  by (simp add: open_flow_def Let_def split_beta update_conv')

lemma table_handle_others:
  assumes "table_handle ce seg pg_port st = Some st'" "classify seg pg_port \<noteq> Some k"
  shows "map_of (fl_map st') k = map_of (fl_map st) k"
proof (cases "classify seg pg_port")
  case (Some k')
  then have k: "k \<noteq> k'" using assms(2) by auto
  define st1 where "st1 = (if should_open (fl_map st) k' seg then open_flow ce k' pg_port st else st)"
  have same: "map_of (fl_map st1) k = map_of (fl_map st) k" by (simp add: st1_def open_flow_others [OF k])
  show ?thesis
  proof (cases "map_of (fl_map st1) k'")
    case None
    then have "fl_map st' = fl_map st1" using assms(1) Some by (auto simp: table_handle_def st1_def [symmetric])
    then show ?thesis using same by simp
  next
    case (Some conn)
    obtain c m i where "connection_handle ce seg pg_port conn (fl_metrics st1) (fl_io st1) = Some (c, m, i)"
      using assms(1) \<open>classify seg pg_port = Some k'\<close> Some
      by (cases "connection_handle ce seg pg_port conn (fl_metrics st1) (fl_io st1)") (auto simp: table_handle_def st1_def [symmetric])
    then have "fl_map st' \<in> {AList.delete k' (fl_map st1), AList.update k' (c\<lparr> metrics_closed := True \<rparr>) (fl_map st1), AList.update k' c (fl_map st1)}"
      using assms(1) \<open>classify seg pg_port = Some k'\<close> Some by (auto simp: table_handle_def st1_def [symmetric] split: if_splits)
    then show ?thesis using same k by (auto simp: update_conv' delete_conv')
  qed
qed (use assms in \<open>simp add: table_handle_def\<close>)

text \<open>A data segment of a connection, which may carry a FIN: its directions are those its handler leaves.\<close>

lemma table_handle_stream:
  assumes "map_of (fl_map st) k = Some c" "classify seg pg_port = Some k" "\<not> seg_syn seg" "\<not> seg_rst seg"
    and "connection_handle ce seg pg_port c (fl_metrics st) (fl_io st) = Some (c', m, i)"
  shows "\<exists>st' c2. table_handle ce seg pg_port st = Some st' \<and> map_of (fl_map st') k = Some c2
    \<and> (\<forall>r. dir_of r c2 = dir_of r c') \<and> cn_encrypted c2 = cn_encrypted c' \<and> heard [] i (fl_io st')"
proof (cases "seg_fin seg \<and> \<not> metrics_closed c'")
  case True
  obtain l where "routes [Line l] i (out_ts (cenv ce) (lit ''=== connection closed (FIN) ==='') i)" using routes_line by blast
  then have "heard [] i (out_ts (cenv ce) (lit ''=== connection closed (FIN) ==='') i)"
    unfolding heard_def by (intro exI [of _ "[Line l]"]) (simp add: map_filter_simps)
  then show ?thesis
    using assms True by (simp add: table_handle_def should_open_def update_conv' dir_of_def)
next
  case False
  then show ?thesis
    using assms by (auto simp: table_handle_def should_open_def update_conv' heard_Nil)
qed

subsection \<open>Where a connection is\<close>

text \<open>What a connection is to say: the initial sequence numbers, the byte streams and their messages.\<close>

record talk =
  tk_isn :: "role \<Rightarrow> u32"
  tk_bytes :: "role \<Rightarrow> u8 list"
  tk_said :: "role \<Rightarrow> said list"

definition talk_decodes :: "'c capture_env \<Rightarrow> conn_key \<Rightarrow> talk \<Rightarrow> bool" where
  "talk_decodes ce k t \<longleftrightarrow> (\<forall>r. length (tk_bytes t r) < 2 ^ 31) \<and> streams_decode (fdec ce) (bdec ce) (cenv ce)
     (\<lambda>r. direction_new (default_ctx ce) r (ck_client k)) (tk_bytes t) (tk_said t)"

text \<open>The segments of the connection \<open>k\<close>, and that they come as they should: the two SYNs, then pieces of the streams.\<close>

definition of_key :: "u16 \<Rightarrow> conn_key \<Rightarrow> tcp_segment list \<Rightarrow> tcp_segment list" where
  "of_key pg_port k segs = filter (\<lambda>seg. classify seg pg_port = Some k) segs"

abbreviation first_byte :: "talk \<Rightarrow> role \<Rightarrow> u32" where
  "first_byte t \<equiv> (\<lambda>r. tk_isn t r + 1)"

fun in_turn :: "u16 \<Rightarrow> conn_key \<Rightarrow> talk \<Rightarrow> tcp_segment list \<Rightarrow> bool" where
  "in_turn pg_port k t [] \<longleftrightarrow> True"
| "in_turn pg_port k t [a] \<longleftrightarrow> syn_of pg_port k (tk_isn t) Client a"
| "in_turn pg_port k t (a # b # q) \<longleftrightarrow> syn_of pg_port k (tk_isn t) Client a \<and> syn_of pg_port k (tk_isn t) Server b
     \<and> (\<forall>seg \<in> set q. stream_data pg_port k (first_byte t) (tk_bytes t) seg)"

text \<open>The entry of the table after those segments, with \<open>z\<close> still to be said.\<close>

fun stage :: "'c capture_env \<Rightarrow> u16 \<Rightarrow> conn_key \<Rightarrow> talk \<Rightarrow> tcp_segment list \<Rightarrow> (role \<Rightarrow> said list) \<Rightarrow> 'c connection option \<Rightarrow> bool" where
  "stage ce pg_port k t [] z mc \<longleftrightarrow> mc = None \<and> z = tk_said t"
| "stage ce pg_port k t [a] z mc \<longleftrightarrow> z = tk_said t \<and> (\<exists>c. mc = Some c \<and> half_open ce k (tk_isn t) c)"
| "stage ce pg_port k t (a # b # q) z mc \<longleftrightarrow> (\<exists>c0 c n. mc = Some c \<and> conn_awaits ce (first_byte t) (tk_bytes t) n z c \<and> conn_for (ck_client k) c
     \<and> (\<forall>r cs. arrived (first_byte t r) cs {} (dir_of r c0)) \<and> grows pg_port (first_byte t) q c0 c)"

lemma of_key_snoc: "of_key pg_port k (segs @ [seg]) = of_key pg_port k segs @ (if classify seg pg_port = Some k then [seg] else [])"
  by (simp add: of_key_def)

lemma conn_same_dirs:
  assumes "\<forall>r. dir_of r c2 = dir_of r c'" "cn_encrypted c2 = cn_encrypted c'"
  shows "conn_awaits ce base s n z c2 = conn_awaits ce base s n z c'" "conn_for cl c2 = conn_for cl c'"
    "grows pg_port base segs c c2 = grows pg_port base segs c c'"
  using assms by (simp_all add: conn_awaits_def conn_for_def grows_def)

text \<open>The next segment of the connection: it is handled, what is said is of its client and was still to be said.\<close>

definition stage_said ::
    "'c capture_env \<Rightarrow> u16 \<Rightarrow> conn_key \<Rightarrow> talk \<Rightarrow> tcp_segment list \<Rightarrow> (role \<Rightarrow> said list) \<Rightarrow> tcp_segment \<Rightarrow> 'c flow_state \<Rightarrow> bool" where
  "stage_said ce pg_port k t q z seg st \<longleftrightarrow> (\<exists>st' ys z'. table_handle ce seg pg_port st = Some st'
     \<and> stage ce pg_port k t (q @ [seg]) z' (map_of (fl_map st') k) \<and> heard ys (fl_io st) (fl_io st') \<and> (\<forall>y \<in> set ys. fst y = ck_client k)
     \<and> (\<forall>r. z r = of_role r ys @ z' r))"

lemma stage_said_quiet:
  "table_handle ce seg pg_port st = Some st' \<Longrightarrow> stage ce pg_port k t (q @ [seg]) z (map_of (fl_map st') k) \<Longrightarrow> heard [] (fl_io st) (fl_io st')
     \<Longrightarrow> stage_said ce pg_port k t q z seg st"
  unfolding stage_said_def by (intro exI [of _ st'] exI [of _ "[]"] exI [of _ z]) simp

lemma stage_syn:
  assumes "decoder_stable (fdec ce)" "decoder_stable (bdec ce)"
    and "stage ce pg_port k t [] z (map_of (fl_map st) k)" "syn_of pg_port k (tk_isn t) Client seg"
  shows "stage_said ce pg_port k t [] z seg st"
proof -
  obtain st' c where 1: "table_handle ce seg pg_port st = Some st'" "map_of (fl_map st') k = Some c" "half_open ce k (tk_isn t) c"
    "fl_io st' = opened_io ce k pg_port (fl_io st)"
    using syn_opens [OF assms(1,2) _ assms(4), of st] assms(3) by auto
  obtain l where "routes [Line l] (fl_io st) (fl_io st')" unfolding 1(4) opened_io_def using routes_line by blast
  then have "heard [] (fl_io st) (fl_io st')" unfolding heard_def by (intro exI [of _ "[Line l]"]) (simp add: map_filter_simps)
  moreover have "stage ce pg_port k t ([] @ [seg]) z (map_of (fl_map st') k)" using 1(2,3) assms(3) by simp
  ultimately show ?thesis using stage_said_quiet [OF 1(1)] by blast
qed

lemma stage_syn_ack:
  assumes "decoder_stable (fdec ce)" "decoder_stable (bdec ce)" "talk_decodes ce k t"
    and "stage ce pg_port k t [a] z (map_of (fl_map st) k)" "syn_of pg_port k (tk_isn t) Server seg"
  shows "stage_said ce pg_port k t [a] z seg st"
proof -
  obtain c where c: "map_of (fl_map st) k = Some c" "half_open ce k (tk_isn t) c" and z: "z = tk_said t" using assms(4) by auto
  obtain st' c' where 1: "table_handle ce seg pg_port st = Some st'" "map_of (fl_map st') k = Some c'" "fl_io st' = fl_io st" "\<not> cn_encrypted c'"
    "\<forall>r. dir_of r c' = (direction_new (default_ctx ce) r (ck_client k))\<lparr> next_seq := Some (tk_isn t r + 1) \<rparr>"
    using syn_answered [OF assms(1,2) c assms(5)] by blast
  have "streams_decode (fdec ce) (bdec ce) (cenv ce) (\<lambda>r. direction_new (default_ctx ce) r (ck_client k)) (tk_bytes t) (tk_said t)"
    using assms(3) by (simp add: talk_decodes_def)
  note awaits = handshake_awaits [OF assms(1,2) this 1(4,5)]
  have "conn_for (ck_client k) c'" using 1(5) by (simp add: conn_for_def direction_new_def)
  then have "stage ce pg_port k t ([a] @ [seg]) z (map_of (fl_map st') k)"
    using awaits z grows_Nil [of pg_port "first_byte t" c'] by (simp add: 1(2)) blast
  then show ?thesis using stage_said_quiet [OF 1(1)] by (simp add: 1(3) heard_Nil)
qed

lemma stage_data:
  assumes "decoder_stable (fdec ce)" "decoder_stable (bdec ce)" "talk_decodes ce k t"
    and "stage ce pg_port k t (a # b # q) z (map_of (fl_map st) k)" "stream_data pg_port k (first_byte t) (tk_bytes t) seg"
  shows "stage_said ce pg_port k t (a # b # q) z seg st"
proof -
  obtain c0 c n where c: "map_of (fl_map st) k = Some c" "conn_awaits ce (first_byte t) (tk_bytes t) n z c" "conn_for (ck_client k) c"
    "\<forall>r cs. arrived (first_byte t r) cs {} (dir_of r c0)" "grows pg_port (first_byte t) q c0 c"
    using assms(4) by auto
  have len: "\<forall>r. length (tk_bytes t r) < 2 ^ 31" using assms(3) by (simp add: talk_decodes_def)
  obtain c' m' i' n' z' xs where h: "connection_handle ce seg pg_port c (fl_metrics st) (fl_io st) = Some (c', m', i')"
    "conn_awaits ce (first_byte t) (tk_bytes t) n' z' c'" "says xs (fl_io st) i'" "\<forall>r. z r = of_role r xs @ z' r"
    "grows pg_port (first_byte t) [seg] c c'" "\<forall>cl. conn_for cl c \<longrightarrow> conn_for cl c' \<and> (\<forall>x \<in> set xs. fst x = cl)"
    using stream_handled [OF assms(1,2) c(2) len assms(5)] by blast
  have plain: "classify seg pg_port = Some k" "\<not> seg_syn seg" "\<not> seg_rst seg" using assms(5) by (simp_all add: stream_data_def)
  obtain st' c2 where 2: "table_handle ce seg pg_port st = Some st'" "map_of (fl_map st') k = Some c2"
    "\<forall>r. dir_of r c2 = dir_of r c'" "cn_encrypted c2 = cn_encrypted c'" "heard [] i' (fl_io st')"
    using table_handle_stream [OF c(1) plain h(1)] by blast
  have own: "conn_for (ck_client k) c'" "\<forall>x \<in> set xs. fst x = ck_client k" using h(6) [THEN spec, THEN mp, OF c(3)] by simp_all
  have "stage ce pg_port k t ((a # b # q) @ [seg]) z' (Some c2)"
    using h(2) own(1) c(4) grows_append [OF c(5) h(5)] by (auto simp: conn_same_dirs [OF 2(3,4)])
  moreover have "heard xs (fl_io st) (fl_io st')" using heard_append [OF says_heard [OF h(3)] 2(5)] by simp
  ultimately show ?thesis
    unfolding stage_said_def using 2(1,2) h(4) own(2) by (intro exI [of _ st'] exI [of _ xs] exI [of _ z']) simp
qed

lemma in_turn_stage:
  assumes "decoder_stable (fdec ce)" "decoder_stable (bdec ce)" "talk_decodes ce k t"
    and "stage ce pg_port k t q z (map_of (fl_map st) k)" "in_turn pg_port k t (q @ [seg])"
  shows "stage_said ce pg_port k t q z seg st"
proof (cases q)
  case Nil
  then show ?thesis using stage_syn [OF assms(1,2)] assms(4,5) by simp
next
  case (Cons a q1)
  then show ?thesis
    using stage_syn_ack [OF assms(1-3)] stage_data [OF assms(1-3)] assms(4,5) by (cases q1) simp_all
qed

lemma in_turn_prefix: "in_turn pg_port k t (q @ [seg]) \<Longrightarrow> in_turn pg_port k t q"
  by (cases "(pg_port, k, t, q)" rule: in_turn.cases) (simp_all)

subsection \<open>The connections of a capture\<close>

text \<open>The state of a capture: the segments handled and the table. A connection moves when a segment of it is handled.\<close>

definition key_awaits ::
    "'c capture_env \<Rightarrow> u16 \<Rightarrow> (conn_key \<Rightarrow> talk) \<Rightarrow> conn_key \<Rightarrow> (role \<Rightarrow> said list) \<Rightarrow> tcp_segment list \<times> 'c flow_state \<Rightarrow> bool" where
  "key_awaits ce pg_port T k z = (\<lambda>(segs, st). talk_decodes ce k (T k) \<and> stage ce pg_port k (T k) (of_key pg_port k segs) z (map_of (fl_map st) k))"

definition key_moves ::
    "'c capture_env \<Rightarrow> u16 \<Rightarrow> (conn_key \<Rightarrow> talk) \<Rightarrow> conn_key \<Rightarrow> tcp_segment list \<times> 'c flow_state \<Rightarrow> tcp_segment list \<times> 'c flow_state \<Rightarrow> bool" where
  "key_moves ce pg_port T k = (\<lambda>(segs, st) (segs', st'). decoder_stable (fdec ce) \<and> decoder_stable (bdec ce) \<and> (\<exists>seg. segs' = segs @ [seg]
     \<and> classify seg pg_port = Some k \<and> table_handle ce seg pg_port st = Some st' \<and> in_turn pg_port k (T k) (of_key pg_port k segs')))"

definition shown_by :: "tcp_segment list \<times> 'c flow_state \<Rightarrow> io" where
  "shown_by = (\<lambda>(segs, st). fl_io st)"

lemma key_moves_says:
  assumes "key_moves ce pg_port T k s s'" "key_awaits ce pg_port T k z s"
  shows "\<exists>ys z'. key_awaits ce pg_port T k z' s' \<and> heard ys (shown_by s) (shown_by s') \<and> (\<forall>y \<in> set ys. fst y = ck_client k) \<and> (\<forall>r. z r = of_role r ys @ z' r)"
proof -
  obtain segs st seg st' where s: "s = (segs, st)" "s' = (segs @ [seg], st')" "classify seg pg_port = Some k" "table_handle ce seg pg_port st = Some st'"
    "in_turn pg_port k (T k) (of_key pg_port k segs @ [seg])" and stable: "decoder_stable (fdec ce)" "decoder_stable (bdec ce)"
    using assms(1) by (cases s; cases s') (auto simp: key_moves_def of_key_snoc)
  have a: "talk_decodes ce k (T k)" "stage ce pg_port k (T k) (of_key pg_port k segs) z (map_of (fl_map st) k)"
    using assms(2) by (simp_all add: s(1) key_awaits_def)
  show ?thesis
    using in_turn_stage [OF stable a s(5)] a(1) by (auto simp: stage_said_def s key_awaits_def of_key_snoc shown_by_def)
qed

lemma key_moves_others:
  "key_moves ce pg_port T k s s' \<Longrightarrow> l \<noteq> k \<Longrightarrow> key_awaits ce pg_port T l w s \<Longrightarrow> key_awaits ce pg_port T l w s'"
  by (auto simp: key_moves_def key_awaits_def of_key_snoc table_handle_others [where k = l])

interpretation keys: merged_streams ck_client "key_awaits ce pg_port T" shown_by "key_moves ce pg_port T" for ce pg_port T
  by unfold_locales (fact key_moves_says, fact key_moves_others)

lemma key_awaits_quiet:
  "classify seg pg_port \<noteq> Some k \<Longrightarrow> table_handle ce seg pg_port st = Some st' \<Longrightarrow> key_awaits ce pg_port T k w (segs, st) \<Longrightarrow>
     key_awaits ce pg_port T k w (segs @ [seg], st')"
  by (simp add: key_awaits_def of_key_snoc table_handle_others)

lemma captured_merged:
  assumes stable: "decoder_stable (fdec ce)" "decoder_stable (bdec ce)" and inj: "inj_on ck_client K"
    and "\<forall>k \<in> K. talk_decodes ce k (T k) \<and> in_turn pg_port k (T k) (of_key pg_port k segs)" "\<forall>seg \<in> set segs. \<forall>k. classify seg pg_port = Some k \<longrightarrow> k \<in> K"
  shows "\<exists>st ys zs. capture_run ce pg_port segs (conn_table_with_metrics m i) = Some st
    \<and> merged_streams.merged ck_client (key_awaits ce pg_port T) shown_by K (\<lambda>k. tk_said (T k)) i ys zs (segs, st)"
  using assms(4-)
proof (induction segs rule: rev_induct)
  case Nil
  have "key_awaits ce pg_port T k (tk_said (T k)) ([], conn_table_with_metrics m i)" if "k \<in> K" for k
    using Nil.prems(1) that by (simp add: key_awaits_def of_key_def conn_table_with_metrics_def)
  then show ?case
    using keys.merged_start [of K ce pg_port T "\<lambda>k. tk_said (T k)" "([], conn_table_with_metrics m i)"]
    by (auto simp: shown_by_def conn_table_with_metrics_def)
next
  case (snoc seg segs)
  have "in_turn pg_port k (T k) (of_key pg_port k segs)" if "k \<in> K" for k
  proof (cases "classify seg pg_port = Some k")
    case True
    then have "in_turn pg_port k (T k) (of_key pg_port k segs @ [seg])" using bspec [OF snoc.prems(1) that] by (simp add: of_key_snoc)
    then show ?thesis by (rule in_turn_prefix)
  next
    case False
    then show ?thesis using bspec [OF snoc.prems(1) that] by (simp add: of_key_snoc)
  qed
  then obtain st ys zs where run: "capture_run ce pg_port segs (conn_table_with_metrics m i) = Some st"
    and inv: "merged_streams.merged ck_client (key_awaits ce pg_port T) shown_by K (\<lambda>k. tk_said (T k)) i ys zs (segs, st)"
    using snoc.IH snoc.prems by auto
  show ?case
  proof (cases "classify seg pg_port")
    case None
    then have h: "table_handle ce seg pg_port st = Some st" by (simp add: table_handle_def)
    then have "merged_streams.merged ck_client (key_awaits ce pg_port T) shown_by K (\<lambda>k. tk_said (T k)) i ys zs (segs @ [seg], st)"
      using keys.merged_keeps [OF inv, of "(segs @ [seg], st)"] None by (simp add: shown_by_def heard_Nil key_awaits_quiet)
    then show ?thesis using run h by (auto simp: capture_run_append)
  next
    case (Some k)
    then have k: "k \<in> K" "in_turn pg_port k (T k) (of_key pg_port k segs @ [seg])" using snoc.prems by (auto simp: of_key_snoc)
    have "talk_decodes ce k (T k)" "stage ce pg_port k (T k) (of_key pg_port k segs) (zs k) (map_of (fl_map st) k)"
      using inv k(1) by (auto simp: keys.merged_def key_awaits_def)
    from in_turn_stage [OF stable this k(2)] obtain st' where h: "table_handle ce seg pg_port st = Some st'" by (auto simp: stage_said_def)
    then have "key_moves ce pg_port T k (segs, st) (segs @ [seg], st')" using stable Some k(2) by (simp add: key_moves_def of_key_snoc)
    then show ?thesis using keys.merged_moves [OF inv inj k(1)] run h by (auto simp: capture_run_append)
  qed
qed

text \<open>Every segment of a segmentation of the stream of a side has arrived.\<close>

definition all_arrived :: "u16 \<Rightarrow> conn_key \<Rightarrow> talk \<Rightarrow> role \<Rightarrow> tcp_segment list \<Rightarrow> bool" where
  "all_arrived pg_port k t r segs \<longleftrightarrow> (\<exists>a b q cs. of_key pg_port k segs = a # b # q \<and> concat cs = tk_bytes t r \<and> (\<forall>c \<in> set cs. c \<noteq> [])
     \<and> whole_segments pg_port (first_byte t) r cs q \<and> indices pg_port (first_byte t) r cs q = {..<length cs})"

lemma all_arrived_said:
  assumes "stage ce pg_port k t (of_key pg_port k segs) z mc" "talk_decodes ce k t" "all_arrived pg_port k t r segs"
  shows "z r = []"
proof -
  obtain a b q cs where q: "of_key pg_port k segs = a # b # q" "concat cs = tk_bytes t r" "\<forall>c \<in> set cs. c \<noteq> []"
    "whole_segments pg_port (first_byte t) r cs q" "indices pg_port (first_byte t) r cs q = {..<length cs}"
    using assms(3) unfolding all_arrived_def by blast
  obtain c0 c n where c: "conn_awaits ce (first_byte t) (tk_bytes t) n z c" "\<forall>r cs. arrived (first_byte t r) cs {} (dir_of r c0)"
    "grows pg_port (first_byte t) q c0 c"
    using assms(1) q(1) by auto
  have len: "length (concat cs) < 2 ^ 31" using assms(2) q(2) by (simp add: talk_decodes_def)
  have "arrived (first_byte t r) cs {..<length cs} (dir_of r c)"
    using c(3) [unfolded grows_def, THEN spec, of r, THEN spec, of cs, THEN spec, of "{}"] c(2) q(3-5) len by simp
  moreover have "awaits ce (first_byte t r) (concat cs) (n r) (z r) (dir_of r c)" using c(1) q(2) by (simp add: conn_awaits_def)
  ultimately show ?thesis using awaits_all [OF _ _ _ len] by blast
qed

lemma captured_said:
  assumes "decoder_stable (fdec ce)" "decoder_stable (bdec ce)" "inj_on ck_client K"
    and "\<forall>k \<in> K. talk_decodes ce k (T k) \<and> in_turn pg_port k (T k) (of_key pg_port k segs)"
    and "\<forall>seg \<in> set segs. \<forall>k. classify seg pg_port = Some k \<longrightarrow> k \<in> K"
  shows "\<exists>st ys. capture_run ce pg_port segs (conn_table_with_metrics m i) = Some st \<and> heard ys i (fl_io st)
    \<and> (\<forall>y \<in> set ys. \<exists>k \<in> K. fst y = ck_client k)
    \<and> (\<forall>k \<in> K. \<forall>r. \<exists>rest. tk_said (T k) r = of_role r (of_client (ck_client k) ys) @ rest \<and> (all_arrived pg_port k (T k) r segs \<longrightarrow> rest = []))"
proof -
  obtain st ys zs where run: "capture_run ce pg_port segs (conn_table_with_metrics m i) = Some st"
    and inv: "merged_streams.merged ck_client (key_awaits ce pg_port T) shown_by K (\<lambda>k. tk_said (T k)) i ys zs (segs, st)"
    using captured_merged [OF assms(1-5), of m i] by blast
  have "zs k r = []" if "k \<in> K" "all_arrived pg_port k (T k) r segs" for k r
    using inv that assms(4) all_arrived_said by (fastforce simp: keys.merged_def key_awaits_def)
  then have "\<exists>rest. tk_said (T k) r = of_role r (of_client (ck_client k) ys) @ rest \<and> (all_arrived pg_port k (T k) r segs \<longrightarrow> rest = [])"
    if "k \<in> K" for k r
    using inv that by (intro exI [of _ "zs k r"]) (simp add: keys.merged_def)
  moreover have "heard ys i (fl_io st)" "\<forall>y \<in> set ys. \<exists>k \<in> K. fst y = ck_client k"
    using inv unfolding keys.merged_def by (simp_all add: shown_by_def)
  ultimately show ?thesis using run by blast
qed

subsection \<open>Property\<close>


subsection \<open>Witness\<close>

text \<open>The sample connection of \<open>Capture_Stream\<close>, and a second client whose SYN comes between the two SYNs of the first; each segment in an
  IPv4 packet behind a loopback header, followed by a timeout, after a frame that is too short.\<close>

definition other_key :: conn_key where
  "other_key = sample_key\<lparr> ck_client := (IpV4 0x7F000001, 50001) \<rparr>"

definition other_syn :: tcp_segment where
  "other_syn = (from_client 7 [])\<lparr> seg_src_port := 50001, seg_syn := True \<rparr>"

definition sample_talk :: "conn_key \<Rightarrow> talk" where
  "sample_talk k = (if k = sample_key then \<lparr> tk_isn = sample_isn, tk_bytes = (\<lambda>r. concat (sample_cuts r)), tk_said = sample_said \<rparr>
     else \<lparr> tk_isn = (\<lambda>r. 7), tk_bytes = (\<lambda>r. []), tk_said = (\<lambda>r. []) \<rparr>)"

definition two_segments :: "tcp_segment list" where
  "two_segments = sample_syn Client # other_syn # sample_syn Server # sample_segments"

definition sample_frame :: "tcp_segment \<Rightarrow> u8 list" where
  "sample_frame seg = [0, 0, 0, 0] @ ipv4_wire 0x7F000001 0x7F000001 0 [0, 1, 0, 0, 64] [0, 0] []
     (tcp_wire seg 0 (if seg_syn seg then 2 else 0) [1, 2, 3, 4, 5, 6] []) @ []"

definition sample_packets :: "packet_result list" where
  "sample_packets = Packet [1, 2, 3] # concat (map (\<lambda>seg. [Packet (sample_frame seg), TimeoutExpired]) two_segments)"

lemma sample_frame_of:
  assumes "seg_src seg = IpV4 0x7F000001" "seg_dst seg = IpV4 0x7F000001" "\<not> seg_fin seg" "\<not> seg_rst seg" "length (seg_payload seg) < 1000"
  shows "frame_of DLT_NULL seg (sample_frame seg)"
  unfolding sample_frame_def
proof (rule over_ipv4)
  show "link_header DLT_NULL [0, 0, 0, 0]" by (simp add: link_header_def dlt_defs)
  show "tcp_fields_ok seg 0 (if seg_syn seg then 2 else 0) [1, 2, 3, 4, 5, 6] []"
    using assms(3,4) by (simp add: tcp_fields_ok_def)
  show "ipv4_fields_ok [0, 1, 0, 0, 64] [0, 0] [] (tcp_wire seg 0 (if seg_syn seg then 2 else 0) [1, 2, 3, 4, 5, 6] [])"
    using assms(5) by (simp add: ipv4_fields_ok_def tcp_wire_def)
qed (use assms in simp_all)

lemma carries_frames:
  "\<forall>seg \<in> set segs. frame_of dlt seg (f seg) \<Longrightarrow> carries dlt (concat (map (\<lambda>seg. [Packet (f seg), TimeoutExpired]) segs)) segs"
  by (induction segs) (auto intro: carries.intros)

lemma sample_carries: "carries DLT_NULL sample_packets two_segments"
  unfolding sample_packets_def
proof (rule noise)
  show "parse_frame [1, 2, 3] DLT_NULL = Some None" by (simp add: parse_frame_def strip_link_def dlt_defs)
  show "carries DLT_NULL (concat (map (\<lambda>seg. [Packet (sample_frame seg), TimeoutExpired]) two_segments)) two_segments"
    by (rule carries_frames)
      (simp add: two_segments_def sample_segments_def sample_syn_def other_syn_def sample_frame_of from_client_def from_server_def)
qed

lemma other_key_differs: "other_key \<noteq> sample_key" "sample_key \<noteq> other_key" "ck_client sample_key = sample_client" "ck_client other_key = (IpV4 0x7F000001, 50001)"
  by (simp_all add: other_key_def sample_key_def sample_client_def)

lemma sample_of_key:
  "of_key 5432 sample_key two_segments = sample_syn Client # sample_syn Server # sample_segments"
  "of_key 5432 other_key two_segments = [other_syn]"
proof -
  have syn: "classify (sample_syn r) 5432 = Some sample_key" for r using sample_syn_ok by (simp add: syn_of_def)
  have other: "classify other_syn 5432 = Some other_key"
    by (simp add: other_syn_def other_key_def sample_key_def classify_def from_client_def)
  have data: "\<forall>seg \<in> set sample_segments. classify seg 5432 = Some sample_key" using sample_plain by (simp add: plain_segment_def)
  show "of_key 5432 sample_key two_segments = sample_syn Client # sample_syn Server # sample_segments"
    using data by (simp add: of_key_def two_segments_def syn other other_key_differs filter_id_conv)
  show "of_key 5432 other_key two_segments = [other_syn]"
    using data by (simp add: of_key_def two_segments_def syn other other_key_differs filter_empty_conv)
qed

lemma sample_talk_ok:
  assumes "k \<in> {sample_key, other_key}"
  shows "talk_decodes sample_capture k (sample_talk k) \<and> in_turn 5432 k (sample_talk k) (of_key 5432 k two_segments)"
proof (cases "k = sample_key")
  case True
  have "stream_segment 5432 sample_key (\<lambda>r. sample_isn r + 1) (\<lambda>r. concat (sample_cuts r)) seg" if "seg \<in> set sample_segments" for seg
    using that sample_plain sample_whole whole_segment_stream by blast
  then show ?thesis
    using True sample_streams sample_syn_ok
    by (simp add: talk_decodes_def sample_talk_def sample_of_key stream_segment_data) (simp add: sample_cuts_def)
next
  case False
  then have k: "k = other_key" using assms by simp
  have "streams_decode (fdec sample_capture) (bdec sample_capture) (cenv sample_capture)
      (\<lambda>r. direction_new (default_ctx sample_capture) r (ck_client other_key)) (\<lambda>r. []) (\<lambda>r. [])"
    unfolding streams_decode_def
    by (simp add: decoded_at_once_def drain_direction_def direction_new_def drain_loop.simps sample_capture_def negotiating_frontend_def
        negotiating_backend_def typed_decoder_def clear_ctx_def default_outcome_def start_capture_def quiet_io_def take_output_capture_def Let_def)
  then show ?thesis
    by (simp add: k talk_decodes_def sample_talk_def other_key_differs sample_of_key syn_of_def side_def)
      (simp add: other_syn_def other_key_def sample_key_def classify_def from_client_def)
qed

lemma sample_all_arrived: "all_arrived 5432 sample_key (sample_talk sample_key) r two_segments"
  unfolding all_arrived_def sample_of_key
  using sample_whole [of r]
  by (intro exI [of _ "sample_syn Client"] exI [of _ "sample_syn Server"] exI [of _ sample_segments] exI [of _ "sample_cuts r"])
    (simp add: sample_talk_def, simp add: sample_cuts_def)

lemma two_connections_ok:
  "decoder_stable (fdec sample_capture)" "decoder_stable (bdec sample_capture)" "inj_on ck_client {sample_key, other_key}"
  "\<forall>k \<in> {sample_key, other_key}. talk_decodes sample_capture k (sample_talk k) \<and> in_turn 5432 k (sample_talk k) (of_key 5432 k two_segments)"
  "\<forall>seg \<in> set two_segments. \<forall>k. classify seg 5432 = Some k \<longrightarrow> k \<in> {sample_key, other_key}"
proof -
  show "decoder_stable (fdec sample_capture)" "decoder_stable (bdec sample_capture)"
    by (simp_all add: sample_capture_def negotiating_stable)
  show "inj_on ck_client {sample_key, other_key}" by (simp add: inj_on_def other_key_differs sample_client_def)
  show "\<forall>k \<in> {sample_key, other_key}. talk_decodes sample_capture k (sample_talk k) \<and> in_turn 5432 k (sample_talk k) (of_key 5432 k two_segments)"
    using sample_talk_ok by blast
  show "\<forall>seg \<in> set two_segments. \<forall>k. classify seg 5432 = Some k \<longrightarrow> k \<in> {sample_key, other_key}"
    using sample_syn_ok sample_plain
    by (simp add: two_segments_def syn_of_def plain_segment_def) (simp add: other_syn_def other_key_def sample_key_def classify_def from_client_def)
qed


end
