(* ===== verification/Recorded_Capture.thy ===== *)
theory Recorded_Capture
  imports Program Capture_Path
begin

text \<open>
  A capture in line mode that is recorded (\<open>src/main.rs\<close>): the capture is the source of \<open>run_stdout\<close>, its records go through the
  channel to the consumer, which prints what the filter selects and stores all of them. The property of the whole is in \<open>Spec2Isabelle\<close>.
\<close>

subsection \<open>The capture as a source\<close>

text \<open>What was sent through the channel, and what \<open>capture::run\<close> returns; nothing while it waits for packets.\<close>

definition sent :: "io \<Rightarrow> output_record list" where
  "sent i = (case output_tx i of None \<Rightarrow> [] | Some rs \<Rightarrow> rs)"

fun returned :: "capture_end \<Rightarrow> io_result option" where
  "returned Waiting = None"
| "returned Ended = Some (Inr ())"
| "returned (Failed e) = Some (Inl e)"

definition capture_lines ::
    "('re, 'v) tui_env \<Rightarrow> 're display_filter \<Rightarrow> rstring option \<Rightarrow> 'c capture_env \<Rightarrow> pcap_lib \<Rightarrow> pcap_opts \<Rightarrow> metrics \<Rightarrow> io \<Rightarrow> world
      \<Rightarrow> (io_result \<times> printer \<times> world) option" where
  "capture_lines te f save ce lib opts m i w = do {
     (e, st) \<leftarrow> capture_main ce lib opts m (set_output i);
     res \<leftarrow> returned e;
     Some (run_stdout te f save (\<lambda>fs. (sent (fl_io st), res)) w) }"

text \<open>The device is found, opened with the link type \<open>dlt\<close> and filtered.\<close>

definition capture_opens :: "pcap_lib \<Rightarrow> pcap_opts \<Rightarrow> int \<Rightarrow> bool" where
  "capture_opens lib opts dlt \<longleftrightarrow> (\<exists>d. resolve_device lib (po_interface opts) = Inr d
     \<and> open_device lib d (\<not> po_no_promisc opts) (po_snaplen opts) = Inr dlt \<and> install_filter lib (port_filter (po_port opts)) = Inr ())"

lemma capture_main_loop:
  assumes "capture_opens lib opts dlt"
  shows "\<exists>i'. capture_main ce lib opts m i = capture_loop ce (po_port opts) dlt (next_packets lib) (conn_table_with_metrics m i') \<and> heard [] i i'"
proof -
  obtain d where d: "resolve_device lib (po_interface opts) = Inr d" "open_device lib d (\<not> po_no_promisc opts) (po_snaplen opts) = Inr dlt"
    "install_filter lib (port_filter (po_port opts)) = Inr ()"
    using assms unfolding capture_opens_def by blast
  let ?i = "status (lit ''tapgres: datalink type = '' @ show_int dlt @ lit '' ('' @ datalink_name dlt @ lit '')'') (capturing_status d (po_port opts) i)"
  have two: "heard [] i (status b (status a i))" for a b and i :: io
    using heard_append [OF heard_status heard_status] by simp
  have "heard [] i (capturing_status d (po_port opts) i)" unfolding capturing_status_def by (rule two)
  from heard_append [OF this heard_status] have "heard [] i ?i" by simp
  then show ?thesis by (intro exI [of _ ?i]) (simp add: capture_main_def d)
qed

lemma carries_ended:
  "carries dlt ps segs \<Longrightarrow> parsed_segments dlt (ps @ [NoMorePackets]) = segs \<and> end_of (ps @ [NoMorePackets]) = Ended"
  by (induction rule: carries.induct) (simp_all add: parse_frame_of)

text \<open>The records of a run are lines, statuses, and messages of what the connections say.\<close>

definition said_by :: "conn_key set \<Rightarrow> (conn_key \<Rightarrow> talk) \<Rightarrow> output_record \<Rightarrow> bool" where
  "said_by K T r \<longleftrightarrow> (case spoken r of None \<Rightarrow> True | Some y \<Rightarrow> \<exists>k \<in> K. \<exists>rl. y \<in> set (tk_said (T k) rl))"

lemma spoken_heard: "r \<in> set rs \<Longrightarrow> f r = Some y \<Longrightarrow> y \<in> set (List.map_filter f rs)"
  by (induction rs) (auto simp: map_filter_simps split: option.split)

lemma heard_said_by:
  assumes "\<forall>y \<in> set (List.map_filter spoken rs). \<exists>k \<in> K. fst y = ck_client k"
    and "\<forall>k \<in> K. \<forall>r. \<exists>rest. tk_said (T k) r = of_role r (of_client (ck_client k) (List.map_filter spoken rs)) @ rest \<and> P k r rest"
  shows "\<forall>r \<in> set rs. said_by K T r"
proof
  fix r assume r: "r \<in> set rs"
  show "said_by K T r"
  proof (cases "spoken r")
    case (Some y)
    have y: "y \<in> set (List.map_filter spoken rs)" by (rule spoken_heard [where f = spoken, OF r Some])
    then obtain k where k: "k \<in> K" "fst y = ck_client k" using assms(1) by blast
    obtain rl where "fst (snd y) = direction_of rl" by (cases "fst (snd y)") (metis direction_of.simps)+
    then have "y \<in> set (of_role rl (of_client (ck_client k) (List.map_filter spoken rs)))"
      using y k(2) by (simp add: of_role_def of_client_def)
    moreover obtain rest where "tk_said (T k) rl = of_role rl (of_client (ck_client k) (List.map_filter spoken rs)) @ rest"
      using assms(2) k(1) by blast
    ultimately have "y \<in> set (tk_said (T k) rl)" by simp
    then show ?thesis using k(1) Some by (auto simp: said_by_def)
  qed (simp add: said_by_def)
qed

text \<open>A capture of the frames \<open>ps\<close> to its end, and what it sends.\<close>

lemma capture_main_said:
  assumes "decoder_stable (fdec ce)" "decoder_stable (bdec ce)" "inj_on ck_client K"
    and "\<forall>k \<in> K. talk_decodes ce k (T k) \<and> in_turn (po_port opts) k (T k) (of_key (po_port opts) k segs)"
    and "\<forall>seg \<in> set segs. \<forall>k. classify seg (po_port opts) = Some k \<longrightarrow> k \<in> K"
    and "capture_opens lib opts dlt" "next_packets lib = ps @ [NoMorePackets]" "carries dlt ps segs" "capture i = None"
  shows "\<exists>st rs. capture_main ce lib opts m (set_output i) = Some (Ended, st) \<and> sent (fl_io st) = rs
    \<and> (\<forall>y \<in> set (List.map_filter spoken rs). \<exists>k \<in> K. fst y = ck_client k)
    \<and> (\<forall>k \<in> K. \<forall>r. \<exists>rest. tk_said (T k) r = of_role r (of_client (ck_client k) (List.map_filter spoken rs)) @ rest
         \<and> (all_arrived (po_port opts) k (T k) r segs \<longrightarrow> rest = []))"
proof -
  obtain i' where i': "capture_main ce lib opts m (set_output i)
      = capture_loop ce (po_port opts) dlt (next_packets lib) (conn_table_with_metrics m i')" "heard [] (set_output i) i'"
    using capture_main_loop [OF assms(6)] by blast
  obtain st ys where run: "capture_run ce (po_port opts) segs (conn_table_with_metrics m i') = Some st" "heard ys i' (fl_io st)"
    "\<forall>y \<in> set ys. \<exists>k \<in> K. fst y = ck_client k"
    "\<forall>k \<in> K. \<forall>r. \<exists>rest. tk_said (T k) r = of_role r (of_client (ck_client k) ys) @ rest \<and> (all_arrived (po_port opts) k (T k) r segs \<longrightarrow> rest = [])"
    using captured_said [OF assms(1-5), of m i'] by blast
  have "heard ys (set_output i) (fl_io st)" using heard_append [OF i'(2) run(2)] by simp
  then obtain rs where "output_tx (fl_io st) = Some rs" "List.map_filter spoken rs = ys"
    using heard_channel [of ys "set_output i" "fl_io st" "[]"] assms(9) by (auto simp: set_output_def)
  moreover have "capture_main ce lib opts m (set_output i) = Some (Ended, st)"
    using i'(1) run(1) carries_ended [OF assms(8)] by (simp add: assms(7) capture_loop_run)
  ultimately show ?thesis using run(3,4) by (intro exI [of _ st] exI [of _ rs]) (simp add: sent_def)
qed

text \<open>What the capture sends can be stored, whenever it is.\<close>

definition can_store :: "('re, 'v) tui_env \<Rightarrow> 'c capture_env \<Rightarrow> pcap_lib \<Rightarrow> pcap_opts \<Rightarrow> metrics \<Rightarrow> io \<Rightarrow> bool" where
  "can_store te ce lib opts m i \<longleftrightarrow>
     (\<forall>e st. capture_main ce lib opts m (set_output i) = Some (e, st) \<longrightarrow> (\<forall>r \<in> set (sent (fl_io st)). storable_any te r))"

subsection \<open>A storage library for the witness\<close>

text \<open>A line of storage: a tag, then the texts of the record, each behind its length, all shifted past the control characters.\<close>

definition shifted :: "rstring \<Rightarrow> rstring" where "shifted s = (length s + 100) # map ((+) 100) s"

fun unshifted :: "rstring \<Rightarrow> rstring \<times> rstring" where
  "unshifted [] = ([], [])"
| "unshifted (n # s) = (map (\<lambda>c. c - 100) (take (n - 100) s), drop (n - 100) s)"

lemma unshifted_shifted [simp]: "unshifted (shifted s @ t) = (s, t)"
  by (simp add: shifted_def comp_def)

fun pack :: "stored_record \<Rightarrow> rstring + rstring" where
  "pack r = (case payload r of
     StoredLine tx \<Rightarrow> Inr (76 # shifted (timestamp r) @ shifted tx)
   | StoredStatus tx \<Rightarrow> Inr (83 # shifted (timestamp r) @ shifted tx)
   | StoredMessage sm \<Rightarrow>
       (if sm_detail sm = None
        then Inr ((if sm_direction sm = F2b then 70 else 66) # shifted (timestamp r) @ shifted (sm_message_type sm) @ shifted (sm_text sm)
          @ shifted (sm_rendered sm) @ shifted (sm_client sm))
        else Inl (lit ''unsupported'')))"

definition unpack_message :: "stored_direction \<Rightarrow> rstring \<Rightarrow> stored_record" where
  "unpack_message d s =
     (let (at, s) = unshifted s; (ty, s) = unshifted s; (tx, s) = unshifted s; (ren, s) = unshifted s; (cl, s) = unshifted s
      in \<lparr> schema_version = SCHEMA_VERSION, timestamp = at, payload = StoredMessage \<lparr> sm_direction = d, sm_message_type = ty,
           sm_text = tx, sm_rendered = ren, sm_client = cl, sm_detail = None \<rparr> \<rparr>)"

definition unpack_text :: "(rstring \<Rightarrow> stored_payload) \<Rightarrow> rstring \<Rightarrow> stored_record" where
  "unpack_text f s = (let (at, s) = unshifted s; (tx, s) = unshifted s in \<lparr> schema_version = SCHEMA_VERSION, timestamp = at, payload = f tx \<rparr>)"

fun unpack :: "rstring \<Rightarrow> rstring + stored_record" where
  "unpack [] = Inl (lit ''expected value'')"
| "unpack (c # s) = (if c = 76 then Inr (unpack_text StoredLine s) else if c = 83 then Inr (unpack_text StoredStatus s)
     else if c = 70 then Inr (unpack_message F2b s) else if c = 66 then Inr (unpack_message B2f s) else Inl (lit ''expected value''))"

definition pack_serde :: "stored_record serde" where
  "pack_serde = \<lparr> encode_record = pack, value_of_line = unpack, version_number = (\<lambda>r. Some (schema_version r)), record_of_value = Inr,
     rfc3339 = (\<lambda>t. None), debug_string = (\<lambda>t. t) \<rparr>"

lemma packed_line:
  assumes "\<not> is_ws c" "c \<noteq> 10" "c \<noteq> 13" "\<forall>x \<in> set s. 100 \<le> x"
  shows "10 \<notin> set (c # s) \<and> trim (c # s) \<noteq> [] \<and> last (c # s) \<noteq> 13"
proof -
  have "trim (c # s) \<noteq> []" using assms(1) by (simp add: trim_def dropWhile_eq_Nil_conv)
  moreover have "last (c # s) = c \<or> 100 \<le> last (c # s)" using assms(4) by (cases s) auto
  ultimately show ?thesis using assms(2-4) by auto
qed

lemma shifted_large: "\<forall>x \<in> set (shifted s). 100 \<le> x"
  by (simp add: shifted_def)

lemma pack_storable:
  assumes "output_detail r = None"
  shows "storable pack_serde (at, r)"
proof -
  have tag: "\<not> is_ws c \<and> c \<noteq> 10 \<and> c \<noteq> 13" if "c \<in> {66, 70, 76, 83}" for c :: rchar
    using that by (auto simp: is_ws_def)
  have line: "10 \<notin> set (c # s) \<and> trim (c # s) \<noteq> [] \<and> last (c # s) \<noteq> 13" if "c \<in> {66, 70, 76, 83}" "\<forall>x \<in> set s. 100 \<le> x" for c s
    using packed_line [OF _ _ _ that(2), of c] tag [OF that(1)] by blast
  have large: "\<forall>x \<in> set (shifted a @ shifted b). 100 \<le> x" "\<forall>x \<in> set (shifted a @ shifted b @ shifted c @ shifted d @ shifted e). 100 \<le> x" for a b c d e
    using shifted_large by (simp_all add: ball_Un)
  have last_shifted [simp]: "unshifted (shifted s) = (s, [])" for s using unshifted_shifted [of s "[]"] by simp
  show ?thesis
  proof (cases r)
    case (Message m d)
    then show ?thesis
      using assms line [OF _ large(2)]
      by (cases "dm_direction m")
        (simp_all add: storable_def serde_ok_def pack_serde_def unpack_message_def SCHEMA_VERSION_def del: set_simps last.simps)
  next
    case (Line l)
    then show ?thesis
      using line [OF _ large(1), of 76]
      by (simp add: storable_def serde_ok_def pack_serde_def unpack_text_def SCHEMA_VERSION_def del: set_simps last.simps)
  next
    case (Status l)
    then show ?thesis
      using line [OF _ large(1), of 83]
      by (simp add: storable_def serde_ok_def pack_serde_def unpack_text_def SCHEMA_VERSION_def del: set_simps last.simps)
  qed
qed

text \<open>The sample capture on a loopback device that ends after the sample packets.\<close>

definition loopback :: device where
  "loopback = \<lparr> dev_name = lit ''lo'', is_loopback = True \<rparr>"

definition sample_pcap :: pcap_lib where
  "sample_pcap = \<lparr> device_list = Inr [loopback], device_from = (\<lambda>nm. loopback), open_device = (\<lambda>d promisc snaplen. Inr DLT_NULL),
     install_filter = (\<lambda>f. Inr ()), next_packets = sample_packets @ [NoMorePackets] \<rparr>"

definition sample_pcap_opts :: pcap_opts where
  "sample_pcap_opts = \<lparr> po_port = 5432, po_interface = None, po_no_promisc = False, po_snaplen = 65535 \<rparr>"

definition pack_env :: "(rstring, stored_record) tui_env" where
  "pack_env = \<lparr> build = Inr, is_match = (\<lambda>r s. r = s), storage = pack_serde, stamp = (\<lambda>n. show_nat n) \<rparr>"

lemma sample_pcap_ok:
  "capture_opens sample_pcap sample_pcap_opts DLT_NULL" "next_packets sample_pcap = sample_packets @ [NoMorePackets]" "po_port sample_pcap_opts = 5432"
  by (simp_all add: capture_opens_def sample_pcap_def sample_pcap_opts_def resolve_device_def loopback_def)

lemma sample_said_plain: "said_by {sample_key, other_key} sample_talk r \<Longrightarrow> output_detail r = None"
  by (cases r) (auto simp: said_by_def sample_talk_def sample_said_def split: if_splits)

end
