(* ===== verification/Tls_Material.thy ===== *)
theory Tls_Material
  imports Session Proxy
begin

text \<open>
  The TLS material of the proxy (\<open>src/proxy.rs\<close>, \<open>materialize_tls\<close> and what it calls): the certificates given by the user, or a
  certificate authority and a certificate for the local host that are generated once and kept in a directory.

  The parameter \<open>tls_lib\<close> holds what the crates do: \<open>rcgen\<close> makes keys and certificates and prints them as PEM, \<open>rustls_pemfile\<close>
  reads them, \<open>rustls\<close> builds a server's configuration. Keys are random: \<open>generate_key\<close> is given how many were made before. The
  disk with its faults is that of the session files.
\<close>

subsection \<open>The world of a start\<close>

record tls_world =
  tw_disk :: disk
  tw_keys :: nat
  tw_io :: io

text \<open>An operation that may fail, and the \<open>?\<close> of the source.\<close>

type_synonym 'a op = "tls_world \<Rightarrow> (rstring + 'a) \<times> tls_world"

definition pure_op :: "rstring + 'a \<Rightarrow> 'a op" where
  "pure_op r = (\<lambda>w. (r, w))"

definition try_op :: "'a op \<Rightarrow> ('a \<Rightarrow> 'b op) \<Rightarrow> 'b op" where
  "try_op a k = (\<lambda>w. case a w of (Inl e, w) \<Rightarrow> (Inl e, w) | (Inr x, w) \<Rightarrow> k x w)"

definition say_op :: "rstring \<Rightarrow> unit op" where
  "say_op line = (\<lambda>w. (Inr (), w\<lparr> tw_io := status line (tw_io w) \<rparr>))"

text \<open>\<open>fs::write\<close>: the file is created or truncated, then the text is written.\<close>

definition write_op :: "rstring \<Rightarrow> rstring \<Rightarrow> unit op" where
  "write_op p s = (\<lambda>w. case create_fault (tw_disk w) p of
     Some e \<Rightarrow> (Inl e, w)
   | None \<Rightarrow> (case append_text p s (put_file p [] (tw_disk w)) of (r, fs) \<Rightarrow> (r, w\<lparr> tw_disk := fs \<rparr>)))"

definition read_op :: "rstring \<Rightarrow> rstring op" where
  "read_op p = (\<lambda>w. (case open_fault (tw_disk w) p of
     Some e \<Rightarrow> Inl e
   | None \<Rightarrow> (case files (tw_disk w) p of
       None \<Rightarrow> Inl (missing_error (tw_disk w))
     | Some s \<Rightarrow> (case read_fault (tw_disk w) p 0 of Some e \<Rightarrow> Inl e | None \<Rightarrow> Inr s)), w))"

subsection \<open>Certificates and keys\<close>

datatype is_ca = NoCa | Unconstrained
datatype key_usage = KeyCertSign

record cert_params =
  cp_names :: "rstring list"
  cp_common_name :: "rstring option"
  cp_is_ca :: is_ca
  cp_key_usages :: "key_usage list"

text \<open>\<open>'p\<close> are the key pairs and \<open>'c\<close> the certificates of rcgen, \<open>'d\<close> and \<open>'k\<close> the certificates and keys read from PEM, and
  \<open>'s\<close> the configurations of a server.\<close>

record ('p, 'c, 'd, 'k, 's) tls_lib =
  params_new :: "rstring list \<Rightarrow> rstring + cert_params"
  generate_key :: "nat \<Rightarrow> rstring + 'p"
  self_signed :: "cert_params \<Rightarrow> 'p \<Rightarrow> rstring + 'c"
  signed_by :: "cert_params \<Rightarrow> 'p \<Rightarrow> cert_params \<times> 'p \<Rightarrow> rstring + 'c"
  cert_pem :: "'c \<Rightarrow> rstring"
  key_pem :: "'p \<Rightarrow> rstring"
  pem_certs :: "rstring \<Rightarrow> rstring + 'd list"
  pem_key :: "rstring \<Rightarrow> rstring + 'k option"
  single_cert :: "'d list \<Rightarrow> 'k \<Rightarrow> rstring + 's"
  create_dir_all :: "rstring \<Rightarrow> rstring + unit"
  in_dir :: "rstring \<Rightarrow> rstring \<Rightarrow> rstring"

definition new_key :: "('p, 'c, 'd, 'k, 's) tls_lib \<Rightarrow> 'p op" where
  "new_key lib = (\<lambda>w. (generate_key lib (tw_keys w), w\<lparr> tw_keys := Suc (tw_keys w) \<rparr>))"

definition ca_params_of :: "cert_params \<Rightarrow> cert_params" where
  "ca_params_of p = p\<lparr> cp_common_name := Some (lit ''tapgres CA''), cp_is_ca := Unconstrained, cp_key_usages := [KeyCertSign] \<rparr>"

definition leaf_params_of :: "cert_params \<Rightarrow> cert_params" where
  "leaf_params_of p = p\<lparr> cp_common_name := Some (lit ''tapgres'') \<rparr>"

definition leaf_names :: "rstring list" where
  "leaf_names = [lit ''localhost'', lit ''127.0.0.1'', lit ''::1'']"

definition generate_ca_and_leaf :: "('p, 'c, 'd, 'k, 's) tls_lib \<Rightarrow> rstring \<Rightarrow> unit op" where
  "generate_ca_and_leaf lib dir =
     try_op (pure_op (params_new lib [])) (\<lambda>p. let ca_params = ca_params_of p in
     try_op (new_key lib) (\<lambda>ca_key.
     try_op (pure_op (self_signed lib ca_params ca_key)) (\<lambda>ca_cert.
     try_op (write_op (in_dir lib dir (lit ''ca.crt'')) (cert_pem lib ca_cert)) (\<lambda>_.
     try_op (write_op (in_dir lib dir (lit ''ca.key'')) (key_pem lib ca_key)) (\<lambda>_. let ca_issuer = (ca_params, ca_key) in
     try_op (pure_op (params_new lib leaf_names)) (\<lambda>p. let leaf_params = leaf_params_of p in
     try_op (new_key lib) (\<lambda>leaf_key.
     try_op (pure_op (signed_by lib leaf_params leaf_key ca_issuer)) (\<lambda>leaf_cert.
     try_op (write_op (in_dir lib dir (lit ''server.crt'')) (cert_pem lib leaf_cert)) (\<lambda>_.
     write_op (in_dir lib dir (lit ''server.key'')) (key_pem lib leaf_key))))))))))"

definition load_pem_certs :: "('p, 'c, 'd, 'k, 's) tls_lib \<Rightarrow> rstring \<Rightarrow> 'd list op" where
  "load_pem_certs lib path =
     try_op (read_op path) (\<lambda>s. pure_op (case pem_certs lib s of
       Inl e \<Rightarrow> Inl e
     | Inr certs \<Rightarrow> if certs = [] then Inl (lit ''no certificates found in '' @ path) else Inr certs))"

definition load_pem_key :: "('p, 'c, 'd, 'k, 's) tls_lib \<Rightarrow> rstring \<Rightarrow> 'k op" where
  "load_pem_key lib path =
     try_op (read_op path) (\<lambda>s. pure_op (case pem_key lib s of
       Inl e \<Rightarrow> Inl e
     | Inr None \<Rightarrow> Inl (lit ''no private key found in '' @ path)
     | Inr (Some key) \<Rightarrow> Inr key))"

subsection \<open>The verifier of the upstream leg\<close>

text \<open>It accepts whatever the server presents, under the schemes it lists.\<close>

datatype signature_scheme =
    ECDSA_NISTP256_SHA256 | ECDSA_NISTP384_SHA384 | ED25519 | RSA_PSS_SHA256 | RSA_PSS_SHA384 | RSA_PSS_SHA512
  | RSA_PKCS1_SHA256 | RSA_PKCS1_SHA384 | RSA_PKCS1_SHA512

datatype cert_verifier = NoVerifier

definition verify_server_cert :: "cert_verifier \<Rightarrow> 'd \<Rightarrow> 'd list \<Rightarrow> rstring \<Rightarrow> u8 list \<Rightarrow> nat \<Rightarrow> rstring + unit" where
  "verify_server_cert v end_entity intermediates server_name ocsp_response at = Inr ()"

definition verify_tls12_signature :: "cert_verifier \<Rightarrow> u8 list \<Rightarrow> 'd \<Rightarrow> 'sig \<Rightarrow> rstring + unit" where
  "verify_tls12_signature v message cert dss = Inr ()"

definition verify_tls13_signature :: "cert_verifier \<Rightarrow> u8 list \<Rightarrow> 'd \<Rightarrow> 'sig \<Rightarrow> rstring + unit" where
  "verify_tls13_signature v message cert dss = Inr ()"

definition supported_verify_schemes :: "cert_verifier \<Rightarrow> signature_scheme list" where
  "supported_verify_schemes v =
     [ECDSA_NISTP256_SHA256, ECDSA_NISTP384_SHA384, ED25519, RSA_PSS_SHA256, RSA_PSS_SHA384, RSA_PSS_SHA512,
      RSA_PKCS1_SHA256, RSA_PKCS1_SHA384, RSA_PKCS1_SHA512]"

text \<open>\<open>ClientConfig\<close>: the verifier, and no certificate of its own.\<close>

record client_config =
  cc_verifier :: cert_verifier
  cc_client_auth :: bool

definition upstream_client_config :: client_config where
  "upstream_client_config = \<lparr> cc_verifier = NoVerifier, cc_client_auth = False \<rparr>"

subsection \<open>The material\<close>

record 's tls_material =
  tm_server_config :: 's
  tm_upstream_client_config :: client_config
  tm_ca_cert_path :: "rstring option"

text \<open>The three files are there or are generated, all of them together.\<close>

definition ensure_generated :: "('p, 'c, 'd, 'k, 's) tls_lib \<Rightarrow> rstring \<Rightarrow> unit op" where
  "ensure_generated lib dir = (\<lambda>w.
     if files (tw_disk w) (in_dir lib dir (lit ''ca.crt'')) \<noteq> None \<and> files (tw_disk w) (in_dir lib dir (lit ''server.crt'')) \<noteq> None
        \<and> files (tw_disk w) (in_dir lib dir (lit ''server.key'')) \<noteq> None
     then (Inr (), w)
     else try_op (pure_op (create_dir_all lib dir)) (\<lambda>_.
          try_op (generate_ca_and_leaf lib dir) (\<lambda>_.
          say_op (lit ''tapgres: generated CA + server certificate in '' @ dir))) w)"

definition load_material ::
    "('p, 'c, 'd, 'k, 's) tls_lib \<Rightarrow> rstring \<Rightarrow> rstring \<Rightarrow> rstring option \<Rightarrow> 's tls_material op" where
  "load_material lib cert key ca_path =
     try_op (load_pem_certs lib cert) (\<lambda>certs.
     try_op (load_pem_key lib key) (\<lambda>key.
     try_op (pure_op (single_cert lib certs key)) (\<lambda>config.
     pure_op (Inr \<lparr> tm_server_config = config, tm_upstream_client_config = upstream_client_config, tm_ca_cert_path = ca_path \<rparr>))))"

definition materialize_tls :: "('p, 'c, 'd, 'k, 's) tls_lib \<Rightarrow> proxy_opts \<Rightarrow> 's tls_material op" where
  "materialize_tls lib opts =
     (case (px_tls_cert opts, px_tls_key opts) of
        (Some cert, Some key) \<Rightarrow> load_material lib cert key None
      | (None, None) \<Rightarrow>
          (let dir = px_tls_dir opts in
           try_op (ensure_generated lib dir) (\<lambda>_.
           load_material lib (in_dir lib dir (lit ''server.crt'')) (in_dir lib dir (lit ''server.key''))
             (Some (in_dir lib dir (lit ''ca.crt'')))))
      | _ \<Rightarrow> pure_op (Inl (lit ''--tls-cert and --tls-key must be given together'')))"

subsection \<open>Chains of operations\<close>

named_theorems op_returns \<open>when an operation succeeds, and what it leaves\<close>

lemma pure_op_returns [op_returns]: "pure_op r w = (Inr x, w') \<longleftrightarrow> r = Inr x \<and> w' = w"
  by (auto simp: pure_op_def)

lemma try_op_returns [op_returns]: "try_op a k w = (Inr x, w') \<longleftrightarrow> (\<exists>y v. a w = (Inr y, v) \<and> k y v = (Inr x, w'))"
  by (auto simp: try_op_def split: prod.split sum.split)

lemma read_op_returns [op_returns]:
  "read_op p w = (Inr s, w') \<longleftrightarrow> w' = w \<and> files (tw_disk w) p = Some s \<and> open_fault (tw_disk w) p = None \<and> read_fault (tw_disk w) p 0 = None"
  by (auto simp: read_op_def split: option.split)

lemma new_key_returns [op_returns]:
  "new_key lib w = (Inr k, w') \<longleftrightarrow> generate_key lib (tw_keys w) = Inr k \<and> w' = w\<lparr> tw_keys := Suc (tw_keys w) \<rparr>"
  by (auto simp: new_key_def)

lemma say_op_returns [op_returns]: "say_op l w = (Inr u, w') \<longleftrightarrow> w' = w\<lparr> tw_io := status l (tw_io w) \<rparr>"
  by (auto simp: say_op_def)

lemma write_op_returns [op_returns]:
  "write_op p s w = (Inr u, w') \<longleftrightarrow> create_fault (tw_disk w) p = None \<and> write_fault (tw_disk w) p [] s = None
     \<and> w' = w\<lparr> tw_disk := put_file p s (tw_disk w) \<rparr>"
  by (auto simp: write_op_def append_text_def split: option.split)

lemma Let_op_returns [op_returns]: "(let y = v in f y) w = (Inr x, w') \<longleftrightarrow> f v w = (Inr x, w')"
  by simp

lemma load_material_keeps: "load_material lib cert key ca w = (Inr tm, w') \<Longrightarrow> w' = w"
  by (auto simp: load_material_def load_pem_certs_def load_pem_key_def op_returns)

lemma load_material_world: "snd (load_material lib cert key ca w) = w"
  by (auto simp: load_material_def load_pem_certs_def load_pem_key_def try_op_def pure_op_def read_op_def split: prod.split sum.split option.split)

text \<open>The files of the directory.\<close>

definition ca_file :: "('p, 'c, 'd, 'k, 's) tls_lib \<Rightarrow> rstring \<Rightarrow> rstring" where "ca_file lib dir = in_dir lib dir (lit ''ca.crt'')"
definition ca_key_file :: "('p, 'c, 'd, 'k, 's) tls_lib \<Rightarrow> rstring \<Rightarrow> rstring" where "ca_key_file lib dir = in_dir lib dir (lit ''ca.key'')"
definition leaf_file :: "('p, 'c, 'd, 'k, 's) tls_lib \<Rightarrow> rstring \<Rightarrow> rstring" where "leaf_file lib dir = in_dir lib dir (lit ''server.crt'')"
definition leaf_key_file :: "('p, 'c, 'd, 'k, 's) tls_lib \<Rightarrow> rstring \<Rightarrow> rstring" where "leaf_key_file lib dir = in_dir lib dir (lit ''server.key'')"

lemma files_distinct:
  assumes "inj (in_dir lib dir)"
  shows "ca_file lib dir \<noteq> ca_key_file lib dir" "ca_file lib dir \<noteq> leaf_file lib dir" "ca_file lib dir \<noteq> leaf_key_file lib dir"
    "ca_key_file lib dir \<noteq> leaf_file lib dir" "ca_key_file lib dir \<noteq> leaf_key_file lib dir" "leaf_file lib dir \<noteq> leaf_key_file lib dir"
    "ca_key_file lib dir \<noteq> ca_file lib dir" "leaf_file lib dir \<noteq> ca_file lib dir" "leaf_key_file lib dir \<noteq> ca_file lib dir"
    "leaf_file lib dir \<noteq> ca_key_file lib dir" "leaf_key_file lib dir \<noteq> ca_key_file lib dir" "leaf_key_file lib dir \<noteq> leaf_file lib dir"
proof -
  have inj: "in_dir lib dir a = in_dir lib dir b \<longleftrightarrow> a = b" for a b using assms by (auto dest: injD)
  show "ca_file lib dir \<noteq> ca_key_file lib dir" "ca_file lib dir \<noteq> leaf_file lib dir" "ca_file lib dir \<noteq> leaf_key_file lib dir"
    "ca_key_file lib dir \<noteq> leaf_file lib dir" "ca_key_file lib dir \<noteq> leaf_key_file lib dir" "leaf_file lib dir \<noteq> leaf_key_file lib dir"
    "ca_key_file lib dir \<noteq> ca_file lib dir" "leaf_file lib dir \<noteq> ca_file lib dir" "leaf_key_file lib dir \<noteq> ca_file lib dir"
    "leaf_file lib dir \<noteq> ca_key_file lib dir" "leaf_key_file lib dir \<noteq> ca_key_file lib dir" "leaf_key_file lib dir \<noteq> leaf_file lib dir"
    by (simp_all add: ca_file_def ca_key_file_def leaf_file_def leaf_key_file_def inj lit_def)
qed

definition material_present :: "('p, 'c, 'd, 'k, 's) tls_lib \<Rightarrow> rstring \<Rightarrow> disk \<Rightarrow> bool" where
  "material_present lib dir fs \<longleftrightarrow> files fs (ca_file lib dir) \<noteq> None \<and> files fs (leaf_file lib dir) \<noteq> None \<and> files fs (leaf_key_file lib dir) \<noteq> None"

lemma ensure_generated_present: "material_present lib dir (tw_disk w) \<Longrightarrow> ensure_generated lib dir w = (Inr (), w)"
  by (simp add: ensure_generated_def material_present_def ca_file_def leaf_file_def leaf_key_file_def)

text \<open>What a generation that succeeds leaves: an authority and a certificate for the local host that it signed, with their keys.\<close>

definition generated ::
    "('p, 'c, 'd, 'k, 's) tls_lib \<Rightarrow> rstring \<Rightarrow> nat \<Rightarrow> 'c \<Rightarrow> 'p \<Rightarrow> 'c \<Rightarrow> 'p \<Rightarrow> bool" where
  "generated lib dir n ca_cert ca_key leaf_cert leaf_key \<longleftrightarrow> (\<exists>p q. params_new lib [] = Inr p \<and> params_new lib leaf_names = Inr q
     \<and> generate_key lib n = Inr ca_key \<and> generate_key lib (Suc n) = Inr leaf_key
     \<and> self_signed lib (ca_params_of p) ca_key = Inr ca_cert
     \<and> signed_by lib (leaf_params_of q) leaf_key (ca_params_of p, ca_key) = Inr leaf_cert)"

lemma generate_ca_and_leaf_returns:
  assumes "generate_ca_and_leaf lib dir w = (Inr u, w')"
  shows "\<exists>ca_cert ca_key leaf_cert leaf_key. generated lib dir (tw_keys w) ca_cert ca_key leaf_cert leaf_key
    \<and> tw_disk w' = put_file (leaf_key_file lib dir) (key_pem lib leaf_key) (put_file (leaf_file lib dir) (cert_pem lib leaf_cert)
        (put_file (ca_key_file lib dir) (key_pem lib ca_key) (put_file (ca_file lib dir) (cert_pem lib ca_cert) (tw_disk w))))
    \<and> tw_io w' = tw_io w"
proof -
  obtain p ca_key ca_cert q leaf_key leaf_cert where
    "params_new lib [] = Inr p" "params_new lib leaf_names = Inr q"
    "generate_key lib (tw_keys w) = Inr ca_key" "generate_key lib (Suc (tw_keys w)) = Inr leaf_key"
    "self_signed lib (ca_params_of p) ca_key = Inr ca_cert"
    "signed_by lib (leaf_params_of q) leaf_key (ca_params_of p, ca_key) = Inr leaf_cert"
    and w': "w' = w\<lparr> tw_keys := Suc (Suc (tw_keys w)), tw_disk := put_file (leaf_key_file lib dir) (key_pem lib leaf_key)
      (put_file (leaf_file lib dir) (cert_pem lib leaf_cert) (put_file (ca_key_file lib dir) (key_pem lib ca_key)
        (put_file (ca_file lib dir) (cert_pem lib ca_cert) (tw_disk w)))) \<rparr>"
    using assms by (auto simp: generate_ca_and_leaf_def op_returns ca_file_def ca_key_file_def leaf_file_def leaf_key_file_def)
  then have "generated lib dir (tw_keys w) ca_cert ca_key leaf_cert leaf_key" unfolding generated_def by blast
  then show ?thesis
    using w' by (intro exI [of _ ca_cert] exI [of _ ca_key] exI [of _ leaf_cert] exI [of _ leaf_key]) simp
qed

lemma ensure_generated_returns:
  assumes "ensure_generated lib dir w = (Inr u, w')"
  shows "material_present lib dir (tw_disk w')"
proof (cases "material_present lib dir (tw_disk w)")
  case True
  then show ?thesis using assms ensure_generated_present [OF True] by simp
next
  case False
  then have "try_op (pure_op (create_dir_all lib dir)) (\<lambda>_. try_op (generate_ca_and_leaf lib dir) (\<lambda>_.
      say_op (lit ''tapgres: generated CA + server certificate in '' @ dir))) w = (Inr u, w')"
    using assms by (simp add: ensure_generated_def material_present_def ca_file_def leaf_file_def leaf_key_file_def split: if_splits)
  then obtain v where "generate_ca_and_leaf lib dir w = (Inr (), v)" "tw_disk w' = tw_disk v"
    by (auto simp: op_returns)
  then show ?thesis
    using generate_ca_and_leaf_returns [of lib dir w "()" v] by (auto simp: material_present_def put_file_def)
qed

subsection \<open>Properties\<close>

text \<open>C38. The certificate authority is stable: once a start of the proxy has its material, a second one on the disk it left has the
  same material and the same authority for the clients to trust, makes no key, writes no file and says nothing.\<close>

theorem second_start_reuses_material:
  assumes "materialize_tls lib opts w = (Inr tm, w')"
  shows "materialize_tls lib opts w' = (Inr tm, w')"
proof (cases "px_tls_cert opts = None \<and> px_tls_key opts = None")
  case True
  then obtain v where v: "ensure_generated lib (px_tls_dir opts) w = (Inr (), v)"
    "load_material lib (leaf_file lib (px_tls_dir opts)) (leaf_key_file lib (px_tls_dir opts)) (Some (ca_file lib (px_tls_dir opts))) v = (Inr tm, w')"
    using assms by (auto simp: materialize_tls_def op_returns ca_file_def leaf_file_def leaf_key_file_def)
  have "w' = v" using load_material_keeps [OF v(2)] .
  then show ?thesis
    using v(2) True ensure_generated_present [OF ensure_generated_returns [OF v(1)]]
    by (simp add: materialize_tls_def Let_def try_op_def ca_file_def leaf_file_def leaf_key_file_def)
next
  case False
  then obtain cert key where "px_tls_cert opts = Some cert" "px_tls_key opts = Some key" "load_material lib cert key None w = (Inr tm, w')"
    using assms by (auto simp: materialize_tls_def op_returns split: option.splits)
  then show ?thesis using load_material_keeps [of lib cert key None w tm w'] by (simp add: materialize_tls_def)
qed

text \<open>What a first start presents is backed by the authority it tells the clients to install: on a disk without the material the
  certificate of the server is for the local host and signed by the authority in the directory, with the key beside it, and the
  configuration is read back from these files.\<close>

theorem first_start_chain:
  assumes "px_tls_cert opts = None" "px_tls_key opts = None" "\<not> material_present lib dir (tw_disk w)" "dir = px_tls_dir opts"
    and "inj (in_dir lib dir)"
    and "materialize_tls lib opts w = (Inr tm, w')"
  shows "\<exists>ca_cert ca_key leaf_cert leaf_key certs key. generated lib dir (tw_keys w) ca_cert ca_key leaf_cert leaf_key
    \<and> files (tw_disk w') (ca_file lib dir) = Some (cert_pem lib ca_cert) \<and> files (tw_disk w') (leaf_file lib dir) = Some (cert_pem lib leaf_cert)
    \<and> files (tw_disk w') (leaf_key_file lib dir) = Some (key_pem lib leaf_key)
    \<and> tm_ca_cert_path tm = Some (ca_file lib dir)
    \<and> pem_certs lib (cert_pem lib leaf_cert) = Inr certs \<and> pem_key lib (key_pem lib leaf_key) = Inr (Some key)
    \<and> single_cert lib certs key = Inr (tm_server_config tm)"
proof -
  note names = ca_file_def ca_key_file_def leaf_file_def leaf_key_file_def
  have distinct: "ca_file lib dir \<noteq> ca_key_file lib dir" "ca_file lib dir \<noteq> leaf_file lib dir" "ca_file lib dir \<noteq> leaf_key_file lib dir"
    "leaf_file lib dir \<noteq> leaf_key_file lib dir"
    by (simp_all add: files_distinct [OF assms(5)])
  obtain u where u: "generate_ca_and_leaf lib dir w = (Inr (), u)" "tw_disk w' = tw_disk u"
    and load: "load_material lib (leaf_file lib dir) (leaf_key_file lib dir) (Some (ca_file lib dir)) w' = (Inr tm, w')"
    using assms(1-4,6) load_material_keeps
    by (fastforce simp: materialize_tls_def ensure_generated_def material_present_def names [symmetric] op_returns)
  obtain ca_cert ca_key leaf_cert leaf_key where g: "generated lib dir (tw_keys w) ca_cert ca_key leaf_cert leaf_key"
    "tw_disk u = put_file (leaf_key_file lib dir) (key_pem lib leaf_key) (put_file (leaf_file lib dir) (cert_pem lib leaf_cert)
        (put_file (ca_key_file lib dir) (key_pem lib ca_key) (put_file (ca_file lib dir) (cert_pem lib ca_cert) (tw_disk w))))"
    using generate_ca_and_leaf_returns [OF u(1)] by blast
  have fs: "files (tw_disk w') (ca_file lib dir) = Some (cert_pem lib ca_cert)" "files (tw_disk w') (leaf_file lib dir) = Some (cert_pem lib leaf_cert)"
    "files (tw_disk w') (leaf_key_file lib dir) = Some (key_pem lib leaf_key)"
    using distinct by (simp_all add: u(2) g(2) put_file_def)
  moreover have "tm_ca_cert_path tm = Some (ca_file lib dir) \<and> (\<exists>certs key. pem_certs lib (cert_pem lib leaf_cert) = Inr certs
      \<and> pem_key lib (key_pem lib leaf_key) = Inr (Some key) \<and> single_cert lib certs key = Inr (tm_server_config tm))"
    using load fs by (auto simp: load_material_def load_pem_certs_def load_pem_key_def op_returns split: sum.splits option.splits if_splits)
  ultimately show ?thesis using g(1) by blast
qed

text \<open>C39. A generation that is cut short is never repaired: when the disk gives out while the key of the server is written, the start
  fails with that error, and because the three files are there every later start on that disk leaves it as it is and fails too.\<close>

theorem interrupted_generation_is_kept:
  assumes "px_tls_cert opts = None" "px_tls_key opts = None" "dir = px_tls_dir opts" "create_dir_all lib dir = Inr ()"
    and "inj (in_dir lib dir)"
    and "\<not> material_present lib dir (tw_disk w)" "generated lib dir (tw_keys w) ca_cert ca_key leaf_cert leaf_key"
    and "\<forall>p \<in> {ca_file lib dir, ca_key_file lib dir, leaf_file lib dir}. create_fault (tw_disk w) p = None \<and> (\<forall>s. write_fault (tw_disk w) p [] s = None)"
    and "create_fault (tw_disk w) (leaf_key_file lib dir) = None"
    and "write_fault (tw_disk w) (leaf_key_file lib dir) [] (key_pem lib leaf_key) = Some (e, left)" "pem_key lib left = Inr None"
    and "pem_certs lib (cert_pem lib leaf_cert) = Inr certs" "certs \<noteq> []"
  shows "\<exists>w'. materialize_tls lib opts w = (Inl e, w')
    \<and> (\<forall>v. files (tw_disk v) = files (tw_disk w') \<and> (\<forall>p. open_fault (tw_disk v) p = None \<and> read_fault (tw_disk v) p 0 = None)
        \<longrightarrow> materialize_tls lib opts v = (Inl (lit ''no private key found in '' @ leaf_key_file lib dir), v))"
proof -
  note names = ca_file_def ca_key_file_def leaf_file_def leaf_key_file_def
  obtain p q where g: "params_new lib [] = Inr p" "params_new lib leaf_names = Inr q"
    "generate_key lib (tw_keys w) = Inr ca_key" "generate_key lib (Suc (tw_keys w)) = Inr leaf_key"
    "self_signed lib (ca_params_of p) ca_key = Inr ca_cert" "signed_by lib (leaf_params_of q) leaf_key (ca_params_of p, ca_key) = Inr leaf_cert"
    using assms(7) by (auto simp: generated_def)
  define fs where "fs = put_file (leaf_key_file lib dir) left (put_file (leaf_file lib dir) (cert_pem lib leaf_cert)
    (put_file (ca_key_file lib dir) (key_pem lib ca_key) (put_file (ca_file lib dir) (cert_pem lib ca_cert) (tw_disk w))))"
  let ?w = "w\<lparr> tw_keys := Suc (Suc (tw_keys w)), tw_disk := fs \<rparr>"
  have step: "write_op p s v = (Inr (), v\<lparr> tw_disk := put_file p s (tw_disk v) \<rparr>)"
    if "create_fault (tw_disk v) p = None" "write_fault (tw_disk v) p [] s = None" for p s v
    using that by (simp add: write_op_def append_text_def)
  have cut: "write_op p s v = (Inl e, v\<lparr> tw_disk := put_file p left (tw_disk v) \<rparr>)"
    if "create_fault (tw_disk v) p = None" "write_fault (tw_disk v) p [] s = Some (e, left)" for p s v
    using that by (simp add: write_op_def append_text_def)
  have "generate_ca_and_leaf lib dir w = (Inl e, ?w)"
    unfolding generate_ca_and_leaf_def names [symmetric]
    using assms(8-10) by (simp add: try_op_def pure_op_def new_key_def g step cut fs_def Let_def)
  then have gen: "materialize_tls lib opts w = (Inl e, ?w)"
    using assms(1-4,6) by (auto simp: materialize_tls_def Let_def ensure_generated_def material_present_def names [symmetric] try_op_def pure_op_def)
  have fs: "files fs (leaf_file lib dir) = Some (cert_pem lib leaf_cert)" "files fs (leaf_key_file lib dir) = Some left"
    "files fs (ca_file lib dir) = Some (cert_pem lib ca_cert)"
    using files_distinct [OF assms(5)] by (auto simp: fs_def)
  have "materialize_tls lib opts v = (Inl (lit ''no private key found in '' @ leaf_key_file lib dir), v)"
    if "files (tw_disk v) = files fs" "\<forall>p. open_fault (tw_disk v) p = None \<and> read_fault (tw_disk v) p 0 = None" for v
  proof -
    have "ensure_generated lib dir v = (Inr (), v)"
      using fs that by (intro ensure_generated_present) (simp add: material_present_def)
    then show ?thesis
      using assms(1-3,11-13) fs that
      by (simp add: materialize_tls_def Let_def load_material_def load_pem_certs_def load_pem_key_def read_op_def try_op_def pure_op_def names [symmetric])
  qed
  then show ?thesis using gen by (intro exI [of _ ?w]) simp
qed

subsection \<open>A concrete library\<close>

text \<open>Keys are numbers, a certificate is the number of its key with the number of the key that signed it, and PEM is a tag with the
  numbers.\<close>

definition sample_lib :: "(nat, nat \<times> nat, nat \<times> nat, nat, nat \<times> nat) tls_lib" where
  "sample_lib = \<lparr> params_new = (\<lambda>ns. Inr \<lparr> cp_names = ns, cp_common_name = None, cp_is_ca = NoCa, cp_key_usages = [] \<rparr>),
     generate_key = (\<lambda>n. Inr n), self_signed = (\<lambda>p k. Inr (k, k)), signed_by = (\<lambda>p k i. Inr (k, snd i)),
     cert_pem = (\<lambda>c. 67 # replicate (fst c) 49 @ [44] @ replicate (snd c) 49), key_pem = (\<lambda>k. 75 # replicate k 49),
     pem_certs = (\<lambda>s. case s of [] \<Rightarrow> Inr [] | c # r \<Rightarrow> Inr (if c = 67
       then [(length (takeWhile (\<lambda>c. c = 49) r), length (filter (\<lambda>c. c = 49) (dropWhile (\<lambda>c. c = 49) r)))] else [])),
     pem_key = (\<lambda>s. case s of [] \<Rightarrow> Inr None | c # r \<Rightarrow> Inr (if c = 75 then Some (length r) else None)),
     single_cert = (\<lambda>cs k. case cs of [] \<Rightarrow> Inl (lit ''empty'') | c # _ \<Rightarrow> Inr (k, snd c)),
     create_dir_all = (\<lambda>d. Inr ()), in_dir = (\<lambda>d n. d @ 47 # n) \<rparr>"

definition sample_tls_opts :: proxy_opts where
  "sample_tls_opts = \<lparr> px_listen = lit '':5433'', px_upstream = lit '':5432'', px_tls_dir = lit ''d'', px_tls_cert = None, px_tls_key = None,
     px_no_upstream_tls = False \<rparr>"

definition sample_tls_world :: "disk \<Rightarrow> tls_world" where
  "sample_tls_world fs = \<lparr> tw_disk = fs, tw_keys = 0, tw_io = quiet_io \<rparr>"

lemma sample_dir: "inj (in_dir sample_lib d)"
  by (simp add: sample_lib_def inj_def)

definition full_disk :: disk where
  "full_disk = sample_disk\<lparr> write_fault := (\<lambda>p t s. if p = leaf_key_file sample_lib (lit ''d'') then Some (lit ''No space left on device'', []) else None) \<rparr>"

lemma sample_generated: "generated sample_lib d 0 (0, 0) 0 (1, 0) 1"
  by (simp add: generated_def sample_lib_def)

lemma sample_start:
  "materialize_tls sample_lib sample_tls_opts (sample_tls_world sample_disk)
     = (Inr \<lparr> tm_server_config = (1, 0), tm_upstream_client_config = upstream_client_config, tm_ca_cert_path = Some (lit ''d/ca.crt'') \<rparr>, snd (materialize_tls sample_lib sample_tls_opts (sample_tls_world sample_disk)))"
proof -
  have "fst (materialize_tls sample_lib sample_tls_opts (sample_tls_world sample_disk)) = Inr \<lparr> tm_server_config = (1, 0), tm_upstream_client_config = upstream_client_config, tm_ca_cert_path = Some (lit ''d/ca.crt'') \<rparr>"
    by code_simp
  then show ?thesis by (metis prod.collapse)
qed

theorem second_start_reuses_material_witness:
  "\<exists>tm w'. materialize_tls sample_lib sample_tls_opts (sample_tls_world sample_disk) = (Inr tm, w')
     \<and> materialize_tls sample_lib sample_tls_opts w' = (Inr tm, w') \<and> tw_keys w' = 2"
proof -
  have "tw_keys (snd (materialize_tls sample_lib sample_tls_opts (sample_tls_world sample_disk))) = 2" by code_simp
  then show ?thesis
    using sample_start second_start_reuses_material [OF sample_start] by blast
qed

theorem first_start_chain_witness:
  "\<exists>tm w' ca_cert ca_key leaf_cert leaf_key. materialize_tls sample_lib sample_tls_opts (sample_tls_world sample_disk) = (Inr tm, w')
     \<and> generated sample_lib (lit ''d'') 0 ca_cert ca_key leaf_cert leaf_key
     \<and> files (tw_disk w') (ca_file sample_lib (lit ''d'')) = Some (cert_pem sample_lib ca_cert)"
proof -
  have "\<not> material_present sample_lib (lit ''d'') (tw_disk (sample_tls_world sample_disk))"
    by (simp add: material_present_def sample_tls_world_def sample_disk_def)
  then show ?thesis
    using first_start_chain [of sample_tls_opts sample_lib "lit ''d''", OF _ _ _ _ sample_dir sample_start] sample_start
    by (fastforce simp: sample_tls_opts_def sample_tls_world_def)
qed

theorem interrupted_generation_is_kept_witness:
  "\<exists>w'. materialize_tls sample_lib sample_tls_opts (sample_tls_world full_disk) = (Inl (lit ''No space left on device''), w')
     \<and> (\<forall>v. files (tw_disk v) = files (tw_disk w') \<and> (\<forall>p. open_fault (tw_disk v) p = None \<and> read_fault (tw_disk v) p 0 = None)
        \<longrightarrow> materialize_tls sample_lib sample_tls_opts v = (Inl (lit ''no private key found in d/server.key''), v))"
proof -
  have names: "ca_file sample_lib (lit ''d'') = lit ''d/ca.crt''" "ca_key_file sample_lib (lit ''d'') = lit ''d/ca.key''"
    "leaf_file sample_lib (lit ''d'') = lit ''d/server.crt''" "leaf_key_file sample_lib (lit ''d'') = lit ''d/server.key''"
    by (simp_all add: ca_file_def ca_key_file_def leaf_file_def leaf_key_file_def sample_lib_def lit_def)
  have "px_tls_cert sample_tls_opts = None" "px_tls_key sample_tls_opts = None" "lit ''d'' = px_tls_dir sample_tls_opts"
    "create_dir_all sample_lib (lit ''d'') = Inr ()" "pem_key sample_lib [] = Inr None"
    "pem_certs sample_lib (cert_pem sample_lib (1, 0)) = Inr [(1, 0)]"
    by (simp_all add: sample_tls_opts_def sample_lib_def)
  moreover have "\<not> material_present sample_lib (lit ''d'') (tw_disk (sample_tls_world full_disk))"
    by (simp add: material_present_def sample_tls_world_def full_disk_def sample_disk_def)
  moreover have "\<forall>p \<in> {ca_file sample_lib (lit ''d''), ca_key_file sample_lib (lit ''d''), leaf_file sample_lib (lit ''d'')}.
      create_fault (tw_disk (sample_tls_world full_disk)) p = None \<and> (\<forall>s. write_fault (tw_disk (sample_tls_world full_disk)) p [] s = None)"
    "create_fault (tw_disk (sample_tls_world full_disk)) (leaf_key_file sample_lib (lit ''d'')) = None"
    "write_fault (tw_disk (sample_tls_world full_disk)) (leaf_key_file sample_lib (lit ''d'')) [] (key_pem sample_lib 1)
       = Some (lit ''No space left on device'', [])"
    by (simp_all add: sample_tls_world_def full_disk_def sample_disk_def files_distinct [OF sample_dir])
  moreover have "generated sample_lib (lit ''d'') (tw_keys (sample_tls_world full_disk)) (0, 0) 0 (1, 0) 1"
    using sample_generated by (simp add: sample_tls_world_def)
  ultimately have "\<exists>w'. materialize_tls sample_lib sample_tls_opts (sample_tls_world full_disk) = (Inl (lit ''No space left on device''), w')
     \<and> (\<forall>v. files (tw_disk v) = files (tw_disk w') \<and> (\<forall>p. open_fault (tw_disk v) p = None \<and> read_fault (tw_disk v) p 0 = None)
        \<longrightarrow> materialize_tls sample_lib sample_tls_opts v = (Inl (lit ''no private key found in '' @ leaf_key_file sample_lib (lit ''d'')), v))"
    by (intro interrupted_generation_is_kept [where dir = "lit ''d''" and certs = "[(1, 0)]"]) (assumption | rule sample_dir | simp)+
  moreover have "lit ''no private key found in '' @ leaf_key_file sample_lib (lit ''d'') = lit ''no private key found in d/server.key''"
    unfolding names by (simp add: lit_def)
  ultimately show ?thesis by (simp only:)
qed

end
