(* ===== verification/Serve.thy ===== *)
theory Serve
  imports Tls_Material
begin

text \<open>
  The server of the proxy (\<open>src/proxy.rs\<close>, \<open>run\<close> and \<open>serve\<close>): its start, and the accept loop with the tasks of the
  connections.

  The tasks run on several threads and share the registry and the output. A state has the tasks in the order they were accepted; a
  step accepts a connection, fails to, or polls one task. A poll runs a task from one point where the shared state is touched to the
  next: it opens its connection, or sets up the two streams, which touches neither registry nor output, or one of its pumps makes a
  step. That the counters of the registry may interleave inside such a step changes nothing is shown in \<open>State\<close>.
\<close>

subsection \<open>The streams of a connection\<close>

text \<open>A stream is polled: \<open>None\<close> is pending, otherwise it gives an error or what the poll is for. \<open>ProxyStream\<close> is either of
  two kinds of stream and delegates to it.\<close>

type_synonym ('s, 'r) poll = "'s \<Rightarrow> (rstring + 'r) option \<times> 's"

record 's async_io =
  poll_read :: "nat \<Rightarrow> ('s, u8 list) poll"
  poll_write :: "u8 list \<Rightarrow> ('s, nat) poll"
  poll_flush :: "('s, unit) poll"
  poll_shutdown :: "('s, unit) poll"

datatype ('p, 't) proxy_stream = Plain 'p | Tls 't

definition delegate :: "('p, 'r) poll \<Rightarrow> ('t, 'r) poll \<Rightarrow> (('p, 't) proxy_stream, 'r) poll" where
  "delegate p t st = (case st of Plain s \<Rightarrow> apsnd Plain (p s) | Tls s \<Rightarrow> apsnd Tls (t s))"

definition proxy_stream_io :: "'p async_io \<Rightarrow> 't async_io \<Rightarrow> ('p, 't) proxy_stream async_io" where
  "proxy_stream_io tcp tls =
     \<lparr> poll_read = (\<lambda>n. delegate (poll_read tcp n) (poll_read tls n)),
       poll_write = (\<lambda>bs. delegate (poll_write tcp bs) (poll_write tls bs)),
       poll_flush = delegate (poll_flush tcp) (poll_flush tls), poll_shutdown = delegate (poll_shutdown tcp) (poll_shutdown tls) \<rparr>"

subsection \<open>The start\<close>

definition announce_material :: "proxy_opts \<Rightarrow> 's tls_material \<Rightarrow> io \<Rightarrow> io" where
  "announce_material opts tls i =
     (case tm_ca_cert_path tls of
        Some ca \<Rightarrow> status (lit ''  cp '' @ ca @ lit '' ~/.postgresql/root.crt'')
          (status (lit ''tapgres: for clients to trust this proxy, install the CA, e.g. for libpq/psql:'')
          (status (lit ''tapgres: generated/loaded CA at '' @ ca) i))
      | None \<Rightarrow> if px_tls_cert opts \<noteq> None then status (lit ''tapgres: using user-supplied TLS certificate'') i else i)"

definition listening_line :: "proxy_opts \<Rightarrow> rstring" where
  "listening_line opts =
     lit ''tapgres: mitm proxy  '' @ px_listen opts @ lit ''  ->  '' @ px_upstream opts @ lit ''  (client TLS termination''
     @ (if px_no_upstream_tls opts then lit '', upstream cleartext'' else lit '', upstream TLS auto-negotiate'') @ lit '')''"

text \<open>\<open>bound\<close> is what binding the listener gives, \<open>runtime\<close> what building the runtime gives.\<close>

definition serve_start :: "('p, 'c, 'd, 'k, 's) tls_lib \<Rightarrow> proxy_opts \<Rightarrow> io_result \<Rightarrow> 's tls_material op" where
  "serve_start lib opts bound =
     try_op (materialize_tls lib opts) (\<lambda>tls.
     try_op (\<lambda>w. (Inr (), w\<lparr> tw_io := announce_material opts tls (tw_io w) \<rparr>)) (\<lambda>_.
     try_op (pure_op bound) (\<lambda>_.
     try_op (say_op (listening_line opts)) (\<lambda>_. pure_op (Inr tls)))))"

definition proxy_run :: "('p, 'c, 'd, 'k, 's) tls_lib \<Rightarrow> proxy_opts \<Rightarrow> io_result \<Rightarrow> io_result \<Rightarrow> 's tls_material op" where
  "proxy_run lib opts runtime bound = try_op (pure_op runtime) (\<lambda>_. serve_start lib opts bound)"

subsection \<open>The tasks\<close>

text \<open>A connection accepted from a peer whose handler has not run; one that is open in the registry, whose guard is alive; one whose
  streams are set up; and one whose handler has returned.\<close>

datatype 'c task =
    Accepted conn_script socket_addr
  | Opened conn_script socket_addr conn_ref socket_addr
  | Relaying socket_addr conn_ref "'c relay"
  | Ended

fun guard_of :: "'c task \<Rightarrow> conn_ref option" where
  "guard_of (Opened sc peer stats cl) = Some stats"
| "guard_of (Relaying peer stats rl) = Some stats"
| "guard_of _ = None"

definition report_error :: "socket_addr \<Rightarrow> io_result \<Rightarrow> io \<Rightarrow> io" where
  "report_error peer res i = (case res of
     Inl e \<Rightarrow> status (lit ''tapgres: connection from '' @ show_socket_addr peer @ lit '': '' @ e) i
   | Inr _ \<Rightarrow> i)"

text \<open>The handler returns: its guard is dropped, then its error is reported.\<close>

definition end_task :: "'c capture_env \<Rightarrow> socket_addr \<Rightarrow> conn_ref \<Rightarrow> io_result \<Rightarrow> metrics \<Rightarrow> io \<Rightarrow> 'c task \<times> metrics \<times> io" where
  "end_task ce peer stats res m i = (Ended, close_connection (instant ce m) stats m, report_error peer res i)"

text \<open>The handler with an empty schedule sets up the streams; it has a relay when it got that far.\<close>

fun task_step :: "'c capture_env \<Rightarrow> proxy_opts \<Rightarrow> role \<times> bool \<Rightarrow> 'c task \<Rightarrow> metrics \<times> io \<Rightarrow> ('c task \<times> metrics \<times> io) run" where
  "task_step ce opts e (Accepted sc peer) (m, i) =
     (case endpoints sc of
        Inl err \<Rightarrow> Some (Ended, m, report_error peer (Inl err) i)
      | Inr (cl, proxy) \<Rightarrow>
          (let (stats, m) = open_connection (instant ce m) cl proxy False m in Some (Opened sc peer stats cl, m, i)))"
| "task_step ce opts e (Opened sc peer stats cl) (m, i) = do {
     (res, s) \<leftarrow> handle_body ce opts (sc\<lparr> schedule := [] \<rparr>) stats cl (session_start m i);
     case ss_relay s of
       None \<Rightarrow> Some (end_task ce peer stats res (ss_metrics s) (ss_io s))
     | Some rl \<Rightarrow> Some (Relaying peer stats rl, ss_metrics s, ss_io s) }"
| "task_step ce opts e (Relaying peer stats rl) (m, i) = do {
     (ended, rl, m, i) \<leftarrow> pump_step ce stats e (rl, m, i);
     Some (if ended then end_task ce peer stats (Inr ()) m i else (Relaying peer stats rl, m, i)) }"
| "task_step ce opts e Ended (m, i) = Some (Ended, m, i)"

subsection \<open>The server\<close>

record 'c server =
  sv_metrics :: metrics
  sv_io :: io
  sv_tasks :: "'c task list"
  sv_result :: "rstring option"

definition serve_init :: "metrics \<Rightarrow> io \<Rightarrow> 'c server" where
  "serve_init m i = \<lparr> sv_metrics = m, sv_io = i, sv_tasks = [], sv_result = None \<rparr>"

text \<open>An error of the accept loop returns from \<open>serve\<close>; the runtime is dropped, and with it every task and its guard.\<close>

fun abort_task :: "'c capture_env \<Rightarrow> 'c task \<Rightarrow> metrics \<Rightarrow> metrics" where
  "abort_task ce t m = (case guard_of t of None \<Rightarrow> m | Some stats \<Rightarrow> close_connection (instant ce m) stats m)"

definition stop_serving :: "'c capture_env \<Rightarrow> rstring \<Rightarrow> 'c server \<Rightarrow> 'c server" where
  "stop_serving ce e sv = sv\<lparr> sv_result := Some e, sv_metrics := fold (abort_task ce) (sv_tasks sv) (sv_metrics sv),
     sv_tasks := map (\<lambda>t. Ended) (sv_tasks sv) \<rparr>"

inductive serve_step :: "'c capture_env \<Rightarrow> proxy_opts \<Rightarrow> 'c server \<Rightarrow> 'c server \<Rightarrow> bool" for ce opts where
  accepted: "sv_result sv = None \<Longrightarrow> serve_step ce opts sv (sv\<lparr> sv_tasks := sv_tasks sv @ [Accepted sc peer] \<rparr>)"
| accept_failed: "sv_result sv = None \<Longrightarrow> serve_step ce opts sv (stop_serving ce e sv)"
| polled: "sv_result sv = None \<Longrightarrow> k < length (sv_tasks sv) \<Longrightarrow>
    task_step ce opts e (sv_tasks sv ! k) (sv_metrics sv, sv_io sv) = Some (t, m, i) \<Longrightarrow>
    serve_step ce opts sv (sv\<lparr> sv_tasks := (sv_tasks sv)[k := t], sv_metrics := m, sv_io := i \<rparr>)"

inductive_cases serve_stepE: "serve_step ce opts sv sv'"

abbreviation serve_reachable :: "'c capture_env \<Rightarrow> proxy_opts \<Rightarrow> metrics \<Rightarrow> io \<Rightarrow> 'c server \<Rightarrow> bool" where
  "serve_reachable ce opts m i sv \<equiv> (serve_step ce opts)\<^sup>*\<^sup>* (serve_init m i) sv"

subsection \<open>What a poll does\<close>

text \<open>The handler with an empty schedule leaves the registry and the output as they are, and its relay, if any, at its start.\<close>

lemma handle_body_setup:
  "\<exists>res s. handle_body ce opts (sc\<lparr> schedule := [] \<rparr>) stats cl (session_start m i) = Some (res, s) \<and> ss_metrics s = m \<and> ss_io s = i"
  using handle_body_returns [of m i "\<lambda>s. ss_metrics s = m \<and> ss_io s = i", OF _ _ session_untouched, of "sc\<lparr> schedule := [] \<rparr>" ce stats cl opts]
  by (auto simp: untouched_def returns_def)

text \<open>A task after a poll: it was given a fresh connection, it kept its guard while traffic was noted, or its connection was closed.\<close>

lemma task_step_cases:
  assumes "frontend_ok (fdec ce)" "backend_ok (bdec ce)"
  obtains t' m' i' where "task_step ce opts e t (m, i) = Some (t', m', i')" "guard_of t = None" "guard_of t' = None" "m' = m"
    | t' m' i' stats cl px where "task_step ce opts e t (m, i) = Some (t', m', i')" "guard_of t = None" "guard_of t' = Some stats"
        "open_connection (instant ce m) cl px False m = (stats, m')"
    | t' m' i' stats ns where "task_step ce opts e t (m, i) = Some (t', m', i')" "guard_of t = Some stats" "guard_of t' = Some stats"
        "m' = fold (\<lambda>n. note_connection n stats) ns m"
    | t' m' i' stats ns now where "task_step ce opts e t (m, i) = Some (t', m', i')" "guard_of t = Some stats" "guard_of t' = None"
        "m' = close_connection now stats (fold (\<lambda>n. note_connection n stats) ns m)"
proof (cases t)
  case (Accepted sc peer)
  show ?thesis
  proof (cases "endpoints sc")
    case (Inl err)
    then show ?thesis using Accepted that(1) by simp
  next
    case (Inr ep)
    obtain cl px where "ep = (cl, px)" by (cases ep)
    moreover obtain stats m' where "open_connection (instant ce m) cl px False m = (stats, m')" by (metis surj_pair)
    ultimately show ?thesis using Accepted Inr that(2) by simp
  qed
next
  case (Opened sc peer stats cl)
  obtain res s where s: "handle_body ce opts (sc\<lparr> schedule := [] \<rparr>) stats cl (session_start m i) = Some (res, s)" "ss_metrics s = m" "ss_io s = i"
    using handle_body_setup by blast
  show ?thesis
  proof (cases "ss_relay s")
    case None
    then show ?thesis using Opened s that(4) [where ns = "[]"] by (simp add: end_task_def)
  next
    case (Some rl)
    then show ?thesis using Opened s that(3) [where ns = "[]"] by simp
  qed
next
  case (Relaying peer stats rl)
  obtain ended rl' i' ns where p: "pump_step ce stats e (rl, m, i) = Some (ended, rl', fold (\<lambda>n. note_connection n stats) ns m, i')"
    using pump_step_carries [OF assms] by blast
  show ?thesis
  proof (cases ended)
    case True
    then show ?thesis using Relaying p that(4) by (simp add: end_task_def)
  next
    case False
    then show ?thesis using Relaying p that(3) by simp
  qed
next
  case Ended
  then show ?thesis using that(1) by simp
qed

text \<open>The table of the registry's contract: the guards of the tasks, by their number.\<close>

definition guard_table :: "'c task list \<Rightarrow> nat \<rightharpoonup> conn_ref \<times> bool" where
  "guard_table ts k = (if k < length ts then map_option (\<lambda>r. (r, False)) (guard_of (ts ! k)) else None)"

lemma guard_table_Nil [simp]: "guard_table [] = (\<lambda>k. None)"
  by (simp add: guard_table_def fun_eq_iff)

lemma guard_table_accept [simp]: "guard_table (ts @ [Accepted sc peer]) = guard_table ts"
  by (simp add: guard_table_def fun_eq_iff nth_append less_Suc_eq)

lemma guard_table_update: "k < length ts \<Longrightarrow> guard_table (ts[k := t]) = (guard_table ts)(k := map_option (\<lambda>r. (r, False)) (guard_of t))"
  by (auto simp: guard_table_def fun_eq_iff)

lemma guard_table_same: "k < length ts \<Longrightarrow> guard_of t = guard_of (ts ! k) \<Longrightarrow> guard_table (ts[k := t]) = guard_table ts"
  by (auto simp: guard_table_def fun_eq_iff nth_list_update)

definition serve_inv :: "'c server \<Rightarrow> bool" where
  "serve_inv sv \<longleftrightarrow> registry.tracks (guard_table (sv_tasks sv)) (sv_metrics sv)
     \<and> (sv_result sv \<noteq> None \<longrightarrow> (\<forall>t \<in> set (sv_tasks sv). guard_of t = None))"

lemma poll_keeps:
  assumes dec: "frontend_ok (fdec ce)" "backend_ok (bdec ce)" and t: "registry.tracks (guard_table ts) m" and k: "k < length ts"
    and s: "task_step ce opts e (ts ! k) (m, i) = Some (t', m', i')" and room: "room m"
  shows "registry.tracks (guard_table (ts[k := t'])) m'"
proof (rule task_step_cases [OF dec, of opts e "ts ! k" m i])
  fix u m1 i1 assume "task_step ce opts e (ts ! k) (m, i) = Some (u, m1, i1)" "guard_of (ts ! k) = None" "guard_of u = None" "m1 = m"
  then show ?thesis using t s guard_table_same [OF k, of u] by simp
next
  fix u m1 i1 stats cl px assume "task_step ce opts e (ts ! k) (m, i) = Some (u, m1, i1)" "guard_of (ts ! k) = None" "guard_of u = Some stats"
    and o: "open_connection (instant ce m) cl px False m = (stats, m1)"
  then show ?thesis
    using s k registry.tracks_open [OF t room, of "(instant ce m, cl, px, False)" stats m1 k]
    by (simp add: guard_table_update) (simp add: guard_table_def)
next
  fix u m1 i1 stats ns assume "task_step ce opts e (ts ! k) (m, i) = Some (u, m1, i1)" "guard_of (ts ! k) = Some stats" "guard_of u = Some stats"
    and m: "m1 = fold (\<lambda>n. note_connection n stats) ns m"
  then show ?thesis
    using s k tracks_notes [OF t, of k stats False ns] guard_table_same [OF k, of u] by (simp add: guard_table_def)
next
  fix u m1 i1 stats ns now assume a: "task_step ce opts e (ts ! k) (m, i) = Some (u, m1, i1)" "guard_of (ts ! k) = Some stats" "guard_of u = None"
    and m: "m1 = close_connection now stats (fold (\<lambda>n. note_connection n stats) ns m)"
  have g: "guard_table ts k = Some (stats, False)" using a(2) k by (simp add: guard_table_def)
  show ?thesis
    using a(1,3) s k m registry.tracks_close [OF tracks_notes [OF t g] g, of None now ns] by (simp add: guard_table_update)
qed

lemma poll_heap:
  assumes "frontend_ok (fdec ce)" "backend_ok (bdec ce)" "task_step ce opts e t (m, i) = Some (t', m', i')"
  shows "length (heap m) \<le> length (heap m')"
  by (rule task_step_cases [OF assms(1,2), of opts e t m i])
    (use assms(3) in \<open>auto simp: notes_heap close_connection_heap open_connection_def Let_def\<close>)

text \<open>Dropping the runtime closes what the tasks still had open.\<close>

lemma abort_heap: "length (heap (fold (abort_task ce) ts m)) = length (heap m)"
  by (induction ts arbitrary: m) (simp_all add: close_connection_heap split: option.split)

lemma abort_keeps:
  "registry.tracks (guard_table (pre @ ts)) m \<Longrightarrow> (\<forall>t \<in> set pre. guard_of t = None) \<Longrightarrow>
     registry.tracks (guard_table (pre @ map (\<lambda>t. Ended) ts)) (fold (abort_task ce) ts m)"
proof (induction ts arbitrary: pre m)
  case (Cons t ts)
  have here: "length pre < length (pre @ t # ts)" "(pre @ t # ts)[length pre := Ended] = (pre @ [Ended]) @ ts" by simp_all
  have "registry.tracks (guard_table ((pre @ [Ended]) @ ts)) (abort_task ce t m)"
  proof (cases "guard_of t")
    case None
    then show ?thesis using Cons.prems(1) guard_table_same [OF here(1), of Ended] here(2) by simp
  next
    case (Some stats)
    have g: "guard_table (pre @ t # ts) (length pre) = Some (stats, False)" using Some by (simp add: guard_table_def)
    show ?thesis
      using registry.tracks_close [OF Cons.prems(1) g, of None "instant ce m"] guard_table_update [OF here(1), of Ended] here(2) Some by simp
  qed
  then show ?case using Cons.IH [of "pre @ [Ended]" "abort_task ce t m"] Cons.prems(2) by simp
qed simp

subsection \<open>Reachable states\<close>

lemma serve_step_heap:
  assumes "frontend_ok (fdec ce)" "backend_ok (bdec ce)" "serve_step ce opts sv sv'"
  shows "length (heap (sv_metrics sv)) \<le> length (heap (sv_metrics sv'))"
  using assms(3) poll_heap [OF assms(1,2)] by cases (auto simp: stop_serving_def abort_heap)

lemma serve_step_inv:
  assumes "frontend_ok (fdec ce)" "backend_ok (bdec ce)" "serve_step ce opts sv sv'" "serve_inv sv" "room (sv_metrics sv)"
  shows "serve_inv sv'"
  using assms(3)
proof cases
  case (accepted sc peer)
  then show ?thesis using assms(4) by (simp add: serve_inv_def)
next
  case (accept_failed e)
  then show ?thesis using assms(4) abort_keeps [of "[]" "sv_tasks sv" "sv_metrics sv" ce] by (simp add: serve_inv_def stop_serving_def)
next
  case (polled k e t m i)
  then show ?thesis
    using assms(4) poll_keeps [OF assms(1,2) _ polled(3,4) assms(5)] by (simp add: serve_inv_def)
qed

lemma serve_reachable_inv:
  assumes dec: "frontend_ok (fdec ce)" "backend_ok (bdec ce)" and m: "metrics_inv m" "open_refs m = {}"
    and r: "serve_reachable ce opts m i sv" and room: "room (sv_metrics sv)"
  shows "serve_inv sv"
  using r room
proof (induction rule: rtranclp_induct)
  case base
  then show ?case using registry.tracks_empty [OF m] by (simp add: serve_inv_def serve_init_def)
next
  case (step sv sv')
  have "room (sv_metrics sv)" using serve_step_heap [OF dec step.hyps(2)] step.prems by (simp add: room_def)
  then show ?case using serve_step_inv [OF dec step.hyps(2) step.IH] by simp
qed

lemma guard_count: "card {k. \<exists>r. guard_table ts k = Some (r, False)} = length (filter (\<lambda>t. guard_of t \<noteq> None) ts)"
proof -
  have "{k. \<exists>r. guard_table ts k = Some (r, False)} = {k. k < length ts \<and> guard_of (ts ! k) \<noteq> None}"
    by (auto simp: guard_table_def)
  then show ?thesis by (simp add: length_filter_conv_card)
qed

lemma serve_inv_registry:
  assumes "serve_inv sv"
  shows "metrics_inv (sv_metrics sv)" "open_refs (sv_metrics sv) = {r. \<exists>t \<in> set (sv_tasks sv). guard_of t = Some r}"
    "conns_live (sv_metrics sv) = of_nat (length (filter (\<lambda>t. guard_of t \<noteq> None) (sv_tasks sv)))"
proof -
  have t: "registry.tracks (guard_table (sv_tasks sv)) (sv_metrics sv)" using assms by (simp add: serve_inv_def)
  show i: "metrics_inv (sv_metrics sv)" using registry.tracksD(1) [OF t] .
  show "open_refs (sv_metrics sv) = {r. \<exists>t \<in> set (sv_tasks sv). guard_of t = Some r}"
    using registry.tracksD(4) [OF t] by (auto simp: guard_table_def in_set_conv_nth split: if_splits) (metis in_set_conv_nth)
  show "conns_live (sv_metrics sv) = of_nat (length (filter (\<lambda>t. guard_of t \<noteq> None) (sv_tasks sv)))"
    using registry.tracks_count [OF t] guard_count [of "sv_tasks sv"] i by (simp add: metrics_inv_def)
qed

subsection \<open>A task alone\<close>

text \<open>A task run by itself along a schedule; where the schedule of the model ends the handler returns.\<close>

definition finish_task :: "'c capture_env \<Rightarrow> 'c task \<times> metrics \<times> io \<Rightarrow> metrics \<times> io" where
  "finish_task ce = (\<lambda>(t, m, i). case t of Relaying peer stats rl \<Rightarrow> snd (end_task ce peer stats (Inr ()) m i) | _ \<Rightarrow> (m, i))"

fun run_task :: "'c capture_env \<Rightarrow> proxy_opts \<Rightarrow> (role \<times> bool) list \<Rightarrow> 'c task \<times> metrics \<times> io \<Rightarrow> ('c task \<times> metrics \<times> io) run" where
  "run_task ce opts [] st = Some st"
| "run_task ce opts (e # es) (t, m, i) = do { st \<leftarrow> task_step ce opts e t (m, i); run_task ce opts es st }"

lemma run_task_Ended: "run_task ce opts es (Ended, m, i) = Some (Ended, m, i)"
  by (induction es) simp_all

lemma run_task_Relaying:
  "map_option (finish_task ce) (run_task ce opts es (Relaying peer stats rl, m, i))
     = map_option (\<lambda>(rl, m, i). snd (end_task ce peer stats (Inr ()) m i)) (relay_run ce stats es (rl, m, i))"
proof (induction es arbitrary: rl m i)
  case Nil
  then show ?case by (simp add: finish_task_def)
next
  case (Cons e es)
  show ?case
  proof (cases "pump_step ce stats e (rl, m, i)")
    case None
    then show ?thesis by simp
  next
    case (Some st)
    obtain ended rl' m' i' where st: "st = (ended, rl', m', i')" by (metis prod_cases4)
    show ?thesis
    proof (cases ended)
      case True
      then show ?thesis using Some st by (simp add: run_task_Ended end_task_def finish_task_def)
    next
      case False
      then show ?thesis using Some st Cons.IH [of rl' m' i'] by simp
    qed
  qed
qed

text \<open>The handler is its setup followed by the relay.\<close>

lemma transports_schedule [simp]:
  "client_transport (sc\<lparr> schedule := es \<rparr>) = client_transport sc" "server_transport opts (sc\<lparr> schedule := es \<rparr>) = server_transport opts sc"
  "raw_relay (sc\<lparr> schedule := es \<rparr>) = raw_relay sc"
  by (simp_all add: client_transport_def server_transport_def raw_relay_def fun_eq_iff cong: if_cong)

definition then_relay :: "'c capture_env \<Rightarrow> conn_ref \<Rightarrow> (role \<times> bool) list \<Rightarrow> io_result \<times> 'c session \<Rightarrow> 'c handled" where
  "then_relay ce stats es = (\<lambda>(res, s). case ss_relay s of
     None \<Rightarrow> Some (res, s)
   | Some rl \<Rightarrow> do {
       (rl, m, i) \<leftarrow> relay_run ce stats es (rl, ss_metrics s, ss_io s);
       Some (Inr (), s\<lparr> ss_relay := Some rl, ss_metrics := m, ss_io := i \<rparr>) })"

lemma attempt_then:
  assumes "ss_relay s = None" "k s = Option.bind (k' s) (then_relay ce stats es)"
  shows "attempt r s k = Option.bind (attempt r s k') (then_relay ce stats es)"
  using assms by (cases r) (simp_all add: attempt_def then_relay_def)

lemma client_then:
  assumes "ss_relay s = None" "\<And>s. ss_relay s = None \<Longrightarrow> k s = Option.bind (k' s) (then_relay ce stats es)"
  shows "client_transport sc b s k = Option.bind (client_transport sc b s k') (then_relay ce stats es)"
  using assms by (auto simp: client_transport_def intro!: attempt_then)

lemma server_then:
  assumes "ss_relay s = None" "\<And>s. ss_relay s = None \<Longrightarrow> k s = Option.bind (k' s) (then_relay ce stats es)"
  shows "server_transport opts sc s k = Option.bind (server_transport opts sc s k') (then_relay ce stats es)"
  using assms by (auto simp: server_transport_def Let_def intro!: attempt_then)

lemma handle_body_then_relay:
  assumes "ss_relay s = None"
  shows "handle_body ce opts sc stats cl s
    = Option.bind (handle_body ce opts (sc\<lparr> schedule := [] \<rparr>) stats cl s) (then_relay ce stats (schedule sc))"
proof (cases "head_read sc")
  case None
  then show ?thesis using assms by (simp add: handle_body_def then_relay_def)
next
  case (Some h)
  have cancel: "raw_relay sc s = Option.bind (raw_relay sc s) (then_relay ce stats (schedule sc))" if "ss_relay s = None" for s :: "'a session"
    using that by (simp add: raw_relay_def then_relay_def)
  have relay: "Option.bind (relay_run ce stats (schedule sc) (rl, ss_metrics s, ss_io s))
        (\<lambda>(rl, m, i). Some (Inr (), s\<lparr> ss_relay := Some rl, ss_metrics := m, ss_io := i \<rparr>))
      = Option.bind (Option.bind (relay_run ce stats [] (rl, ss_metrics s, ss_io s))
          (\<lambda>(rl, m, i). Some (Inr (), s\<lparr> ss_relay := Some rl, ss_metrics := m, ss_io := i \<rparr>))) (then_relay ce stats (schedule sc))"
    for s :: "'a session" and rl
    by (simp add: then_relay_def)
  show ?thesis
    unfolding handle_body_def Let_def
    by (simp add: Some del: relay_run.simps)
      (intro conjI impI attempt_then client_then server_then cancel assms relay | simp add: assms del: relay_run.simps)+
qed

subsection \<open>Properties\<close>

text \<open>C5. In every state the server reaches, whatever the interleaving of accepts, polls and errors, the connections open in the
  registry are exactly those whose task is running, and their count is the number of these tasks: a connection is never leaked and
  never closed early, not even by the error of the accept loop that ends the server, after which none is left open.\<close>

theorem served_connections_match_tasks:
  assumes "frontend_ok (fdec ce)" "backend_ok (bdec ce)" "metrics_inv m" "open_refs m = {}"
    and "serve_reachable ce opts m i sv" "room (sv_metrics sv)"
  shows "open_refs (sv_metrics sv) = {r. \<exists>t \<in> set (sv_tasks sv). guard_of t = Some r}
    \<and> conns_live (sv_metrics sv) = of_nat (length (filter (\<lambda>t. guard_of t \<noteq> None) (sv_tasks sv)))
    \<and> (sv_result sv \<noteq> None \<longrightarrow> conns_live (sv_metrics sv) = 0 \<and> open_refs (sv_metrics sv) = {})
    \<and> metrics_inv (sv_metrics sv)"
proof -
  have inv: "serve_inv sv" using serve_reachable_inv [OF assms] .
  have "sv_result sv \<noteq> None \<Longrightarrow> filter (\<lambda>t. guard_of t \<noteq> None) (sv_tasks sv) = []"
    using inv by (auto simp: serve_inv_def filter_empty_conv)
  then show ?thesis using inv serve_inv_registry [OF inv] by (auto simp: serve_inv_def)
qed

text \<open>No connection blocks the server: while the accept loop runs, every task can be polled, and with it the server goes on.\<close>

theorem every_task_can_be_polled:
  assumes "frontend_ok (fdec ce)" "backend_ok (bdec ce)" "sv_result sv = None" "k < length (sv_tasks sv)"
  shows "\<exists>sv'. serve_step ce opts sv sv' \<and> sv_result sv' = None \<and> length (sv_tasks sv') = length (sv_tasks sv)
    \<and> (\<forall>j < length (sv_tasks sv). j \<noteq> k \<longrightarrow> sv_tasks sv' ! j = sv_tasks sv ! j)"
proof -
  obtain t m i where "task_step ce opts (Client, True) (sv_tasks sv ! k) (sv_metrics sv, sv_io sv) = Some (t, m, i)"
    by (rule task_step_cases [OF assms(1,2), of opts "(Client, True)" "sv_tasks sv ! k" "sv_metrics sv" "sv_io sv"]) blast+
  from polled [OF assms(3,4) this] show ?thesis using assms(3) by (intro exI conjI) (assumption | simp)+
qed

text \<open>The polls of a task make up its handler: run by itself along any schedule of its pumps, a task leaves the registry and the
  output as the handler of the connection does, run from its start to its end.\<close>

theorem task_is_its_handler:
  "map_option (finish_task ce) (run_task ce opts ((Client, True) # (Client, True) # schedule sc) (Accepted sc peer, m, i))
     = connection_task ce opts sc peer m i"
proof (cases "endpoints sc")
  case (Inl err)
  then show ?thesis by (simp add: connection_task_def handle_connection_def session_start_def report_error_def run_task_Ended finish_task_def)
next
  case (Inr ep)
  obtain cl px where ep: "ep = (cl, px)" by (cases ep)
  obtain stats m1 where o: "open_connection (instant ce m) cl px False m = (stats, m1)" by (metis surj_pair)
  obtain res s where s: "handle_body ce opts (sc\<lparr> schedule := [] \<rparr>) stats cl (session_start m1 i) = Some (res, s)"
    using handle_body_setup [of ce opts sc stats cl m1 i] by blast
  have h: "handle_body ce opts sc stats cl (session_start m1 i) = then_relay ce stats (schedule sc) (res, s)"
    using handle_body_then_relay [of "session_start m1 i" ce opts sc stats cl] s by (simp add: session_start_def)
  show ?thesis
  proof (cases "ss_relay s")
    case None
    then show ?thesis
      using Inr ep o s h
      by (cases res) (simp_all add: connection_task_def handle_connection_def then_relay_def guard_drop_def end_task_def run_task_Ended
        finish_task_def report_error_def)
  next
    case (Some rl)
    then show ?thesis
      using Inr ep o s h run_task_Relaying [of ce opts "schedule sc" peer stats rl "ss_metrics s" "ss_io s"]
      by (cases "relay_run ce stats (schedule sc) (rl, ss_metrics s, ss_io s)")
        (auto simp: connection_task_def handle_connection_def then_relay_def guard_drop_def end_task_def report_error_def)
  qed
qed

subsection \<open>Witnesses\<close>

text \<open>A server with one connection accepted and opened.\<close>

definition one_accepted :: "unit server" where
  "one_accepted = (serve_init new_metrics quiet_io)\<lparr> sv_tasks := [Accepted sample_script sample_client] \<rparr>"

definition one_opened :: "unit server" where
  "one_opened = one_accepted\<lparr> sv_tasks := [Opened sample_script sample_client 0 sample_client],
     sv_metrics := snd (open_connection 0 sample_client (IpV4 0x7F000001, 6432) False new_metrics), sv_io := quiet_io \<rparr>"

lemma one_opened_reachable: "serve_reachable sample_capture_env sample_opts new_metrics quiet_io one_opened"
proof -
  have a: "serve_step sample_capture_env sample_opts (serve_init new_metrics quiet_io) one_accepted"
    using accepted [of "serve_init new_metrics quiet_io" sample_capture_env sample_opts sample_script sample_client]
    by (simp add: one_accepted_def serve_init_def)
  have "task_step sample_capture_env sample_opts (Client, True) (sv_tasks one_accepted ! 0) (sv_metrics one_accepted, sv_io one_accepted)
      = Some (Opened sample_script sample_client 0 sample_client, sv_metrics one_opened, quiet_io)"
    by (simp add: one_accepted_def one_opened_def serve_init_def sample_script_def sample_capture_env_def open_connection_def Let_def
        new_metrics_def with_limits_def)
  from polled [OF _ _ this] have "serve_step sample_capture_env sample_opts one_accepted one_opened"
    by (simp add: one_accepted_def one_opened_def serve_init_def)
  with a show ?thesis by (meson converse_rtranclp_into_rtranclp r_into_rtranclp)
qed

theorem served_connections_match_tasks_witness:
  "serve_reachable sample_capture_env sample_opts new_metrics quiet_io one_opened \<and> conns_live (sv_metrics one_opened) = 1
     \<and> open_refs (sv_metrics one_opened) = {0}"
proof -
  have "room (sv_metrics one_opened)"
    by (simp add: one_opened_def room_def open_connection_def Let_def new_metrics_def with_limits_def ID_SPACE_def)
  moreover have "open_refs new_metrics = {}" by (simp add: open_refs_def new_metrics_def with_limits_def)
  ultimately show ?thesis
    using served_connections_match_tasks [OF sample_decoders sample_room(1) _ one_opened_reachable] one_opened_reachable
    by (simp add: one_opened_def)
qed

theorem every_task_can_be_polled_witness:
  "\<exists>sv'. serve_step sample_capture_env sample_opts one_opened sv' \<and> sv_result sv' = None \<and> length (sv_tasks sv') = 1"
  using every_task_can_be_polled [OF sample_decoders, of one_opened 0 sample_opts]
  by (auto simp: one_opened_def one_accepted_def serve_init_def)

end
