(* ===== verification/Serve_Stream.thy ===== *)
theory Serve_Stream
  imports Serve
begin

text \<open>
  What the server shows of concurrent connections: of each, the messages of its own two streams in order, whatever the other
  connections do and however their tasks are interleaved. \<open>Decode_Stream\<close> is about one direction and \<open>Proxy\<close> about one
  connection; here the steps of \<open>serve_step\<close> are followed with what each task has still to say.
\<close>

subsection \<open>What a task has still to say\<close>

lemma heard_report: "heard [] i (report_error peer res i)"
proof (cases res)
  case (Inl e)
  then show ?thesis using heard_status by (simp add: report_error_def)
qed (simp add: report_error_def heard_Nil)

text \<open>The two streams of a connection decode without error or request for encryption, saying \<open>xs\<close>.\<close>

definition script_decodes :: "'c capture_env \<Rightarrow> conn_script \<Rightarrow> socket_addr \<Rightarrow> (role \<Rightarrow> said list) \<Rightarrow> bool" where
  "script_decodes ce sc cl xs \<longleftrightarrow> (\<forall>h. head_read sc = Some h \<longrightarrow>
     streams_decode (fdec ce) (bdec ce) (cenv ce) (for_decoding_of ce cl)
       (\<lambda>r. (if r = Client then initial_bytes h else []) @ bytes_of (incoming sc r)) xs)"

fun task_awaits :: "'c capture_env \<Rightarrow> socket_addr \<Rightarrow> (role \<Rightarrow> said list) \<Rightarrow> 'c task \<Rightarrow> bool" where
  "task_awaits ce cl z (Accepted sc peer) \<longleftrightarrow> (\<exists>px. endpoints sc = Inr (cl, px)) \<and> script_decodes ce sc cl z"
| "task_awaits ce cl z (Opened sc peer stats cl') \<longleftrightarrow> cl' = cl \<and> script_decodes ce sc cl z"
| "task_awaits ce cl z (Relaying peer stats rl) \<longleftrightarrow> relay_awaits ce z rl \<and> relay_for cl rl"
| "task_awaits ce cl z Ended \<longleftrightarrow> True"

text \<open>From \<open>t\<close> to \<open>t'\<close> the task said \<open>ys\<close>, of its own client, and had \<open>z\<close> and then has \<open>z'\<close> still to say.\<close>

definition task_said ::
    "'c capture_env \<Rightarrow> socket_addr \<Rightarrow> (role \<Rightarrow> said list) \<Rightarrow> io \<Rightarrow> said list \<Rightarrow> (role \<Rightarrow> said list) \<Rightarrow> 'c task \<Rightarrow> io \<Rightarrow> bool" where
  "task_said ce cl z i ys z' t' i' \<longleftrightarrow> heard ys i i' \<and> (\<forall>y \<in> set ys. fst y = cl) \<and> (\<forall>r. z r = of_role r ys @ z' r) \<and> task_awaits ce cl z' t'"

lemma task_said_quiet: "task_awaits ce cl z t' \<Longrightarrow> heard [] i i' \<Longrightarrow> task_said ce cl z i [] z t' i'"
  by (simp add: task_said_def)

lemma task_said_end: "task_said ce cl z i [] z Ended (report_error peer res i)"
  by (rule task_said_quiet) (simp_all add: heard_report)

text \<open>The streams are set up without a word.\<close>

lemma setup_awaits:
  assumes "decoder_stable (fdec ce)" "decoder_stable (bdec ce)" "script_decodes ce sc cl z"
  obtains res s where "handle_body ce opts (sc\<lparr> schedule := [] \<rparr>) stats cl (session_start m i) = Some (res, s)" "ss_metrics s = m" "ss_io s = i"
    "\<forall>rl. ss_relay s = Some rl \<longrightarrow> relay_awaits ce z rl \<and> relay_for cl rl"
proof -
  let ?Q = "\<lambda>s :: 'a session. ss_metrics s = m \<and> ss_io s = i \<and> (\<forall>rl. ss_relay s = Some rl \<longrightarrow> relay_awaits ce z rl \<and> relay_for cl rl)"
  have "relay_awaits ce z (relay_start ce cl (incoming sc) (initial_bytes h)) \<and> relay_for cl (relay_start ce cl (incoming sc) (initial_bytes h))"
    if "head_read sc = Some h" for h
    using that assms(3) relay_start_awaits [OF assms(1,2)]
    by (auto simp: script_decodes_def relay_for_def relay_start_def for_decoding_def direction_new_def)
  then have "returns ?Q (handle_body ce opts (sc\<lparr> schedule := [] \<rparr>) stats cl (session_start m i))"
    by (intro handle_body_returns [OF _ _ session_untouched]) (auto simp: untouched_def)
  then show thesis using that unfolding returns_def by blast
qed

lemma opened_said:
  assumes stable: "decoder_stable (fdec ce)" "decoder_stable (bdec ce)" and sc: "script_decodes ce sc cl z"
  shows "\<exists>t' m' i' ys z'. task_step ce opts e (Opened sc peer stats cl) (m, i) = Some (t', m', i') \<and> task_said ce cl z i ys z' t' i'"
proof -
  obtain res s where s: "handle_body ce opts (sc\<lparr> schedule := [] \<rparr>) stats cl (session_start m i) = Some (res, s)" "ss_io s = i"
    "\<forall>rl. ss_relay s = Some rl \<longrightarrow> relay_awaits ce z rl \<and> relay_for cl rl"
    by (rule setup_awaits [OF stable sc])
  show ?thesis
  proof (cases "ss_relay s")
    case None
    then have "task_step ce opts e (Opened sc peer stats cl) (m, i) = Some (end_task ce peer stats res (ss_metrics s) i)" using s by simp
    then show ?thesis using task_said_end [of ce cl z i peer res] by (auto simp: end_task_def)
  next
    case (Some rl)
    then have "task_step ce opts e (Opened sc peer stats cl) (m, i) = Some (Relaying peer stats rl, ss_metrics s, i)" using s by simp
    moreover have "task_said ce cl z i [] z (Relaying peer stats rl) i"
      using s(3) Some by (intro task_said_quiet heard_Nil) simp
    ultimately show ?thesis by blast
  qed
qed

lemma task_step_said:
  assumes stable: "decoder_stable (fdec ce)" "decoder_stable (bdec ce)" and t: "task_awaits ce cl z t"
  shows "\<exists>t' m' i' ys z'. task_step ce opts e t (m, i) = Some (t', m', i') \<and> task_said ce cl z i ys z' t' i'"
proof (cases t)
  case (Accepted sc peer)
  then obtain px where px: "endpoints sc = Inr (cl, px)" using t by auto
  obtain stats m' where "open_connection (instant ce m) cl px False m = (stats, m')" by (metis surj_pair)
  then have "task_step ce opts e t (m, i) = Some (Opened sc peer stats cl, m', i)" by (simp add: Accepted px)
  moreover have "task_said ce cl z i [] z (Opened sc peer stats cl) i"
    using t by (intro task_said_quiet heard_Nil) (simp add: Accepted)
  ultimately show ?thesis by blast
next
  case (Opened sc peer stats cl')
  then show ?thesis using opened_said [OF stable, of sc cl z opts e peer stats m i] t by simp
next
  case (Relaying peer stats rl)
  then have rl: "relay_awaits ce z rl" "relay_for cl rl" using t by simp_all
  obtain ended rl' m' i' ys z' where p: "pump_step ce stats e (rl, m, i) = Some (ended, rl', m', i')" "relay_said ce z rl i ys z' rl' i'"
    using pump_step_says [OF stable rl(1)] by blast
  have y: "heard ys i i'" "\<forall>y \<in> set ys. fst y = cl" "\<forall>r. z r = of_role r ys @ z' r" "relay_awaits ce z' rl'" "relay_for cl rl'"
    using p(2) rl(2) says_heard unfolding relay_said_def by blast+
  show ?thesis
  proof (cases ended)
    case True
    then have "task_step ce opts e t (m, i) = Some (end_task ce peer stats (Inr ()) m' i')" using p(1) by (simp add: Relaying)
    then show ?thesis using y by (auto simp: end_task_def task_said_def report_error_def)
  next
    case False
    then have "task_step ce opts e t (m, i) = Some (Relaying peer stats rl', m', i')" using p(1) by (simp add: Relaying)
    then show ?thesis using y by (auto simp: task_said_def)
  qed
next
  case Ended
  then show ?thesis using task_said_quiet [of ce cl z Ended i i] heard_Nil by auto
qed

subsection \<open>All tasks at once\<close>

text \<open>A step of the server where the connections come with the scripts \<open>scs\<close>, numbered in the order they are accepted.\<close>

definition serving :: "'c capture_env \<Rightarrow> proxy_opts \<Rightarrow> (nat \<Rightarrow> conn_script) \<Rightarrow> 'c server \<Rightarrow> 'c server \<Rightarrow> bool" where
  "serving ce opts scs sv sv' \<longleftrightarrow> serve_step ce opts sv sv'
     \<and> (\<forall>sc peer. sv_tasks sv' = sv_tasks sv @ [Accepted sc peer] \<longrightarrow> sc = scs (length (sv_tasks sv)))"

text \<open>The tasks as connections that move one at a time: \<open>task_moves\<close> is a poll.\<close>

definition connection_awaits :: "'c capture_env \<Rightarrow> (nat \<Rightarrow> socket_addr) \<Rightarrow> nat \<Rightarrow> (role \<Rightarrow> said list) \<Rightarrow> 'c server \<Rightarrow> bool" where
  "connection_awaits ce cls k z sv \<longleftrightarrow> k < length (sv_tasks sv) \<and> task_awaits ce (cls k) z (sv_tasks sv ! k)"

definition task_moves :: "'c capture_env \<Rightarrow> proxy_opts \<Rightarrow> nat \<Rightarrow> 'c server \<Rightarrow> 'c server \<Rightarrow> bool" where
  "task_moves ce opts k sv sv' \<longleftrightarrow> decoder_stable (fdec ce) \<and> decoder_stable (bdec ce) \<and> (\<exists>e t m j.
     task_step ce opts e (sv_tasks sv ! k) (sv_metrics sv, sv_io sv) = Some (t, m, j)
     \<and> sv' = sv\<lparr> sv_tasks := (sv_tasks sv)[k := t], sv_metrics := m, sv_io := j \<rparr>)"

lemma task_moves_says:
  assumes "task_moves ce opts k sv sv'" "connection_awaits ce cls k z sv"
  shows "\<exists>ys z'. connection_awaits ce cls k z' sv' \<and> heard ys (sv_io sv) (sv_io sv') \<and> (\<forall>y \<in> set ys. fst y = cls k) \<and> (\<forall>r. z r = of_role r ys @ z' r)"
proof -
  obtain e t m j where step: "task_step ce opts e (sv_tasks sv ! k) (sv_metrics sv, sv_io sv) = Some (t, m, j)"
    "sv' = sv\<lparr> sv_tasks := (sv_tasks sv)[k := t], sv_metrics := m, sv_io := j \<rparr>" and stable: "decoder_stable (fdec ce)" "decoder_stable (bdec ce)"
    using assms(1) unfolding task_moves_def by blast
  have k: "k < length (sv_tasks sv)" "task_awaits ce (cls k) z (sv_tasks sv ! k)" using assms(2) by (simp_all add: connection_awaits_def)
  obtain ys z' where "task_said ce (cls k) z (sv_io sv) ys z' t j"
    using task_step_said [OF stable k(2), of opts e "sv_metrics sv" "sv_io sv"] step(1) by auto
  then have "connection_awaits ce cls k z' sv' \<and> heard ys (sv_io sv) (sv_io sv') \<and> (\<forall>y \<in> set ys. fst y = cls k) \<and> (\<forall>r. z r = of_role r ys @ z' r)"
    by (simp add: task_said_def connection_awaits_def step(2) k(1))
  then show ?thesis by blast
qed

lemma task_moves_others:
  "task_moves ce opts k sv sv' \<Longrightarrow> l \<noteq> k \<Longrightarrow> connection_awaits ce cls l w sv \<Longrightarrow> connection_awaits ce cls l w sv'"
  by (auto simp: task_moves_def connection_awaits_def)

interpretation tasks: merged_streams cls "connection_awaits ce cls" sv_io "task_moves ce opts" for cls ce opts
  by unfold_locales (fact task_moves_says, fact task_moves_others)

text \<open>What was heard is of the connections accepted, and of each it is the first part of what its streams say, the rest being what
  its task has still to say.\<close>

definition heard_inv ::
    "'c capture_env \<Rightarrow> (nat \<Rightarrow> socket_addr) \<Rightarrow> (nat \<Rightarrow> role \<Rightarrow> said list) \<Rightarrow> io \<Rightarrow> said list \<Rightarrow> (nat \<Rightarrow> role \<Rightarrow> said list) \<Rightarrow> 'c server \<Rightarrow> bool" where
  "heard_inv ce cls xs i ys zs sv \<longleftrightarrow> merged_streams.merged cls (connection_awaits ce cls) sv_io {..<length (sv_tasks sv)} xs i ys zs sv"

lemma heard_accept:
  assumes "inj_on cls {..length (sv_tasks sv)}" "endpoints sc = Inr (cls (length (sv_tasks sv)), px)" "script_decodes ce sc (cls (length (sv_tasks sv))) (xs (length (sv_tasks sv)))"
    and inv: "heard_inv ce cls xs i ys zs sv"
  shows "heard_inv ce cls xs i ys (zs(length (sv_tasks sv) := xs (length (sv_tasks sv)))) (sv\<lparr> sv_tasks := sv_tasks sv @ [Accepted sc peer] \<rparr>)"
proof -
  have "insert (length (sv_tasks sv)) {..<length (sv_tasks sv)} = {..length (sv_tasks sv)}" by auto
  then have "inj_on cls (insert (length (sv_tasks sv)) {..<length (sv_tasks sv)})" using assms(1) by simp
  from tasks.merged_joins [OF inv [unfolded heard_inv_def] _ this, of "sv\<lparr> sv_tasks := sv_tasks sv @ [Accepted sc peer] \<rparr>"]
  show ?thesis using assms(2,3) by (simp add: heard_inv_def connection_awaits_def lessThan_Suc nth_append)
qed

lemma heard_stop: "heard_inv ce cls xs i ys zs sv \<Longrightarrow> heard_inv ce cls xs i ys zs (stop_serving ce e sv)"
  unfolding heard_inv_def stop_serving_def
  by (simp, erule tasks.merged_keeps) (simp_all add: connection_awaits_def heard_Nil)

lemma heard_poll:
  assumes "decoder_stable (fdec ce)" "decoder_stable (bdec ce)" "inj_on cls {..<length (sv_tasks sv)}" "k < length (sv_tasks sv)"
    and step: "task_step ce opts e (sv_tasks sv ! k) (sv_metrics sv, sv_io sv) = Some (t, m, j)" and inv: "heard_inv ce cls xs i ys zs sv"
  shows "\<exists>ys zs. heard_inv ce cls xs i ys zs (sv\<lparr> sv_tasks := (sv_tasks sv)[k := t], sv_metrics := m, sv_io := j \<rparr>)"
proof -
  have "task_moves ce opts k sv (sv\<lparr> sv_tasks := (sv_tasks sv)[k := t], sv_metrics := m, sv_io := j \<rparr>)"
    unfolding task_moves_def using assms(1,2) step by blast
  then show ?thesis
    using tasks.merged_moves [OF inv [unfolded heard_inv_def] assms(3), of k] assms(4) by (simp add: heard_inv_def)
qed

lemma serving_heard:
  assumes stable: "decoder_stable (fdec ce)" "decoder_stable (bdec ce)"
    and "(serving ce opts scs)\<^sup>*\<^sup>* (serve_init m i) sv" "inj_on cls {..<length (sv_tasks sv)}"
    and "\<forall>k < length (sv_tasks sv). (\<exists>px. endpoints (scs k) = Inr (cls k, px)) \<and> script_decodes ce (scs k) (cls k) (xs k)"
  shows "\<exists>ys zs. heard_inv ce cls xs i ys zs sv"
  using assms(3-5)
proof (induction rule: rtranclp_induct)
  case base
  show ?case using tasks.merged_start [of "{}" ce cls xs "serve_init m i"] by (auto simp: heard_inv_def serve_init_def)
next
  case (step sv sv')
  have s: "serve_step ce opts sv sv'"
    "\<forall>sc peer. sv_tasks sv' = sv_tasks sv @ [Accepted sc peer] \<longrightarrow> sc = scs (length (sv_tasks sv))"
    using step.hyps(2) by (simp_all add: serving_def)
  have longer: "length (sv_tasks sv) \<le> length (sv_tasks sv')"
    using s(1) by cases (simp_all add: stop_serving_def)
  then have less: "{..<length (sv_tasks sv)} \<subseteq> {..<length (sv_tasks sv')}" by auto
  obtain ys zs where inv: "heard_inv ce cls xs i ys zs sv"
    using step.IH [OF inj_on_subset [OF step.prems(1) less]] step.prems(2) less by auto
  show ?case
    using s(1)
  proof cases
    case (accepted sc peer)
    let ?n = "length (sv_tasks sv)"
    have "sc = scs ?n" "inj_on cls {..?n}" using accepted(1) s(2) step.prems(1) by (simp_all add: lessThan_Suc_atMost)
    moreover have "(\<exists>px. endpoints (scs ?n) = Inr (cls ?n, px)) \<and> script_decodes ce (scs ?n) (cls ?n) (xs ?n)"
      using step.prems(2) accepted(1) by simp
    ultimately show ?thesis using heard_accept [OF _ _ _ inv, of sc] accepted(1) by blast
  next
    case (accept_failed e)
    then show ?thesis using heard_stop [OF inv] by blast
  next
    case (polled k e t m j)
    then show ?thesis using heard_poll [OF stable _ polled(3,4) inv] inj_on_subset [OF step.prems(1) less] by simp
  qed
qed

lemma relay_finished:
  assumes "relay_awaits ce z rl" "bytes_of (rl_incoming rl r) = []" "side_read ce rl r"
  shows "z r = []"
proof -
  obtain o1 d2 where "clean_drain (fdec ce) (bdec ce) (cenv ce) (rl_dir rl r) (z r) o1 d2"
    using assms(1,2) by (auto simp: relay_awaits_def dest: spec [of _ r])
  then show ?thesis using assms(3) by (auto simp: side_read_def dest: clean_drain_dry)
qed

subsection \<open>Property\<close>

text \<open>C4. Concurrent connections do not mix: when the streams of every connection decode and no two connections have the same client, then
  in every state the server reaches, whatever the interleaving, each message shown is of an accepted connection, and those of each side of
  a connection are, in order, the first of what that side says, and all of it once its pump has read and drained every byte.\<close>

theorem concurrent_messages_are_prefixes:
  assumes "decoder_stable (fdec ce)" "decoder_stable (bdec ce)"
    and "(serving ce opts scs)\<^sup>*\<^sup>* (serve_init m i) sv" "inj_on cls {..<length (sv_tasks sv)}"
    and "\<forall>k < length (sv_tasks sv). (\<exists>px. endpoints (scs k) = Inr (cls k, px)) \<and> script_decodes ce (scs k) (cls k) (xs k)"
  shows "\<exists>ys. heard ys i (sv_io sv) \<and> (\<forall>y \<in> set ys. \<exists>k < length (sv_tasks sv). fst y = cls k)
    \<and> (\<forall>k < length (sv_tasks sv). \<forall>r. \<exists>rest. xs k r = of_role r (of_client (cls k) ys) @ rest
         \<and> (\<forall>peer stats rl. sv_tasks sv ! k = Relaying peer stats rl \<and> bytes_of (rl_incoming rl r) = [] \<and> side_read ce rl r \<longrightarrow> rest = []))"
proof -
  obtain ys zs where inv: "heard_inv ce cls xs i ys zs sv" using serving_heard [OF assms] by blast
  have "\<exists>rest. xs k r = of_role r (of_client (cls k) ys) @ rest
      \<and> (\<forall>peer stats rl. sv_tasks sv ! k = Relaying peer stats rl \<and> bytes_of (rl_incoming rl r) = [] \<and> side_read ce rl r \<longrightarrow> rest = [])"
    if k: "k < length (sv_tasks sv)" for k r
  proof (intro exI [of _ "zs k r"] conjI allI impI)
    show "xs k r = of_role r (of_client (cls k) ys) @ zs k r" using inv k by (simp add: heard_inv_def tasks.merged_def connection_awaits_def)
    fix peer stats rl assume t: "sv_tasks sv ! k = Relaying peer stats rl \<and> bytes_of (rl_incoming rl r) = [] \<and> side_read ce rl r"
    have "task_awaits ce (cls k) (zs k) (sv_tasks sv ! k)" using inv k by (simp add: heard_inv_def tasks.merged_def connection_awaits_def)
    then show "zs k r = []" using t relay_finished [of ce "zs k" rl r] by simp
  qed
  moreover have "heard ys i (sv_io sv)" "\<forall>y \<in> set ys. \<exists>k < length (sv_tasks sv). fst y = cls k"
    using inv unfolding heard_inv_def tasks.merged_def by blast+
  ultimately show ?thesis by blast
qed

subsection \<open>Witness\<close>

text \<open>A run of polls of one task is a run of the server.\<close>

lemma polls_serving:
  assumes "sv_result sv = None" "k < length (sv_tasks sv)" "run_task ce opts es (sv_tasks sv ! k, sv_metrics sv, sv_io sv) = Some (t, m, j)"
  shows "(serving ce opts scs)\<^sup>*\<^sup>* sv (sv\<lparr> sv_tasks := (sv_tasks sv)[k := t], sv_metrics := m, sv_io := j \<rparr>)"
  using assms
proof (induction es arbitrary: sv)
  case Nil
  then have "sv\<lparr> sv_tasks := (sv_tasks sv)[k := t], sv_metrics := m, sv_io := j \<rparr> = sv" by (cases sv) auto
  then show ?case by simp
next
  case (Cons e es)
  obtain t1 m1 j1 where one: "task_step ce opts e (sv_tasks sv ! k) (sv_metrics sv, sv_io sv) = Some (t1, m1, j1)"
    "run_task ce opts es (t1, m1, j1) = Some (t, m, j)"
    using Cons.prems(3) by (auto split: bind_split_asm)
  let ?sv = "sv\<lparr> sv_tasks := (sv_tasks sv)[k := t1], sv_metrics := m1, sv_io := j1 \<rparr>"
  have "serving ce opts scs sv ?sv"
    unfolding serving_def using polled [OF Cons.prems(1,2) one(1)] by (auto dest: arg_cong [of _ _ length])
  moreover have "(serving ce opts scs)\<^sup>*\<^sup>* ?sv (?sv\<lparr> sv_tasks := (sv_tasks ?sv)[k := t], sv_metrics := m, sv_io := j \<rparr>)"
    using Cons.IH [of ?sv] Cons.prems(1,2) one(2) by simp
  ultimately show ?case by (simp add: converse_rtranclp_into_rtranclp)
qed

lemma run_task_append: "run_task ce opts (es @ fs) st = Option.bind (run_task ce opts es st) (run_task ce opts fs)"
  by (induction es arbitrary: st) (auto split: prod.split bind_split)

text \<open>Two connections are accepted; the first is relayed until all of its client's bytes are read.\<close>

definition other_client :: socket_addr where "other_client = (IpV4 0x7F000001, 50001)"

definition two_scripts :: "nat \<Rightarrow> conn_script" where
  "two_scripts k = (if k = 0 then cleartext_script
     else sample_script\<lparr> endpoints := Inr (other_client, (IpV4 0x7F000001, 6432)), head_read := None \<rparr>)"

definition two_clients :: "nat \<Rightarrow> socket_addr" where "two_clients k = (if k = 0 then sample_client else other_client)"

definition two_accepted :: "unit server" where
  "two_accepted = (serve_init new_metrics sample_io)\<lparr> sv_tasks := [Accepted (two_scripts 0) sample_client, Accepted (two_scripts 1) other_client] \<rparr>"

lemma two_accepted_serving:
  "(serving sample_capture_env sample_opts two_scripts)\<^sup>*\<^sup>* (serve_init new_metrics sample_io) two_accepted"
proof -
  let ?one = "(serve_init new_metrics sample_io)\<lparr> sv_tasks := [Accepted (two_scripts 0) sample_client] \<rparr>"
  have "serving sample_capture_env sample_opts two_scripts (serve_init new_metrics sample_io) ?one"
    using accepted [of "serve_init new_metrics sample_io" sample_capture_env sample_opts "two_scripts 0" sample_client]
    by (simp add: serving_def serve_init_def)
  moreover have "serving sample_capture_env sample_opts two_scripts ?one two_accepted"
    using accepted [of ?one sample_capture_env sample_opts "two_scripts 1" other_client]
    by (simp add: serving_def serve_init_def two_accepted_def)
  ultimately show ?thesis by simp
qed

lemma first_set_up:
  "\<exists>stats m. run_task sample_capture_env sample_opts [(Client, True), (Client, True)] (Accepted cleartext_script sample_client, new_metrics, sample_io)
     = Some (Relaying sample_client stats (relay_start sample_capture_env sample_client (incoming cleartext_script) sample_head), m, sample_io)"
proof -
  obtain stats m1 where o: "open_connection 0 sample_client (IpV4 0x7F000001, 6432) False new_metrics = (stats, m1)"
    by (cases "open_connection 0 sample_client (IpV4 0x7F000001, 6432) False new_metrics")
  show ?thesis
    by (simp add: cleartext_script_def sample_script_def sample_opts_def handle_body_def sample_head_def CANCEL_MAGIC_def
        SSL_MAGIC_def GSS_MAGIC_def client_transport_def server_transport_def attempt_def session_start_def initial_bytes_def
        sample_capture_env_def o)
qed

lemma first_relayed:
  "\<exists>rl m j. run_task sample_capture_env sample_opts [(Client, True), (Client, True), (Client, True)]
       (Relaying sample_client stats (relay_start sample_capture_env sample_client (incoming cleartext_script) sample_head), m0, sample_io)
     = Some (Relaying sample_client stats rl, m, j) \<and> rl_incoming rl Client = [Some []] \<and> side_read sample_capture_env rl Client"
  by (simp add: cleartext_script_def sample_head_def pump_step_def relay_start_def for_decoding_def direction_new_def
      traffic_of_def side_read_def dry_def sample_eval)

text \<open>The state of the server when the bytes of the first client are read and the other task was not polled yet.\<close>

definition first_read :: "conn_ref \<Rightarrow> unit relay \<Rightarrow> metrics \<Rightarrow> io \<Rightarrow> unit server" where
  "first_read stats rl m j = two_accepted\<lparr> sv_tasks := [Relaying sample_client stats rl, Accepted (two_scripts 1) other_client],
     sv_metrics := m, sv_io := j \<rparr>"

lemma first_read_serving:
  "\<exists>stats rl m j. (serving sample_capture_env sample_opts two_scripts)\<^sup>*\<^sup>* (serve_init new_metrics sample_io) (first_read stats rl m j)
     \<and> rl_incoming rl Client = [Some []] \<and> side_read sample_capture_env rl Client"
proof -
  obtain stats m1 where one: "run_task sample_capture_env sample_opts [(Client, True), (Client, True)] (Accepted cleartext_script sample_client, new_metrics, sample_io)
     = Some (Relaying sample_client stats (relay_start sample_capture_env sample_client (incoming cleartext_script) sample_head), m1, sample_io)"
    using first_set_up by blast
  obtain rl m2 j where two: "run_task sample_capture_env sample_opts [(Client, True), (Client, True), (Client, True)]
       (Relaying sample_client stats (relay_start sample_capture_env sample_client (incoming cleartext_script) sample_head), m1, sample_io)
     = Some (Relaying sample_client stats rl, m2, j)" and rl: "rl_incoming rl Client = [Some []]" "side_read sample_capture_env rl Client"
    using first_relayed by blast
  have start: "sv_result two_accepted = None" "sv_tasks two_accepted = [Accepted cleartext_script sample_client, Accepted (two_scripts 1) other_client]"
    "sv_metrics two_accepted = new_metrics" "sv_io two_accepted = sample_io"
    by (simp_all add: two_accepted_def serve_init_def two_scripts_def)
  have "run_task sample_capture_env sample_opts ([(Client, True), (Client, True)] @ [(Client, True), (Client, True), (Client, True)])
      (sv_tasks two_accepted ! 0, sv_metrics two_accepted, sv_io two_accepted) = Some (Relaying sample_client stats rl, m2, j)"
    unfolding run_task_append start by (simp only: nth_Cons_0 one two bind.bind_lunit)
  from polls_serving [OF start(1) _ this]
  have "(serving sample_capture_env sample_opts two_scripts)\<^sup>*\<^sup>* two_accepted (first_read stats rl m2 j)"
    by (simp add: start first_read_def)
  with two_accepted_serving have "(serving sample_capture_env sample_opts two_scripts)\<^sup>*\<^sup>* (serve_init new_metrics sample_io) (first_read stats rl m2 j)"
    by (rule rtranclp_trans)
  then show ?thesis using rl by blast
qed

lemma two_scripts_decode:
  "k < 2 \<Longrightarrow> (\<exists>px. endpoints (two_scripts k) = Inr (two_clients k, px))
     \<and> script_decodes sample_capture_env (two_scripts k) (two_clients k) (if k = 0 then cleartext_said else (\<lambda>r. []))"
  using cleartext_streams
  by (auto simp: two_scripts_def two_clients_def script_decodes_def cleartext_script_def sample_script_def)

theorem concurrent_messages_are_prefixes_witness:
  "\<exists>sv ys. (serving sample_capture_env sample_opts two_scripts)\<^sup>*\<^sup>* (serve_init new_metrics sample_io) sv \<and> length (sv_tasks sv) = 2
     \<and> heard ys sample_io (sv_io sv) \<and> of_role Client (of_client sample_client ys) = cleartext_said Client \<and> of_client other_client ys = []"
proof -
  let ?xs = "\<lambda>k :: nat. if k = 0 then cleartext_said else (\<lambda>r. [])"
  obtain stats rl m j where run: "(serving sample_capture_env sample_opts two_scripts)\<^sup>*\<^sup>* (serve_init new_metrics sample_io) (first_read stats rl m j)"
    and rl: "rl_incoming rl Client = [Some []]" "side_read sample_capture_env rl Client"
    using first_read_serving by blast
  let ?sv = "first_read stats rl m j"
  have tasks: "sv_tasks ?sv = [Relaying sample_client stats rl, Accepted (two_scripts 1) other_client]" by (simp add: first_read_def)
  then have len: "length (sv_tasks ?sv) = 2" "0 < length (sv_tasks ?sv)" "1 < length (sv_tasks ?sv)" by simp_all
  have dec: "decoder_stable (fdec sample_capture_env)" "decoder_stable (bdec sample_capture_env)"
    by (simp_all add: sample_capture_env_def typed_decoder_stable)
  have inj: "inj_on two_clients {..<length (sv_tasks ?sv)}"
    unfolding len by (auto simp: inj_on_def two_clients_def other_client_def sample_client_def)
  obtain ys where ys: "heard ys sample_io (sv_io ?sv)" "\<forall>y \<in> set ys. \<exists>k < length (sv_tasks ?sv). fst y = two_clients k"
    "\<forall>k < length (sv_tasks ?sv). \<forall>r. \<exists>rest. ?xs k r = of_role r (of_client (two_clients k) ys) @ rest
         \<and> (\<forall>peer stats rl. sv_tasks ?sv ! k = Relaying peer stats rl \<and> bytes_of (rl_incoming rl r) = [] \<and> side_read sample_capture_env rl r \<longrightarrow> rest = [])"
    using concurrent_messages_are_prefixes [OF dec run inj, of ?xs] two_scripts_decode unfolding len by blast
  obtain rest where rest: "?xs 0 Client = of_role Client (of_client (two_clients 0) ys) @ rest"
    "\<forall>peer stats rl. sv_tasks ?sv ! 0 = Relaying peer stats rl \<and> bytes_of (rl_incoming rl Client) = [] \<and> side_read sample_capture_env rl Client \<longrightarrow> rest = []"
    using ys(3) [rule_format, OF len(2), of Client] by (elim exE conjE)
  have "rest = []" by (rule rest(2) [rule_format, of sample_client stats rl]) (simp add: rl tasks)
  then have "cleartext_said Client = of_role Client (of_client sample_client ys)"
    using rest(1) by (simp add: two_clients_def)
  moreover have other: "of_role r (of_client other_client ys) = []" for r
    using ys(3) [rule_format, OF len(3), of r] by (elim exE conjE) (simp add: two_clients_def)
  have "of_client other_client ys = []"
    using other [of Client] other [of Server] by (rule of_both_roles)
  ultimately show ?thesis using run ys(1) len(1) by (intro exI [of _ ?sv] exI [of _ ys]) simp
qed

end
